(* ===== verification/Go_Prelude.thy ===== *)
theory Go_Prelude
  imports Main "HOL-Library.Word" "HOL-Library.AList"
begin

text \<open>
  Shared vocabulary of the development: machine integers, byte strings, the errors the
  code returns, Go maps as association lists, the parts of \<open>encoding/binary\<close> and \<open>io\<close> the
  program uses, and the generic lemmas and automation the component theories rest on.
\<close>

unbundle bit_operations_syntax

section \<open>Types and collections\<close>

named_theorems wire \<open>unfolding rules of the byte-level encoders and decoders\<close>
named_theorems bus_defs \<open>definitions of the bus operations\<close>

type_synonym byte = "8 word"
type_synonym u16 = "16 word"
type_synonym u32 = "32 word"
type_synonym u64 = "64 word"
type_synonym bytes = "byte list"

text \<open>
  Go's \<open>error\<close> values. The sentinel errors of \<open>io\<close> and of the packages are constructors,
  \<open>Errorf\<close> is an error built by \<open>fmt.Errorf\<close> with its message, \<open>ConnError\<close> is a failed
  write on the connection and \<open>RandError\<close> a failure of \<open>crypto/rand\<close>. \<open>NeverReturns\<close> is
  not a value of the program: it stands for a call whose loop does not end, where a model
  of a caller needs to go on from it (the callers show that it does not occur).
\<close>

datatype go_error =
    EOF
  | ErrUnexpectedEOF
  | ConnError
  | RandError
  | ErrUnexpectedType
  | ErrInvalidData
  | ErrChunkTooLarge
  | ErrInvalidVersion
  | ErrHandshakeFailed
  | Errorf string
  | NeverReturns

text \<open>The text of a formatted error, where the source puts it into another one.\<close>

definition err_text :: "go_error \<Rightarrow> string" where
  "err_text e = (case e of Errorf s \<Rightarrow> s | _ \<Rightarrow> '''')"

type_synonym 'a result = "go_error + 'a"

definition bind_result :: "'a result \<Rightarrow> ('a \<Rightarrow> 'b result) \<Rightarrow> 'b result" where
  "bind_result r f = (case r of Inl e \<Rightarrow> Inl e | Inr x \<Rightarrow> f x)"

lemma bind_result_simps [simp]:
  "bind_result (Inl e) f = Inl e"
  "bind_result (Inr x) f = f x"
  by (simp_all add: bind_result_def)

lemma bind_result_Inr_iff:
  "bind_result r f = Inr y \<longleftrightarrow> (\<exists>x. r = Inr x \<and> f x = Inr y)"
  by (cases r) auto

lemma bind_result_Inl_iff:
  "bind_result r f = Inl e \<longleftrightarrow> r = Inl e \<or> (\<exists>x. r = Inr x \<and> f x = Inl e)"
  by (cases r) auto

lemma bind_result_cong [fundef_cong]:
  "r = r' \<Longrightarrow> (\<And>x. r' = Inr x \<Longrightarrow> f x = g x) \<Longrightarrow> bind_result r f = bind_result r' g"
  by (cases r') auto

section \<open>encoding/binary\<close>

text \<open>
  The fixed-size encodings the program writes and reads: big-endian 16, 24, 32 and 64-bit
  integers, little-endian 32-bit integers, as the shifts and ors of the source.
\<close>

definition put_be16 :: "u16 \<Rightarrow> bytes" where
  "put_be16 x = [ucast (drop_bit 8 x), ucast x]"

definition put_be24 :: "u32 \<Rightarrow> bytes" where
  "put_be24 x = [ucast (drop_bit 16 x), ucast (drop_bit 8 x), ucast x]"

definition put_be32 :: "u32 \<Rightarrow> bytes" where
  "put_be32 x = [ucast (drop_bit 24 x), ucast (drop_bit 16 x), ucast (drop_bit 8 x), ucast x]"

definition put_le32 :: "u32 \<Rightarrow> bytes" where
  "put_le32 x = [ucast x, ucast (drop_bit 8 x), ucast (drop_bit 16 x), ucast (drop_bit 24 x)]"

definition put_be64 :: "u64 \<Rightarrow> bytes" where
  "put_be64 x = [ucast (drop_bit 56 x), ucast (drop_bit 48 x), ucast (drop_bit 40 x),
     ucast (drop_bit 32 x), ucast (drop_bit 24 x), ucast (drop_bit 16 x),
     ucast (drop_bit 8 x), ucast x]"

definition get_be16 :: "bytes \<Rightarrow> u16" where
  "get_be16 b = push_bit 8 (ucast (b ! 0)) OR ucast (b ! 1)"

definition get_be24 :: "bytes \<Rightarrow> u32" where
  "get_be24 b = push_bit 16 (ucast (b ! 0)) OR push_bit 8 (ucast (b ! 1)) OR ucast (b ! 2)"

definition get_be32 :: "bytes \<Rightarrow> u32" where
  "get_be32 b = push_bit 24 (ucast (b ! 0)) OR push_bit 16 (ucast (b ! 1))
     OR push_bit 8 (ucast (b ! 2)) OR ucast (b ! 3)"

definition get_le32 :: "bytes \<Rightarrow> u32" where
  "get_le32 b = ucast (b ! 0) OR push_bit 8 (ucast (b ! 1))
     OR push_bit 16 (ucast (b ! 2)) OR push_bit 24 (ucast (b ! 3))"

definition get_be64 :: "bytes \<Rightarrow> u64" where
  "get_be64 b = push_bit 56 (ucast (b ! 0)) OR push_bit 48 (ucast (b ! 1))
     OR push_bit 40 (ucast (b ! 2)) OR push_bit 32 (ucast (b ! 3))
     OR push_bit 24 (ucast (b ! 4)) OR push_bit 16 (ucast (b ! 5))
     OR push_bit 8 (ucast (b ! 6)) OR ucast (b ! 7)"

lemmas put_defs [wire] = put_be16_def put_be24_def put_be32_def put_le32_def put_be64_def
lemmas get_defs [wire] = get_be16_def get_be24_def get_be32_def get_le32_def get_be64_def

lemma length_put [simp]:
  "length (put_be16 x) = 2" "length (put_be24 y) = 3" "length (put_be32 y) = 4"
  "length (put_le32 y) = 4" "length (put_be64 z) = 8"
  by (simp_all add: put_defs)

text \<open>
  The proofs are bit by bit: the position is below, between or above the byte boundaries.
\<close>

lemma get_put_be16 [simp]: "get_be16 (put_be16 x) = x"
proof (rule bit_word_eqI)
  fix n show "bit (get_be16 (put_be16 x)) n = bit x n" if "n < LENGTH(16)"
    using that by (cases "n < 8"; auto simp: put_defs get_defs bit_simps not_less less_diff_conv2)
qed

lemma get_put_be24: "get_be24 (put_be24 x) = take_bit 24 x"
proof (rule bit_word_eqI)
  fix n show "bit (get_be24 (put_be24 x)) n = bit (take_bit 24 x) n" if "n < LENGTH(32)"
    using that by (cases "n < 8"; cases "n < 16"; cases "n < 24";
      auto simp: put_defs get_defs bit_simps not_less less_diff_conv2)
qed

lemma get_put_be24_id [simp]: "x < 2 ^ 24 \<Longrightarrow> get_be24 (put_be24 x) = x"
  by (simp add: get_put_be24 word_less_nat_alt word_unat_eq_iff unsigned_take_bit_eq
      take_bit_nat_eq_self)

lemma get_put_be32 [simp]: "get_be32 (put_be32 x) = x"
proof (rule bit_word_eqI)
  fix n show "bit (get_be32 (put_be32 x)) n = bit x n" if "n < LENGTH(32)"
    using that by (cases "n < 8"; cases "n < 16"; cases "n < 24";
      auto simp: put_defs get_defs bit_simps not_less less_diff_conv2)
qed

lemma get_put_le32 [simp]: "get_le32 (put_le32 x) = x"
proof (rule bit_word_eqI)
  fix n show "bit (get_le32 (put_le32 x)) n = bit x n" if "n < LENGTH(32)"
    using that by (cases "n < 8"; cases "n < 16"; cases "n < 24";
      auto simp: put_defs get_defs bit_simps not_less less_diff_conv2)
qed

lemma get_put_be64 [simp]: "get_be64 (put_be64 x) = x"
proof (rule bit_word_eqI)
  fix n show "bit (get_be64 (put_be64 x)) n = bit x n" if "n < LENGTH(64)"
    using that by (cases "n < 8"; cases "n < 16"; cases "n < 24"; cases "n < 32";
      cases "n < 40"; cases "n < 48"; cases "n < 56";
      auto simp: put_defs get_defs bit_simps not_less less_diff_conv2)
qed

section \<open>Readers\<close>

text \<open>
  A reader is the list of bytes it will still deliver before end of file. \<open>io.ReadFull\<close>
  with an \<open>n\<close>-byte buffer returns \<open>EOF\<close> when no byte was read and \<open>ErrUnexpectedEOF\<close> when
  some but not all were; an empty buffer always succeeds. \<open>binary.Read\<close> of a fixed-size
  value is \<open>io.ReadFull\<close> followed by the decoding.
\<close>

definition io_ReadFull :: "nat \<Rightarrow> bytes \<Rightarrow> (bytes \<times> bytes) result" where
  "io_ReadFull n r =
     (if n \<le> length r then Inr (take n r, drop n r)
      else if r = [] then Inl EOF else Inl ErrUnexpectedEOF)"

definition read_u8 :: "bytes \<Rightarrow> (byte \<times> bytes) result" where
  "read_u8 r = bind_result (io_ReadFull 1 r) (\<lambda>(b, r'). Inr (b ! 0, r'))"

definition read_be16 :: "bytes \<Rightarrow> (u16 \<times> bytes) result" where
  "read_be16 r = bind_result (io_ReadFull 2 r) (\<lambda>(b, r'). Inr (get_be16 b, r'))"

definition read_be32 :: "bytes \<Rightarrow> (u32 \<times> bytes) result" where
  "read_be32 r = bind_result (io_ReadFull 4 r) (\<lambda>(b, r'). Inr (get_be32 b, r'))"

definition read_be64 :: "bytes \<Rightarrow> (u64 \<times> bytes) result" where
  "read_be64 r = bind_result (io_ReadFull 8 r) (\<lambda>(b, r'). Inr (get_be64 b, r'))"

lemmas read_defs [wire] = read_u8_def read_be16_def read_be32_def read_be64_def

lemma io_ReadFull_append [simp]: "length b = n \<Longrightarrow> io_ReadFull n (b @ r) = Inr (b, r)"
  by (simp add: io_ReadFull_def)

lemma io_ReadFull_exact: "io_ReadFull n r = Inr (b, r') \<Longrightarrow> r = b @ r' \<and> length b = n"
  by (auto simp: io_ReadFull_def split: if_splits)

lemma io_ReadFull_length: "io_ReadFull n r = Inr (b, r') \<Longrightarrow> length r = n + length r'"
  by (auto dest!: io_ReadFull_exact)

lemma io_ReadFull_Inl: "io_ReadFull n r = Inl e \<longleftrightarrow>
    length r < n \<and> e = (if r = [] then EOF else ErrUnexpectedEOF)"
  by (auto simp: io_ReadFull_def)

lemma read_u8_Cons [simp]: "read_u8 (b # r) = Inr (b, r)"
  by (simp add: read_u8_def io_ReadFull_def)

lemma read_u8_Nil [simp]: "read_u8 [] = Inl EOF"
  by (simp add: read_u8_def io_ReadFull_def)

lemma read_length:
  "read_u8 r = Inr (b, r') \<Longrightarrow> length r = Suc (length r')"
  "read_be16 r = Inr (w, r') \<Longrightarrow> length r = 2 + length r'"
  "read_be32 r = Inr (d, r') \<Longrightarrow> length r = 4 + length r'"
  "read_be64 r = Inr (q, r') \<Longrightarrow> length r = 8 + length r'"
  by (auto simp: read_defs bind_result_Inr_iff dest: io_ReadFull_length split: prod.splits)

text \<open>\<open>consumes r r'\<close>: reading took a non-empty prefix of \<open>r\<close> and left \<open>r'\<close>.\<close>

definition consumes :: "bytes \<Rightarrow> bytes \<Rightarrow> bool" where
  "consumes r r' \<longleftrightarrow> (\<exists>u. u \<noteq> [] \<and> r = u @ r')"

lemma consumes_trans [trans]: "consumes r s \<Longrightarrow> consumes s t \<Longrightarrow> consumes r t"
  unfolding consumes_def by (metis Nil_is_append_conv append.assoc)

lemma consumes_length: "consumes r r' \<Longrightarrow> length r' < length r"
  by (auto simp: consumes_def)

lemma read_consumes:
  "io_ReadFull n r = Inr (b, r') \<Longrightarrow> 0 < n \<Longrightarrow> consumes r r'"
  "read_u8 r = Inr (x, r') \<Longrightarrow> consumes r r'"
  "read_be16 r = Inr (w, r') \<Longrightarrow> consumes r r'"
  "read_be32 r = Inr (d, r') \<Longrightarrow> consumes r r'"
  "read_be64 r = Inr (q, r') \<Longrightarrow> consumes r r'"
proof -
  show full: "consumes r r'" if "io_ReadFull n r = Inr (b, r')" "0 < n" for n b
    using io_ReadFull_exact [OF that(1)] that(2) by (auto simp: consumes_def)
  show "read_u8 r = Inr (x, r') \<Longrightarrow> consumes r r'" "read_be16 r = Inr (w, r') \<Longrightarrow> consumes r r'"
    "read_be32 r = Inr (d, r') \<Longrightarrow> consumes r r'" "read_be64 r = Inr (q, r') \<Longrightarrow> consumes r r'"
    by (auto simp: read_defs bind_result_Inr_iff intro: full)
qed

lemma read_errors:
  "io_ReadFull n r = Inl e \<Longrightarrow> e = EOF \<or> e = ErrUnexpectedEOF"
  "read_u8 r = Inl e \<Longrightarrow> e = EOF \<or> e = ErrUnexpectedEOF"
  "read_be16 r = Inl e \<Longrightarrow> e = EOF \<or> e = ErrUnexpectedEOF"
  "read_be32 r = Inl e \<Longrightarrow> e = EOF \<or> e = ErrUnexpectedEOF"
  "read_be64 r = Inl e \<Longrightarrow> e = EOF \<or> e = ErrUnexpectedEOF"
  by (auto simp: read_defs bind_result_Inl_iff io_ReadFull_Inl split: if_splits prod.splits)

subsection \<open>The codec interface\<close>

text \<open>
  What every decoder of the program promises about its encoder: a well-formed value comes
  back, and exactly its own bytes are consumed, whatever follows them. The clients'
  consequences (encodings are prefix-free, a sequence of encodings decodes item by item)
  are proved once here.
\<close>

locale codec =
  fixes enc :: "'a \<Rightarrow> bytes"
    and dec :: "bytes \<Rightarrow> ('a \<times> bytes) result"
    and ok :: "'a \<Rightarrow> bool"
  assumes dec_enc: "ok x \<Longrightarrow> dec (enc x @ r) = Inr (x, r)"
begin

lemma dec_enc_exact: "ok x \<Longrightarrow> dec (enc x) = Inr (x, [])"
  using dec_enc [of x "[]"] by simp

lemma enc_prefix_free:
  assumes "ok x" "ok y" "enc x @ r = enc y @ s"
  shows "x = y \<and> r = s"
proof -
  from assms(1) have "dec (enc y @ s) = Inr (x, r)"
    unfolding assms(3) [symmetric] by (rule dec_enc)
  with assms(2) show ?thesis by (simp add: dec_enc)
qed

lemma enc_inj: "ok x \<Longrightarrow> ok y \<Longrightarrow> enc x = enc y \<Longrightarrow> x = y"
  using enc_prefix_free [of x y "[]" "[]"] by simp

end

interpretation u8c: codec "\<lambda>b. [b]" read_u8 "\<lambda>_. True"
  by unfold_locales simp

interpretation be16c: codec put_be16 read_be16 "\<lambda>_. True"
  by unfold_locales (simp add: read_be16_def)

interpretation be32c: codec put_be32 read_be32 "\<lambda>_. True"
  by unfold_locales (simp add: read_be32_def)

interpretation be64c: codec put_be64 read_be64 "\<lambda>_. True"
  by unfold_locales (simp add: read_be64_def)

lemmas read_put [simp] = be16c.dec_enc be32c.dec_enc be64c.dec_enc

section \<open>Go maps\<close>

text \<open>
  A Go map is an association list with distinct keys; the order of the list stands for the
  (unspecified) iteration order of \<open>range\<close>. The interface lists what its clients use.
\<close>

type_synonym ('k, 'v) gomap = "('k \<times> 'v) list"

definition gomap_get :: "('k, 'v) gomap \<Rightarrow> 'k \<Rightarrow> 'v option" where
  "gomap_get m k = map_of m k"

definition gomap_set :: "'k \<Rightarrow> 'v \<Rightarrow> ('k, 'v) gomap \<Rightarrow> ('k, 'v) gomap" where
  "gomap_set k v m = AList.update k v m"

definition gomap_delete :: "'k \<Rightarrow> ('k, 'v) gomap \<Rightarrow> ('k, 'v) gomap" where
  "gomap_delete k m = AList.delete k m"

definition gomap_keys :: "('k, 'v) gomap \<Rightarrow> 'k list" where
  "gomap_keys m = map fst m"

definition gomap_wf :: "('k, 'v) gomap \<Rightarrow> bool" where
  "gomap_wf m \<longleftrightarrow> distinct (map fst m)"

locale go_map =
  fixes empty :: "'m"
    and get :: "'m \<Rightarrow> 'k \<Rightarrow> 'v option"
    and set_key :: "'k \<Rightarrow> 'v \<Rightarrow> 'm \<Rightarrow> 'm"
    and del_key :: "'k \<Rightarrow> 'm \<Rightarrow> 'm"
    and keys :: "'m \<Rightarrow> 'k list"
    and wf :: "'m \<Rightarrow> bool"
  assumes get_empty: "get empty k = None"
    and get_set: "get (set_key k v m) k' = (if k' = k then Some v else get m k')"
    and get_del: "get (del_key k m) k' = (if k' = k then None else get m k')"
    and keys_get: "k \<in> set (keys m) \<longleftrightarrow> get m k \<noteq> None"
    and wf_empty: "wf empty"
    and wf_set: "wf m \<Longrightarrow> wf (set_key k v m)"
    and wf_del: "wf m \<Longrightarrow> wf (del_key k m)"
    and wf_keys: "wf m \<Longrightarrow> distinct (keys m)"
begin

lemma keys_set: "set (keys (set_key k v m)) = insert k (set (keys m))"
  by (auto simp: keys_get get_set split: if_splits)

lemma keys_del: "set (keys (del_key k m)) = set (keys m) - {k}"
  by (auto simp: keys_get get_del split: if_splits)

lemma len_card: "wf m \<Longrightarrow> length (keys m) = card (set (keys m))"
  by (simp add: distinct_card wf_keys)

lemma len_set_new: "wf m \<Longrightarrow> get m k = None \<Longrightarrow> length (keys (set_key k v m)) = Suc (length (keys m))"
  by (simp add: len_card wf_set keys_set keys_get)

lemma len_del_old: "wf m \<Longrightarrow> get m k \<noteq> None \<Longrightarrow> Suc (length (keys (del_key k m))) = length (keys m)"
  using card_Suc_Diff1 [of "set (keys m)" k] by (simp add: len_card wf_del keys_del keys_get)

lemma len_0: "length (keys m) = 0 \<longleftrightarrow> (\<forall>k. get m k = None)"
  using keys_get [of _ m] by (metis length_0_conv list.set_intros(1) neq_Nil_conv empty_iff empty_set)

end

interpretation gm: go_map "[]" gomap_get gomap_set gomap_delete gomap_keys gomap_wf
  by unfold_locales
    (auto simp: gomap_get_def gomap_set_def gomap_delete_def gomap_keys_def gomap_wf_def
      update_conv' delete_conv' distinct_update distinct_delete map_of_eq_None_iff
      dest: map_of_SomeD)

lemmas gomap_simps [simp] = gm.get_empty gm.get_set gm.get_del gm.wf_empty
lemmas gomap_wf_intros [intro] = gm.wf_set gm.wf_del

section \<open>Rounding up to a power of two\<close>

text \<open>
  The loop \<open>n := 1; for n < c { n <<= 1 }\<close> of the ring buffer, the shared log and the
  arena, at the width of its counter. The shift wraps to 0 past the top bit, so the loop
  may run forever: \<open>None\<close> is a loop that never ends.
\<close>

partial_function (option) pow2_loop :: "'a::len word \<Rightarrow> 'a word \<Rightarrow> 'a word option" where
  "pow2_loop n c = (if n < c then pow2_loop (push_bit 1 n) c else Some n)"

lemma unat_exp: "k < LENGTH('a) \<Longrightarrow> unat (2 ^ k :: 'a::len word) = 2 ^ k"
  using unat_of_nat [where ?'a = 'a, of "2 ^ k"] by simp

lemma push_bit_exp: "push_bit 1 (2 ^ k :: 'a::len word) = 2 ^ Suc k"
  by (simp add: push_bit_eq_mult)

lemma unat_and_exp:
  "k < LENGTH('a) \<Longrightarrow> unat ((x::'a::len word) AND (2 ^ k - 1)) = unat x mod 2 ^ k"
  by (simp add: mask_eq_exp_minus_1 [symmetric] take_bit_eq_mask [symmetric]
      unsigned_take_bit_eq take_bit_eq_mod [where ?'a = nat])

lemma pow2_loop_from:
  assumes "unat c \<le> 2 ^ (k + j)" "k + j < LENGTH('a)"
  shows "\<exists>i. k \<le> i \<and> i \<le> k + j \<and> pow2_loop (2 ^ k) (c::'a::len word) = Some (2 ^ i) \<and>
    unat c \<le> 2 ^ i \<and> (i = k \<or> 2 ^ i < 2 * unat c)"
  using assms
proof (induction j arbitrary: k)
  case 0
  then show ?case
    by (subst pow2_loop.simps) (auto simp: word_less_nat_alt unat_exp)
next
  case (Suc j)
  show ?case
  proof (cases "unat c \<le> 2 ^ k")
    case True
    then show ?thesis using Suc.prems
      by (subst pow2_loop.simps) (auto simp: word_less_nat_alt unat_exp intro: exI [of _ k])
  next
    case False
    obtain i where "Suc k \<le> i" "i \<le> Suc k + j" "pow2_loop (2 ^ Suc k) c = Some (2 ^ i)"
      "unat c \<le> 2 ^ i" "i = Suc k \<or> 2 ^ i < 2 * unat c"
      using Suc.IH [of "Suc k"] Suc.prems by auto
    with False Suc.prems show ?thesis
      by (subst pow2_loop.simps)
        (auto simp: word_less_nat_alt unat_exp push_bit_exp mult.commute intro!: exI [of _ i])
  qed
qed

lemma pow2_loop_Some:
  assumes "unat (c::'a::len word) \<le> 2 ^ (LENGTH('a) - 1)"
  obtains i where "i < LENGTH('a)" "pow2_loop 1 c = Some (2 ^ i)"
    "unat c \<le> 2 ^ i" "i = 0 \<or> 2 ^ i < 2 * unat c"
proof -
  have "0 + (LENGTH('a) - 1) < LENGTH('a)" by simp
  from pow2_loop_from [OF _ this] assms that show ?thesis by (auto simp: less_Suc_eq_le)
qed

lemma pow2_loop_None:
  assumes "2 ^ (LENGTH('a) - 1) < unat (c::'a::len word)"
  shows "pow2_loop 1 c = None"
proof (rule ccontr)
  let ?p2 = "\<lambda>n::'a word. n = 0 \<or> (\<exists>k < LENGTH('a). n = 2 ^ k)"
  assume "pow2_loop 1 c \<noteq> None"
  then obtain r where r: "pow2_loop 1 c = Some r" by auto
  have "\<not> r < c \<and> (?p2 1 \<longrightarrow> ?p2 r)"
  proof (rule pow2_loop.raw_induct [where P = "\<lambda>n c r. \<not> r < c \<and> (?p2 n \<longrightarrow> ?p2 r)", OF _ r])
    fix f n and c r :: "'a word"
    assume IH: "\<And>n c r. f n c = Some r \<Longrightarrow> \<not> r < c \<and> (?p2 n \<longrightarrow> ?p2 r)"
      and eq: "(if n < c then f (push_bit 1 n) c else Some n) = Some r"
    have "?p2 (push_bit 1 n)" if "?p2 n"
      using that by (metis One_nat_def Suc_lessI exp_eq_zero_iff le_refl push_bit_exp push_bit_of_0)
    with IH eq show "\<not> r < c \<and> (?p2 n \<longrightarrow> ?p2 r)" by (auto split: if_splits)
  qed
  then have "?p2 r" and ge: "unat c \<le> unat r"
    by (auto simp: not_less word_le_nat_alt intro: exI [of _ 0])
  then have "unat r \<le> 2 ^ (LENGTH('a) - 1)"
    by (auto simp: unat_exp intro!: power_increasing)
  with ge assms show False by linarith
qed

section \<open>Strings as bytes\<close>

text \<open>\<open>[]byte(s)\<close> and \<open>string(b)\<close>.\<close>

definition str_bytes :: "string \<Rightarrow> bytes" where
  "str_bytes s = map of_char s"

definition bytes_str :: "bytes \<Rightarrow> string" where
  "bytes_str b = map (\<lambda>x. char_of (unat x)) b"

lemma bytes_str_inverse [simp]: "bytes_str (str_bytes s) = s"
proof -
  have "char_of (unat (of_char c :: byte)) = c" for c :: char
  proof -
    have "(of_char c :: byte) = of_nat (of_char c)" by (simp only: of_nat_of_char)
    moreover have "of_char c < (256::nat)" by (rule nat_of_char_less_256)
    ultimately have "unat (of_char c :: byte) = of_char c" by (simp only: unat_of_nat) simp
    then show ?thesis by simp
  qed
  then show ?thesis by (simp add: bytes_str_def str_bytes_def comp_def)
qed

lemma length_str_bytes [simp]: "length (str_bytes s) = length s"
  by (simp add: str_bytes_def)

lemma str_bytes_Nil [simp]: "str_bytes [] = []"
  by (simp add: str_bytes_def)

section \<open>Reachability\<close>

text \<open>
  A transition system over states \<open>'s\<close>: the interface its invariants are proved against.
\<close>

inductive reachable_from :: "('s \<Rightarrow> bool) \<Rightarrow> ('s \<Rightarrow> 's \<Rightarrow> bool) \<Rightarrow> 's \<Rightarrow> bool"
  for start :: "'s \<Rightarrow> bool" and step :: "'s \<Rightarrow> 's \<Rightarrow> bool" where
  reach_start: "start s \<Longrightarrow> reachable_from start step s"
| reach_step: "reachable_from start step s \<Longrightarrow> step s t \<Longrightarrow> reachable_from start step t"

locale inductive_invariant =
  fixes start :: "'s \<Rightarrow> bool" and step :: "'s \<Rightarrow> 's \<Rightarrow> bool" and inv :: "'s \<Rightarrow> bool"
  assumes inv_start: "start s \<Longrightarrow> inv s"
    and inv_step: "inv s \<Longrightarrow> step s t \<Longrightarrow> inv t"
begin

lemma inv_reachable: "reachable_from start step s \<Longrightarrow> inv s"
  by (induction rule: reachable_from.induct) (auto intro: inv_start inv_step)

end

end
