(* ===== verification/Message.thy ===== *)
theory Message
  imports Go_Prelude
begin

text \<open>
  The unit of media on the bus (\<open>internal/core/bus/message.go\<close>), the stream key
  (\<open>streamkey.go\<close>) and the package-level payload pool. A message's payload type is a
  parameter: a \<open>slice\<close> of memory while the message sits in a stream's slab, plain bytes
  for the immutable clones and for the value a reader loads.
\<close>

section \<open>Data\<close>

type_synonym MessageType = byte

abbreviation MessageTypeAudio :: MessageType where "MessageTypeAudio \<equiv> 0"
abbreviation MessageTypeVideo :: MessageType where "MessageTypeVideo \<equiv> 1"
abbreviation MessageTypeMetadata :: MessageType where "MessageTypeMetadata \<equiv> 2"

definition MessageType_String :: "MessageType \<Rightarrow> string" where
  "MessageType_String t =
     (if t = MessageTypeAudio then ''audio''
      else if t = MessageTypeVideo then ''video''
      else if t = MessageTypeMetadata then ''metadata''
      else ''unknown'')"

record 'p MediaMessage =
  mm_Type :: MessageType
  mm_Timestamp :: u32
  mm_Payload :: 'p
  mm_IsInit :: bool

record StreamKey =
  sk_App :: string
  sk_Name :: string

definition StreamKey_String :: "StreamKey \<Rightarrow> string" where
  "StreamKey_String k = sk_App k @ ''/'' @ sk_Name k"

definition NewStreamKey :: "string \<Rightarrow> string \<Rightarrow> StreamKey" where
  "NewStreamKey app name = \<lparr>sk_App = app, sk_Name = name\<rparr>"

text \<open>
  Slices. \<open>ArenaSlice off len cap\<close> is a window of an arena's base array, \<open>HeapSlice bs\<close> a
  private heap array that nobody else writes, \<open>NilSlice\<close> the nil slice.
\<close>

datatype slice = NilSlice | ArenaSlice nat nat nat | HeapSlice bytes

text \<open>
  \<open>Clone\<close> copies the payload into a fresh array, so the clone is a value: its payload is
  the bytes the original had at that moment (an empty payload stays nil, that is empty).
\<close>

definition MediaMessage_Clone :: "bytes MediaMessage \<Rightarrow> bytes MediaMessage" where
  "MediaMessage_Clone m =
     \<lparr>mm_Type = mm_Type m, mm_Timestamp = mm_Timestamp m,
      mm_Payload = (if 0 < length (mm_Payload m) then mm_Payload m else []),
      mm_IsInit = mm_IsInit m\<rparr>"

section \<open>The payload pool\<close>

text \<open>
  A pooled buffer is its capacity: the contents are always reset to length 0. \<open>sync.Pool\<close>
  may hand out any pooled buffer or a new one; the list order is that choice, and an empty
  list calls \<open>New\<close>. A released \<open>nil\<close> is \<open>None\<close>.
\<close>

definition AcquirePayload :: "nat list \<Rightarrow> nat \<times> nat list" where
  "AcquirePayload pool = (case pool of [] \<Rightarrow> (64 * 1024, []) | c # cs \<Rightarrow> (c, cs))"

definition ReleasePayload :: "nat option \<Rightarrow> nat list \<Rightarrow> nat list" where
  "ReleasePayload buf pool =
     (case buf of
        None \<Rightarrow> pool
      | Some c \<Rightarrow> if c \<le> 256 * 1024 then c # pool else pool)"

definition payload_pool_ok :: "nat list \<Rightarrow> bool" where
  "payload_pool_ok pool \<longleftrightarrow> (\<forall>c \<in> set pool. c \<le> 256 * 1024)"

section \<open>The message pool\<close>

text \<open>
  Message structs outside of a stream's slab; a nil payload is \<open>None\<close>. As above the order of
  the list is the choice of \<open>sync.Pool\<close>, and a released nil pointer is \<open>None\<close>.
\<close>

type_synonym PooledMessage = "bytes option MediaMessage"

definition AcquireMessage :: "PooledMessage list \<Rightarrow> PooledMessage \<times> PooledMessage list" where
  "AcquireMessage pool =
     (let (msg, pool) = (case pool of
        [] \<Rightarrow> (\<lparr>mm_Type = 0, mm_Timestamp = 0, mm_Payload = None, mm_IsInit = False\<rparr>, [])
      | m # ms \<Rightarrow> (m, ms))
      in (msg\<lparr>mm_Type := 0, mm_Timestamp := 0, mm_Payload := None, mm_IsInit := False\<rparr>, pool))"

definition ReleaseMessage :: "PooledMessage option \<Rightarrow> PooledMessage list \<Rightarrow> PooledMessage list" where
  "ReleaseMessage msg pool =
     (case msg of None \<Rightarrow> pool | Some m \<Rightarrow> m\<lparr>mm_Payload := None\<rparr> # pool)"

text \<open>The data is appended to a pooled buffer of length 0, so the payload is the data.\<close>

definition SetPayload :: "bytes \<Rightarrow> PooledMessage \<Rightarrow> nat list \<Rightarrow> PooledMessage \<times> nat list" where
  "SetPayload data m payloads =
     (case AcquirePayload payloads of (buf, payloads) \<Rightarrow> (m\<lparr>mm_Payload := Some ([] @ data)\<rparr>, payloads))"

section \<open>Facts\<close>

text \<open>Nothing of a released message shows in the next one, and no payload is kept alive by the pool.\<close>

lemma acquired_message_is_blank:
  "fst (AcquireMessage pool) = \<lparr>mm_Type = MessageTypeAudio, mm_Timestamp = 0, mm_Payload = None, mm_IsInit = False\<rparr>"
  by (cases pool) (auto simp: AcquireMessage_def)

lemma message_pool_holds_no_payload:
  assumes "list_all (\<lambda>m. mm_Payload m = None) pool"
  shows "list_all (\<lambda>m. mm_Payload m = None) (ReleaseMessage msg pool)"
    and "list_all (\<lambda>m. mm_Payload m = None) (snd (AcquireMessage pool))"
  using assms by (auto simp: ReleaseMessage_def AcquireMessage_def split: option.splits list.splits)

lemma Clone_value [simp]: "MediaMessage_Clone m = m"
  by (simp add: MediaMessage_Clone_def)

lemma payload_pool_bounded:
  assumes "payload_pool_ok pool"
  shows "payload_pool_ok (snd (AcquirePayload pool))" "payload_pool_ok (ReleasePayload b pool)"
  using assms
  by (auto simp: payload_pool_ok_def AcquirePayload_def ReleasePayload_def
      split: list.splits option.splits)

text \<open>
  The printed key determines the key only when the application has no slash: the log lines
  of \<open>live/a\<close> published under \<open>x\<close> and of \<open>live\<close> under \<open>a/x\<close> coincide.
\<close>

lemma split_at_first:
  assumes "x \<notin> set a" "x \<notin> set b" "a @ x # c = b @ x # d"
  shows "a = b \<and> c = d"
  using assms
proof (induction a arbitrary: b)
  case Nil
  then show ?case by (cases b) auto
next
  case (Cons y a)
  then show ?case by (cases b) auto
qed

lemma StreamKey_String_inj:
  assumes "CHR ''/'' \<notin> set (sk_App k)" "CHR ''/'' \<notin> set (sk_App l)"
    and "StreamKey_String k = StreamKey_String l"
  shows "k = l"
proof -
  have "sk_App k @ CHR ''/'' # sk_Name k = sk_App l @ CHR ''/'' # sk_Name l"
    using assms(3) by (simp add: StreamKey_String_def)
  from split_at_first [OF assms(1,2) this] show ?thesis by simp
qed

end
