(* ===== verification/RTMP_Chunk.thy ===== *)
theory RTMP_Chunk
  imports Message
begin

text \<open>
  RTMP chunk parsing, message reassembly and chunk writing (\<open>chunk.go\<close>, \<open>message.go\<close> and
  \<open>constants.go\<close> of \<open>internal/core/protocol/rtmp\<close>). A read error ends the session and its
  parser, so the parser state is only kept on success. The lemmas show that reassembly never
  runs past the announced length and that the parser puts together what the writer cut up.
\<close>

section \<open>Constants\<close>

abbreviation RTMPVersion :: byte where "RTMPVersion \<equiv> 3"
abbreviation DefaultChunkSize :: u32 where "DefaultChunkSize \<equiv> 128"
abbreviation MaxChunkSize :: u32 where "MaxChunkSize \<equiv> 16777215"
abbreviation MsgSetChunkSize :: byte where "MsgSetChunkSize \<equiv> 1"
abbreviation MsgAck :: byte where "MsgAck \<equiv> 3"
abbreviation MsgUserCtrl :: byte where "MsgUserCtrl \<equiv> 4"
abbreviation MsgWinAckSize :: byte where "MsgWinAckSize \<equiv> 5"
abbreviation MsgSetPeerBandwidth :: byte where "MsgSetPeerBandwidth \<equiv> 6"
abbreviation MsgAudio :: byte where "MsgAudio \<equiv> 8"
abbreviation MsgVideo :: byte where "MsgVideo \<equiv> 9"
abbreviation MsgDataAMF0 :: byte where "MsgDataAMF0 \<equiv> 18"
abbreviation MsgCommandAMF0 :: byte where "MsgCommandAMF0 \<equiv> 20"
abbreviation ChunkFmt0 :: byte where "ChunkFmt0 \<equiv> 0"
abbreviation ChunkFmt1 :: byte where "ChunkFmt1 \<equiv> 1"
abbreviation ChunkFmt2 :: byte where "ChunkFmt2 \<equiv> 2"
abbreviation ChunkFmt3 :: byte where "ChunkFmt3 \<equiv> 3"

section \<open>The connection\<close>

text \<open>
  What the peer will still send, what was written to it, how many more writes succeed
  (\<open>None\<close>: all of them) and whether this side closed it.
\<close>

record Conn =
  cn_in :: bytes
  cn_out :: bytes
  cn_budget :: "nat option"
  cn_closed :: bool

definition conn_Write :: "bytes \<Rightarrow> Conn \<Rightarrow> Conn \<times> go_error option" where
  "conn_Write b c =
     (if cn_closed c \<or> cn_budget c = Some 0 then (c, Some ConnError)
      else (c\<lparr>cn_out := cn_out c @ b, cn_budget := map_option (\<lambda>n. n - 1) (cn_budget c)\<rparr>, None))"

text \<open>A sequence of writes that stops at the first error.\<close>

fun conn_writes :: "bytes list \<Rightarrow> Conn \<Rightarrow> Conn \<times> go_error option" where
  "conn_writes [] c = (c, None)"
| "conn_writes (b # bs) c =
     (case conn_Write b c of
        (c', Some e) \<Rightarrow> (c', Some e)
      | (c', None) \<Rightarrow> conn_writes bs c')"

definition conn_Close :: "Conn \<Rightarrow> Conn" where
  "conn_Close c = c\<lparr>cn_closed := True\<rparr>"

section \<open>The chunk parser\<close>

record ChunkStream =
  cs_chunkStreamID :: u32
  cs_messageType :: byte
  cs_messageLength :: u32
  cs_timestamp :: u32
  cs_timestampDelta :: u32
  cs_hasExtendedTS :: bool
  cs_streamID :: u32
  cs_buffer :: bytes
  cs_bytesRead :: u32

record ChunkParser =
  cp_chunkStreams :: "(u32, ChunkStream) gomap"
  cp_chunkSize :: u32

definition NewChunkParser :: ChunkParser where
  "NewChunkParser = \<lparr>cp_chunkStreams = [], cp_chunkSize = DefaultChunkSize\<rparr>"

definition ChunkParser_SetChunkSize :: "u32 \<Rightarrow> ChunkParser \<Rightarrow> ChunkParser" where
  "ChunkParser_SetChunkSize sz p = p\<lparr>cp_chunkSize := sz\<rparr>"

definition ChunkParser_GetChunkSize :: "ChunkParser \<Rightarrow> u32" where
  "ChunkParser_GetChunkSize p = cp_chunkSize p"

definition new_chunk_stream :: "u32 \<Rightarrow> ChunkStream" where
  "new_chunk_stream csID =
     \<lparr>cs_chunkStreamID = csID, cs_messageType = 0, cs_messageLength = 0, cs_timestamp = 0,
      cs_timestampDelta = 0, cs_hasExtendedTS = False, cs_streamID = 0, cs_buffer = [], cs_bytesRead = 0\<rparr>"

definition readFmt0 :: "ChunkStream \<Rightarrow> bytes \<Rightarrow> (ChunkStream \<times> bytes) result" where
  "readFmt0 cs r =
     bind_result (io_ReadFull 3 r) (\<lambda>(tsBytes, r).
     let timestamp = get_be24 tsBytes in
     bind_result (io_ReadFull 8 r) (\<lambda>(header, r).
     let ext = (timestamp = 0xFFFFFF) in
     bind_result (if ext then read_be32 r else Inr (timestamp, r)) (\<lambda>(ts, r).
       Inr (cs\<lparr>cs_hasExtendedTS := ext, cs_timestamp := ts,
               cs_messageLength := get_be24 (take 3 header),
               cs_messageType := header ! 3,
               cs_streamID := get_le32 (drop 4 header),
               cs_bytesRead := 0, cs_buffer := []\<rparr>, r))))"

definition readFmt1 :: "ChunkStream \<Rightarrow> bytes \<Rightarrow> (ChunkStream \<times> bytes) result" where
  "readFmt1 cs r =
     bind_result (io_ReadFull 3 r) (\<lambda>(deltaBytes, r).
     let delta = get_be24 deltaBytes in
     bind_result (io_ReadFull 4 r) (\<lambda>(header, r).
     let ext = (delta = 0xFFFFFF) in
     bind_result (if ext then read_be32 r else Inr (delta, r)) (\<lambda>(d, r).
       Inr (cs\<lparr>cs_hasExtendedTS := ext, cs_timestampDelta := d,
               cs_timestamp := cs_timestamp cs + d,
               cs_messageLength := get_be24 (take 3 header),
               cs_messageType := header ! 3,
               cs_bytesRead := 0, cs_buffer := []\<rparr>, r))))"

definition readFmt2 :: "ChunkStream \<Rightarrow> bytes \<Rightarrow> (ChunkStream \<times> bytes) result" where
  "readFmt2 cs r =
     bind_result (io_ReadFull 3 r) (\<lambda>(deltaBytes, r).
     let delta = get_be24 deltaBytes; ext = (delta = 0xFFFFFF) in
     bind_result (if ext then read_be32 r else Inr (delta, r)) (\<lambda>(d, r).
       Inr (cs\<lparr>cs_hasExtendedTS := ext, cs_timestampDelta := d,
               cs_timestamp := cs_timestamp cs + d\<rparr>, r)))"

definition readFmt3 :: "ChunkStream \<Rightarrow> bytes \<Rightarrow> (ChunkStream \<times> bytes) result" where
  "readFmt3 cs r =
     (if cs_hasExtendedTS cs then
        bind_result (read_be32 r) (\<lambda>(extTS, r).
          Inr (if cs_bytesRead cs = 0 then cs\<lparr>cs_timestamp := extTS\<rparr> else cs, r))
      else
        Inr (if cs_bytesRead cs = 0
             then cs\<lparr>cs_timestamp := cs_timestamp cs + cs_timestampDelta cs\<rparr> else cs, r))"

definition readMessageHeader :: "byte \<Rightarrow> ChunkStream \<Rightarrow> bytes \<Rightarrow> (ChunkStream \<times> bytes) result" where
  "readMessageHeader fm cs r =
     (if fm = ChunkFmt0 then readFmt0 cs r
      else if fm = ChunkFmt1 then readFmt1 cs r
      else if fm = ChunkFmt2 then readFmt2 cs r
      else if fm = ChunkFmt3 then readFmt3 cs r
      else Inr (cs, r))"

definition read_basic_header :: "bytes \<Rightarrow> ((byte \<times> u32) \<times> bytes) result" where
  "read_basic_header r =
     bind_result (read_u8 r) (\<lambda>(basicHeader, r).
     let fm = drop_bit 6 basicHeader AND 0x03;
         csID = (ucast (basicHeader AND 0x3F) :: u32) in
     if csID = 0 then bind_result (read_u8 r) (\<lambda>(extID, r). Inr ((fm, ucast extID + 64), r))
     else if csID = 1 then bind_result (read_be16 r) (\<lambda>(extID, r). Inr ((fm, ucast extID + 64), r))
     else Inr ((fm, csID), r))"

definition ReadChunk :: "ChunkParser \<Rightarrow> bytes \<Rightarrow> (u32 \<times> ChunkParser \<times> bytes) result" where
  "ReadChunk p r =
     bind_result (read_basic_header r) (\<lambda>((fm, csID), r).
     let cs = (case gomap_get (cp_chunkStreams p) csID of
                 Some cs \<Rightarrow> cs | None \<Rightarrow> new_chunk_stream csID);
         currentChunkSize = cp_chunkSize p in
     bind_result (readMessageHeader fm cs r) (\<lambda>(cs, r).
     let payloadSize = (if cs_bytesRead cs + currentChunkSize > cs_messageLength cs
                        then cs_messageLength cs - cs_bytesRead cs else currentChunkSize) in
     bind_result (io_ReadFull (unat payloadSize) r) (\<lambda>(payload, r).
       let cs = cs\<lparr>cs_buffer := cs_buffer cs @ payload, cs_bytesRead := cs_bytesRead cs + payloadSize\<rparr>
       in Inr (csID, p\<lparr>cp_chunkStreams := gomap_set csID cs (cp_chunkStreams p)\<rparr>, r))))"

definition ChunkParser_GetBytesReadForChunk :: "u32 \<Rightarrow> ChunkParser \<Rightarrow> u32" where
  "ChunkParser_GetBytesReadForChunk csID p =
     (case gomap_get (cp_chunkStreams p) csID of None \<Rightarrow> 0 | Some cs \<Rightarrow> cs_bytesRead cs)"

record RtmpMessage =
  rm_Body :: bytes
  rm_Type :: byte
  rm_Timestamp :: u32
  rm_StreamID :: u32

definition GetCompleteMessage :: "u32 \<Rightarrow> ChunkParser \<Rightarrow> ChunkParser \<times> RtmpMessage option" where
  "GetCompleteMessage csID p =
     (case gomap_get (cp_chunkStreams p) csID of
        None \<Rightarrow> (p, None)
      | Some cs \<Rightarrow>
          if cs_bytesRead cs < cs_messageLength cs then (p, None)
          else
            (p\<lparr>cp_chunkStreams :=
                 gomap_set csID (cs\<lparr>cs_buffer := [], cs_bytesRead := 0\<rparr>) (cp_chunkStreams p)\<rparr>,
             Some \<lparr>rm_Body = cs_buffer cs, rm_Type = cs_messageType cs,
                   rm_Timestamp = cs_timestamp cs, rm_StreamID = cs_streamID cs\<rparr>))"

section \<open>Control messages\<close>

definition ParseSetChunkSize :: "bytes \<Rightarrow> u32 result" where
  "ParseSetChunkSize body =
     (if length body < 4 then Inl ErrUnexpectedEOF
      else
        (let sz = get_be32 (take 4 body)
         in if sz > MaxChunkSize then Inl ErrChunkTooLarge else Inr sz))"

definition CreateSetChunkSize :: "u32 \<Rightarrow> bytes" where
  "CreateSetChunkSize sz = put_be32 sz"

definition CreateWindowAckSize :: "u32 \<Rightarrow> bytes" where
  "CreateWindowAckSize sz = put_be32 sz"

definition CreateSetPeerBandwidth :: "u32 \<Rightarrow> byte \<Rightarrow> bytes" where
  "CreateSetPeerBandwidth sz limitType = put_be32 sz @ [limitType]"

definition CreateStreamBegin :: "u32 \<Rightarrow> bytes" where
  "CreateStreamBegin streamID = [0, 0] @ put_be32 streamID"

section \<open>The chunk writer\<close>

text \<open>The writes of one chunk, in order: basic header, message header, payload.\<close>

definition basic_header_writes :: "byte \<Rightarrow> u32 \<Rightarrow> bytes list" where
  "basic_header_writes fm csID =
     (let basicHeader = push_bit 6 fm in
      if csID < 64 then [[basicHeader OR ucast csID]]
      else if csID < 320 then [[basicHeader OR 0], [ucast (csID - 64)]]
      else [[basicHeader OR 1], put_be16 (ucast (csID - 64))])"

definition message_header_writes :: "byte \<Rightarrow> u32 \<Rightarrow> u32 \<Rightarrow> u32 \<Rightarrow> bytes list" where
  "message_header_writes msgType timestamp streamID bodyLen =
     (let ts = (if timestamp \<ge> 0xFFFFFF then 0xFFFFFF else timestamp)
      in [put_be24 ts @ put_be24 bodyLen @ [msgType] @ put_le32 streamID] @
         (if timestamp \<ge> 0xFFFFFF then [put_be32 timestamp] else []))"

definition chunk_writes :: "u32 \<Rightarrow> byte \<Rightarrow> u32 \<Rightarrow> u32 \<Rightarrow> bytes \<Rightarrow> u32 \<Rightarrow> u32 \<Rightarrow> bytes list \<times> u32" where
  "chunk_writes csID msgType timestamp streamID body chunkSize offset =
     (let bodyLen = of_nat (length body);
          fm = (if offset = 0 then ChunkFmt0 else ChunkFmt3);
          chunkLen = (if offset + chunkSize > bodyLen then bodyLen - offset else chunkSize)
      in (basic_header_writes fm csID @
          (if fm = ChunkFmt0 then message_header_writes msgType timestamp streamID bodyLen else []) @
          [take (unat chunkLen) (drop (unat offset) body)], chunkLen))"

text \<open>The loop over the body: \<open>None\<close> is a loop that never ends.\<close>

partial_function (option) WriteChunk_loop ::
    "u32 \<Rightarrow> byte \<Rightarrow> u32 \<Rightarrow> u32 \<Rightarrow> bytes \<Rightarrow> u32 \<Rightarrow> u32 \<Rightarrow> Conn \<Rightarrow> (Conn \<times> go_error option) option" where
  "WriteChunk_loop csID msgType timestamp streamID body chunkSize offset c =
     (if offset < of_nat (length body) then
        (case chunk_writes csID msgType timestamp streamID body chunkSize offset of
           (ws, chunkLen) \<Rightarrow>
             (case conn_writes ws c of
                (c', Some e) \<Rightarrow> Some (c', Some e)
              | (c', None) \<Rightarrow>
                  WriteChunk_loop csID msgType timestamp streamID body chunkSize (offset + chunkLen) c'))
      else Some (c, None))"

definition WriteChunk ::
    "u32 \<Rightarrow> byte \<Rightarrow> u32 \<Rightarrow> u32 \<Rightarrow> bytes \<Rightarrow> u32 \<Rightarrow> Conn \<Rightarrow> (Conn \<times> go_error option) option" where
  "WriteChunk csID msgType timestamp streamID body chunkSize c =
     WriteChunk_loop csID msgType timestamp streamID body chunkSize 0 c"

lemmas chunk_defs [wire] = readFmt0_def readFmt1_def readFmt2_def readFmt3_def readMessageHeader_def
  read_basic_header_def

section \<open>Bits\<close>

lemma take_bit_small: "(x::'a::len word) < 2 ^ k \<Longrightarrow> k < LENGTH('a) \<Longrightarrow> take_bit k x = x"
  by (simp add: word_less_nat_alt unat_exp word_unat_eq_iff unsigned_take_bit_eq take_bit_nat_eq_self)

lemma bit_small: "(x::'a::len word) < 2 ^ k \<Longrightarrow> k < LENGTH('a) \<Longrightarrow> bit x n \<Longrightarrow> n < k"
  using take_bit_small [of x k] by (metis bit_take_bit_iff)

lemma get_be24_small: "unat (get_be24 b) < 2 ^ 24"
proof -
  have "take_bit 24 (get_be24 b) = get_be24 b"
    by (rule bit_word_eqI) (auto simp: get_be24_def bit_simps dest: bit_imp_le_length)
  then have "unat (get_be24 b) = take_bit 24 (unat (get_be24 b))"
    by (metis unsigned_take_bit_eq)
  then show ?thesis by (metis take_bit_nat_less_exp)
qed

lemma basic_header_byte:
  fixes fm :: byte and csID :: u32
  assumes "fm < 4" "csID < 64"
  shows "drop_bit 6 (push_bit 6 fm OR ucast csID) AND 0x03 = fm"
    and "(ucast ((push_bit 6 fm OR ucast csID) AND 0x3F) :: u32) = csID"
proof -
  have fm: "n < 2" if "bit fm n" for n using bit_small [of fm 2 n] that assms(1) by simp
  have id: "n < 6" if "bit csID n" for n using bit_small [of csID 6 n] that assms(2) by simp
  have m: "(0x03::byte) = mask 2" "(0x3F::byte) = mask 6" by (simp_all add: mask_eq_exp_minus_1)
  show "drop_bit 6 (push_bit 6 fm OR ucast csID) AND 0x03 = fm"
    unfolding m by (rule bit_word_eqI) (use fm id in \<open>fastforce simp: bit_simps\<close>)
  show "(ucast ((push_bit 6 fm OR ucast csID) AND 0x3F) :: u32) = csID"
    unfolding m by (rule bit_word_eqI) (use fm id in \<open>fastforce simp: bit_simps\<close>)
qed

lemma ucast_csID8: "csID \<ge> 64 \<Longrightarrow> csID < 320 \<Longrightarrow> (ucast (ucast (csID - 64 :: u32) :: byte) + 64 :: u32) = csID"
proof -
  assume a: "csID \<ge> 64" "csID < 320"
  then have "unat (csID - 64) < 2 ^ 8" by (simp add: unat_sub word_le_nat_alt word_less_nat_alt)
  then have "ucast (ucast (csID - 64) :: byte) = csID - 64"
    by (simp add: word_unat_eq_iff unsigned_ucast_eq unsigned_take_bit_eq take_bit_nat_eq_self)
  then show ?thesis by simp
qed

lemma ucast_csID16: "csID \<ge> 64 \<Longrightarrow> csID < 65600 \<Longrightarrow> (ucast (ucast (csID - 64 :: u32) :: u16) + 64 :: u32) = csID"
proof -
  assume a: "csID \<ge> 64" "csID < 65600"
  then have "unat (csID - 64) < 2 ^ 16" by (simp add: unat_sub word_le_nat_alt word_less_nat_alt)
  then have "ucast (ucast (csID - 64) :: u16) = csID - 64"
    by (simp add: word_unat_eq_iff unsigned_ucast_eq unsigned_take_bit_eq take_bit_nat_eq_self)
  then show ?thesis by simp
qed

definition csID_ok :: "u32 \<Rightarrow> bool" where
  "csID_ok csID \<longleftrightarrow> 2 \<le> csID \<and> csID < 65600"

lemma read_basic_header_writes:
  assumes "fm < 4" "csID_ok csID"
  shows "read_basic_header (concat (basic_header_writes fm csID) @ r) = Inr ((fm, csID), r)"
proof -
  have "(64::u32) \<le> csID" if "\<not> csID < 64" using that by simp
  moreover have "csID \<noteq> 0" "csID \<noteq> 1" using assms(2) by (auto simp: csID_ok_def word_le_nat_alt)
  ultimately show ?thesis
    using assms basic_header_byte [of fm csID] basic_header_byte [of fm 0] basic_header_byte [of fm 1]
    by (auto simp: read_basic_header_def basic_header_writes_def Let_def ucast_csID8 ucast_csID16 csID_ok_def)
qed

section \<open>The parser invariant\<close>

definition cs_ok :: "ChunkStream \<Rightarrow> bool" where
  "cs_ok cs \<longleftrightarrow> unat (cs_messageLength cs) < 2 ^ 24 \<and> cs_bytesRead cs \<le> cs_messageLength cs \<and>
     length (cs_buffer cs) = unat (cs_bytesRead cs)"

definition parser_inv :: "ChunkParser \<Rightarrow> bool" where
  "parser_inv p \<longleftrightarrow> cp_chunkSize p \<le> MaxChunkSize \<and>
     (\<forall>i cs. gomap_get (cp_chunkStreams p) i = Some cs \<longrightarrow> cs_ok cs)"

lemma cs_ok_new: "cs_ok (new_chunk_stream i)"
  by (simp add: cs_ok_def new_chunk_stream_def)

lemma parser_inv_new: "parser_inv NewChunkParser"
  by (simp add: parser_inv_def NewChunkParser_def)

lemma cs_ok_header: "cs_ok cs \<Longrightarrow> readMessageHeader fm cs r = Inr (cs', r') \<Longrightarrow> cs_ok cs'"
  using get_be24_small
  by (auto simp: chunk_defs bind_result_Inr_iff Let_def cs_ok_def split: if_splits)

lemma header_length: "readMessageHeader fm cs r = Inr (cs', r') \<Longrightarrow> length r' \<le> length r"
  by (auto simp: chunk_defs bind_result_Inr_iff Let_def split: if_splits dest!: io_ReadFull_length read_length)

lemma basic_header_length: "read_basic_header r = Inr (x, r') \<Longrightarrow> length r' < length r"
  by (auto simp: read_basic_header_def bind_result_Inr_iff Let_def split: if_splits dest!: read_length)

lemma ReadChunk_length: "ReadChunk p r = Inr (csID, p', r') \<Longrightarrow> length r' < length r"
  by (auto simp: ReadChunk_def bind_result_Inr_iff Let_def
      dest!: basic_header_length header_length io_ReadFull_length)

text \<open>The payload of one chunk: at most what is missing, and no wrap-around in the sum.\<close>

lemma payload_size:
  assumes "cs_ok cs" "sz \<le> MaxChunkSize"
  defines "n \<equiv> (if cs_bytesRead cs + sz > cs_messageLength cs then cs_messageLength cs - cs_bytesRead cs else sz)"
  shows "unat n = min (unat sz) (unat (cs_messageLength cs) - unat (cs_bytesRead cs))"
    and "unat (cs_bytesRead cs + n) = unat (cs_bytesRead cs) + unat n"
    and "cs_bytesRead cs + n \<le> cs_messageLength cs"
proof -
  have b: "unat (cs_bytesRead cs) \<le> unat (cs_messageLength cs)" "unat (cs_messageLength cs) < 2 ^ 24"
    "unat sz < 2 ^ 24" "cs_bytesRead cs \<le> cs_messageLength cs"
    using assms(1,2) by (auto simp: cs_ok_def word_le_nat_alt)
  then have sum: "unat (cs_bytesRead cs + sz) = unat (cs_bytesRead cs) + unat sz"
    by (simp add: unat_word_ariths)
  show n: "unat n = min (unat sz) (unat (cs_messageLength cs) - unat (cs_bytesRead cs))"
    using b by (auto simp: n_def word_less_nat_alt sum unat_sub)
  show s: "unat (cs_bytesRead cs + n) = unat (cs_bytesRead cs) + unat n"
    using b n by (simp add: unat_word_ariths)
  show "cs_bytesRead cs + n \<le> cs_messageLength cs"
    using b n s by (simp add: word_le_nat_alt)
qed

text \<open>The stream a chunk belongs to, its header, and the payload that was appended.\<close>

definition chunk_stream_of :: "ChunkParser \<Rightarrow> u32 \<Rightarrow> ChunkStream" where
  "chunk_stream_of p csID =
     (case gomap_get (cp_chunkStreams p) csID of Some cs \<Rightarrow> cs | None \<Rightarrow> new_chunk_stream csID)"

lemma chunk_stream_of_ok: "parser_inv p \<Longrightarrow> cs_ok (chunk_stream_of p csID)"
  by (auto simp: chunk_stream_of_def parser_inv_def cs_ok_new split: option.splits)

lemma ReadChunkE:
  assumes inv: "parser_inv p" and rd: "ReadChunk p r = Inr (csID, p', r')"
  obtains fm r1 cs r2 payload n where
    "readMessageHeader fm (chunk_stream_of p csID) r1 = Inr (cs, r2)" "cs_ok cs" "r2 = payload @ r'"
    "length payload = min (unat (cp_chunkSize p)) (unat (cs_messageLength cs) - unat (cs_bytesRead cs))"
    "unat n = length payload"
    "p' = p\<lparr>cp_chunkStreams := gomap_set csID (cs\<lparr>cs_buffer := cs_buffer cs @ payload,
       cs_bytesRead := cs_bytesRead cs + n\<rparr>) (cp_chunkStreams p)\<rparr>"
    "cs_ok (cs\<lparr>cs_buffer := cs_buffer cs @ payload, cs_bytesRead := cs_bytesRead cs + n\<rparr>)"
proof -
  let ?n = "\<lambda>cs. if cs_bytesRead cs + cp_chunkSize p > cs_messageLength cs
            then cs_messageLength cs - cs_bytesRead cs else cp_chunkSize p"
  from rd obtain fm r1 cs r2 payload where
    h: "readMessageHeader fm (chunk_stream_of p csID) r1 = Inr (cs, r2)" and
    pl: "io_ReadFull (unat (?n cs)) r2 = Inr (payload, r')" and
    p': "p' = p\<lparr>cp_chunkStreams := gomap_set csID (cs\<lparr>cs_buffer := cs_buffer cs @ payload,
       cs_bytesRead := cs_bytesRead cs + ?n cs\<rparr>) (cp_chunkStreams p)\<rparr>"
    by (fastforce simp: ReadChunk_def bind_result_Inr_iff Let_def chunk_stream_of_def)
  have cs: "cs_ok cs" using cs_ok_header [OF chunk_stream_of_ok [OF inv] h] .
  have mx: "cp_chunkSize p \<le> MaxChunkSize" using inv by (simp add: parser_inv_def)
  note ps = payload_size [OF cs mx] and ex = io_ReadFull_exact [OF pl]
  show ?thesis
    by (rule that [OF h cs _ _ _ p']) (use ex ps cs in \<open>auto simp: cs_ok_def\<close>)
qed

lemma parser_inv_ReadChunk:
  assumes inv: "parser_inv p" and rd: "ReadChunk p r = Inr (csID, p', r')"
  shows "parser_inv p'"
  by (rule ReadChunkE [OF assms]) (use inv in \<open>auto simp: parser_inv_def\<close>)

lemma parser_inv_GetCompleteMessage: "parser_inv p \<Longrightarrow> parser_inv (fst (GetCompleteMessage csID p))"
  by (auto simp: GetCompleteMessage_def parser_inv_def cs_ok_def split: option.splits if_splits)

lemma parser_inv_SetChunkSize:
  "parser_inv p \<Longrightarrow> ParseSetChunkSize body = Inr sz \<Longrightarrow> parser_inv (ChunkParser_SetChunkSize sz p)"
  by (auto simp: ParseSetChunkSize_def parser_inv_def ChunkParser_SetChunkSize_def Let_def split: if_splits)

section \<open>Reading a whole message\<close>

text \<open>
  Chunks are read until one completes a message, as the session loops of the server and of
  the relay do; every chunk takes at least a byte of the input, so this ends.
\<close>

function read_message :: "ChunkParser \<Rightarrow> bytes \<Rightarrow> (u32 \<times> RtmpMessage \<times> ChunkParser \<times> bytes) result" where
  "read_message p r =
     (case ReadChunk p r of
        Inl e \<Rightarrow> Inl e
      | Inr (csID, p', r') \<Rightarrow>
          (case GetCompleteMessage csID p' of
             (p'', Some m) \<Rightarrow> Inr (csID, m, p'', r')
           | (p'', None) \<Rightarrow> read_message p'' r'))"
  by pat_completeness auto
termination
  by (relation "measure (length \<circ> snd)") (auto dest: ReadChunk_length)

declare read_message.simps [simp del]

section \<open>What the writer puts on the wire\<close>

definition conn_open :: "Conn \<Rightarrow> bool" where
  "conn_open c \<longleftrightarrow> \<not> cn_closed c \<and> cn_budget c = None"

lemma conn_writes_open:
  "conn_open c \<Longrightarrow> conn_writes ws c = (c\<lparr>cn_out := cn_out c @ concat ws\<rparr>, None)"
proof (induction ws arbitrary: c)
  case (Cons w ws)
  have "conn_Write w c = (c\<lparr>cn_out := cn_out c @ w\<rparr>, None)"
    using Cons.prems by (simp add: conn_Write_def conn_open_def)
  moreover have "conn_open (c\<lparr>cn_out := cn_out c @ w\<rparr>)" using Cons.prems by (simp add: conn_open_def)
  ultimately show ?case using Cons.IH by simp
qed simp

definition chunk_bytes :: "u32 \<Rightarrow> RtmpMessage \<Rightarrow> nat \<Rightarrow> nat \<Rightarrow> bytes" where
  "chunk_bytes csID m sz off =
     (let n = min sz (length (rm_Body m) - off)
      in concat (basic_header_writes (if off = 0 then ChunkFmt0 else ChunkFmt3) csID) @
         (if off = 0 then concat (message_header_writes (rm_Type m) (rm_Timestamp m) (rm_StreamID m)
                                    (of_nat (length (rm_Body m)))) else []) @
         take n (drop off (rm_Body m)))"

function chunk_tail :: "u32 \<Rightarrow> RtmpMessage \<Rightarrow> nat \<Rightarrow> nat \<Rightarrow> bytes" where
  "chunk_tail csID m sz off =
     (if off < length (rm_Body m) \<and> 0 < sz
      then chunk_bytes csID m sz off @ chunk_tail csID m sz (off + sz) else [])"
  by pat_completeness auto
termination
  by (relation "measure (\<lambda>(csID, m, sz, off). length (rm_Body m) - off)") auto

declare chunk_tail.simps [simp del]

lemma chunk_writes_at:
  assumes "length (rm_Body m) < 2 ^ 24" "off < length (rm_Body m)" "0 < unat sz" "sz \<le> MaxChunkSize"
  shows "\<exists>n. chunk_writes csID (rm_Type m) (rm_Timestamp m) (rm_StreamID m) (rm_Body m) sz (of_nat off) =
      (fst (chunk_writes csID (rm_Type m) (rm_Timestamp m) (rm_StreamID m) (rm_Body m) sz (of_nat off)), n) \<and>
    unat n = min (unat sz) (length (rm_Body m) - off) \<and>
    concat (fst (chunk_writes csID (rm_Type m) (rm_Timestamp m) (rm_StreamID m) (rm_Body m) sz (of_nat off))) =
      chunk_bytes csID m (unat sz) off"
proof -
  let ?len = "length (rm_Body m)" and ?off = "of_nat off :: u32"
  define n where "n = (if ?off + sz > of_nat ?len then of_nat ?len - ?off else sz)"
  have u: "unat ?off = off" "unat (of_nat ?len :: u32) = ?len" "unat sz < 2 ^ 24"
    using assms by (auto simp: unat_of_nat word_le_nat_alt)
  then have s: "unat (?off + sz) = off + unat sz" using assms(1,2) by (simp add: unat_word_ariths)
  have n: "unat n = min (unat sz) (?len - off)"
    using u s assms(2) by (auto simp: n_def word_less_nat_alt unat_sub word_le_nat_alt)
  have "?off = 0 \<longleftrightarrow> off = 0" using u(1) by auto
  then show ?thesis using u(1) n
    by (auto simp: chunk_writes_def Let_def n_def [symmetric] chunk_bytes_def)
qed

text \<open>With a positive chunk size the writer returns, whatever the connection does.\<close>

lemma WriteChunk_loop_returns:
  fixes m :: RtmpMessage
  assumes "length (rm_Body m) < 2 ^ 24" "0 < unat sz" "sz \<le> MaxChunkSize" "off \<le> length (rm_Body m)"
  shows "\<exists>x. WriteChunk_loop csID (rm_Type m) (rm_Timestamp m) (rm_StreamID m) (rm_Body m) sz (of_nat off) c = Some x"
  using assms(4)
proof (induction "length (rm_Body m) - off" arbitrary: off c rule: less_induct)
  case less
  let ?len = "length (rm_Body m)"
  show ?case
  proof (cases "off < ?len")
    case False
    then show ?thesis using less.prems by (subst WriteChunk_loop.simps) simp
  next
    case True
    obtain ws n where n: "chunk_writes csID (rm_Type m) (rm_Timestamp m) (rm_StreamID m) (rm_Body m) sz (of_nat off) = (ws, n)"
      "unat n = min (unat sz) (?len - off)"
      using chunk_writes_at [OF assms(1) True assms(2,3)] by blast
    have off': "(of_nat off :: u32) + n = of_nat (off + unat n)" by simp
    have "\<exists>x. WriteChunk_loop csID (rm_Type m) (rm_Timestamp m) (rm_StreamID m) (rm_Body m) sz (of_nat (off + unat n)) c' = Some x" for c'
      by (rule less.hyps) (use n(2) assms(2) True in auto)
    then show ?thesis
      by (subst WriteChunk_loop.simps) (auto simp: n(1) off' simp del: of_nat_add split: prod.splits option.splits)
  qed
qed

lemma WriteChunk_loop_open:
  assumes "length (rm_Body m) < 2 ^ 24" "0 < unat sz" "sz \<le> MaxChunkSize" "off \<le> length (rm_Body m)" "conn_open c"
  shows "WriteChunk_loop csID (rm_Type m) (rm_Timestamp m) (rm_StreamID m) (rm_Body m) sz (of_nat off) c =
    Some (c\<lparr>cn_out := cn_out c @ chunk_tail csID m (unat sz) off\<rparr>, None)"
  using assms(4,5)
proof (induction "length (rm_Body m) - off" arbitrary: off c rule: less_induct)
  case less
  let ?len = "length (rm_Body m)"
  have u: "(of_nat off :: u32) < of_nat ?len \<longleftrightarrow> off < ?len"
    using assms(1) less.prems(1) by (simp add: word_less_nat_alt unat_of_nat)
  show ?case
  proof (cases "off < ?len")
    case False
    then show ?thesis using u by (subst WriteChunk_loop.simps) (simp add: chunk_tail.simps)
  next
    case True
    obtain n where n: "chunk_writes csID (rm_Type m) (rm_Timestamp m) (rm_StreamID m) (rm_Body m) sz (of_nat off) =
        (fst (chunk_writes csID (rm_Type m) (rm_Timestamp m) (rm_StreamID m) (rm_Body m) sz (of_nat off)), n)"
      "unat n = min (unat sz) (?len - off)"
      "concat (fst (chunk_writes csID (rm_Type m) (rm_Timestamp m) (rm_StreamID m) (rm_Body m) sz (of_nat off))) =
        chunk_bytes csID m (unat sz) off"
      using chunk_writes_at [OF assms(1) True assms(2,3)] by blast
    let ?c = "c\<lparr>cn_out := cn_out c @ chunk_bytes csID m (unat sz) off\<rparr>"
    have off': "(of_nat off :: u32) + n = of_nat (off + unat n)" by simp
    have "WriteChunk_loop csID (rm_Type m) (rm_Timestamp m) (rm_StreamID m) (rm_Body m) sz (of_nat (off + unat n)) ?c =
        Some (?c\<lparr>cn_out := cn_out ?c @ chunk_tail csID m (unat sz) (off + unat n)\<rparr>, None)"
      by (rule less.hyps) (use n(2) assms(2) True less.prems(2) in \<open>auto simp: conn_open_def\<close>)
    moreover have "chunk_tail csID m (unat sz) (off + unat n) = chunk_tail csID m (unat sz) (off + unat sz)"
      using n(2) by (cases "unat sz \<le> ?len - off") (auto simp: chunk_tail.simps)
    moreover have "chunk_tail csID m (unat sz) off = chunk_bytes csID m (unat sz) off @ chunk_tail csID m (unat sz) (off + unat sz)"
      using True assms(2) by (subst chunk_tail.simps) simp
    ultimately show ?thesis
      using True u by (subst WriteChunk_loop.simps, subst n(1))
        (simp add: conn_writes_open [OF less.prems(2)] n(3) off' del: of_nat_add)
  qed
qed

section \<open>The parser reads what the writer wrote\<close>

text \<open>The state of a chunk stream in the middle of message \<open>m\<close>, \<open>off\<close> bytes in.\<close>

definition cs_mid :: "RtmpMessage \<Rightarrow> nat \<Rightarrow> ChunkStream \<Rightarrow> bool" where
  "cs_mid m off cs \<longleftrightarrow>
     cs_messageType cs = rm_Type m \<and> cs_messageLength cs = of_nat (length (rm_Body m)) \<and>
     cs_timestamp cs = rm_Timestamp m \<and> cs_streamID cs = rm_StreamID m \<and>
     cs_buffer cs = take off (rm_Body m) \<and> cs_bytesRead cs = of_nat off \<and>
     (cs_hasExtendedTS cs \<longleftrightarrow> rm_Timestamp m \<ge> 0xFFFFFF)"

definition msg_wire_ok :: "u32 \<Rightarrow> RtmpMessage \<Rightarrow> bool" where
  "msg_wire_ok csID m \<longleftrightarrow> csID_ok csID \<and> rm_Body m \<noteq> [] \<and> length (rm_Body m) < 2 ^ 24"

lemma readFmt0_header:
  assumes "length (rm_Body m) < 2 ^ 24"
  shows "\<exists>cs'. readFmt0 cs (concat (message_header_writes (rm_Type m) (rm_Timestamp m) (rm_StreamID m)
      (of_nat (length (rm_Body m)))) @ r) = Inr (cs', r) \<and> cs_mid m 0 cs'"
proof -
  let ?len = "of_nat (length (rm_Body m)) :: u32" and ?ts = "rm_Timestamp m"
  have len: "?len < 2 ^ 24" using assms by (simp add: word_less_nat_alt unat_of_nat)
  have big: "get_be24 (put_be24 (0xFFFFFF :: u32)) = 0xFFFFFF" by (rule get_put_be24_id) simp
  have small: "get_be24 (put_be24 ?ts) = ?ts" "?ts \<noteq> 0xFFFFFF" if "\<not> ?ts \<ge> 0xFFFFFF"
    using that by (auto intro!: get_put_be24_id simp: word_less_nat_alt word_le_nat_alt)
  have rd: "io_ReadFull 3 (put_be24 x @ q) = Inr (put_be24 x, q)" for x q by simp
  have hd: "io_ReadFull 8 (put_be24 x @ t # put_le32 y @ q) = Inr (put_be24 x @ t # put_le32 y, q)" for x t y q
    using io_ReadFull_append [of "put_be24 x @ t # put_le32 y" 8 q] by simp
  have fields: "take 3 (put_be24 x @ t # put_le32 y) = put_be24 x" "(put_be24 x @ t # put_le32 y) ! 3 = t"
    "drop 4 (put_be24 x @ t # put_le32 y) = put_le32 y" for x t y
    by (simp_all add: put_be24_def)
  show ?thesis
  proof (cases "?ts \<ge> 0xFFFFFF")
    case True
    then show ?thesis
      by (simp add: readFmt0_def message_header_writes_def Let_def rd hd fields big get_put_be24_id [OF len] cs_mid_def)
  next
    case False
    then show ?thesis using small
      by (simp add: readFmt0_def message_header_writes_def Let_def rd hd fields get_put_be24_id [OF len] cs_mid_def)
  qed
qed

text \<open>The header of a chunk: in full on the first one, nothing on the others.\<close>

lemma readMessageHeader_chunk:
  assumes "length (rm_Body m) < 2 ^ 24" "off < length (rm_Body m)"
    and "off = 0 \<or> cs_mid m off cs0 \<and> \<not> rm_Timestamp m \<ge> 0xFFFFFF"
  defines "hdr \<equiv> if off = 0 then concat (message_header_writes (rm_Type m) (rm_Timestamp m) (rm_StreamID m) (of_nat (length (rm_Body m)))) else []"
  shows "\<exists>cs1. readMessageHeader (if off = 0 then ChunkFmt0 else ChunkFmt3) cs0 (hdr @ r) = Inr (cs1, r) \<and> cs_mid m off cs1"
proof (cases "off = 0")
  case True
  with readFmt0_header [OF assms(1), of cs0 r] show ?thesis by (auto simp: readMessageHeader_def hdr_def)
next
  case False
  with assms(3) have "cs_mid m off cs0" "\<not> cs_hasExtendedTS cs0" by (auto simp: cs_mid_def)
  moreover have "(of_nat off :: u32) \<noteq> 0"
    using False assms(1,2) by (simp add: word_unat_eq_iff unat_of_nat)
  ultimately show ?thesis using False by (auto simp: readMessageHeader_def readFmt3_def cs_mid_def hdr_def)
qed

text \<open>
  One chunk of the writer, read by the parser. Only the first chunk may carry an extended
  timestamp: on the others the writer leaves it out and the parser expects it.
\<close>

lemma ReadChunk_chunk:
  assumes ok: "msg_wire_ok csID m" and inv: "parser_inv p" and sz: "0 < unat (cp_chunkSize p)"
    and off: "off < length (rm_Body m)"
    and mid: "off = 0 \<or> (\<exists>cs. gomap_get (cp_chunkStreams p) csID = Some cs \<and> cs_mid m off cs) \<and> \<not> rm_Timestamp m \<ge> 0xFFFFFF"
  defines "n \<equiv> min (unat (cp_chunkSize p)) (length (rm_Body m) - off)"
  shows "\<exists>cs'. ReadChunk p (chunk_bytes csID m (unat (cp_chunkSize p)) off @ r) =
    Inr (csID, p\<lparr>cp_chunkStreams := gomap_set csID cs' (cp_chunkStreams p)\<rparr>, r) \<and> cs_mid m (off + n) cs'"
proof -
  let ?len = "length (rm_Body m)" and ?fm = "if off = 0 then ChunkFmt0 else ChunkFmt3"
  define cs0 where "cs0 = (case gomap_get (cp_chunkStreams p) csID of Some cs \<Rightarrow> cs | None \<Rightarrow> new_chunk_stream csID)"
  let ?hdr = "if off = 0 then concat (message_header_writes (rm_Type m) (rm_Timestamp m) (rm_StreamID m)
                                    (of_nat ?len)) else []"
  let ?pl = "take n (drop off (rm_Body m))"
  have len: "?len < 2 ^ 24" and ids: "csID_ok csID" using ok by (auto simp: msg_wire_ok_def)
  have wire: "chunk_bytes csID m (unat (cp_chunkSize p)) off @ r = concat (basic_header_writes ?fm csID) @ ?hdr @ ?pl @ r"
    by (simp add: chunk_bytes_def n_def Let_def)
  have basic: "read_basic_header (concat (basic_header_writes ?fm csID) @ q) = Inr ((?fm, csID), q)" for q
    using ids by (intro read_basic_header_writes) auto
  have "off = 0 \<or> cs_mid m off cs0 \<and> \<not> rm_Timestamp m \<ge> 0xFFFFFF" using mid by (auto simp: cs0_def)
  from readMessageHeader_chunk [OF len off this, of "?pl @ r"] obtain cs1 where
    hdr: "readMessageHeader ?fm cs0 (?hdr @ ?pl @ r) = Inr (cs1, ?pl @ r)" and cs1: "cs_mid m off cs1" by blast
  have ok1: "cs_ok cs1" and u: "unat (cs_bytesRead cs1) = off" "unat (cs_messageLength cs1) = ?len"
    using cs1 len off by (auto simp: cs_ok_def cs_mid_def unat_of_nat word_le_nat_alt)
  let ?n = "if cs_bytesRead cs1 + cp_chunkSize p > cs_messageLength cs1
            then cs_messageLength cs1 - cs_bytesRead cs1 else cp_chunkSize p"
  have mx: "cp_chunkSize p \<le> MaxChunkSize" using inv by (simp add: parser_inv_def)
  have un: "unat ?n = n" using payload_size(1) [OF ok1 mx] by (simp add: u n_def)
  have nw: "?n = of_nat n" unfolding un [symmetric] by simp
  have pl: "io_ReadFull (unat ?n) (?pl @ r) = Inr (?pl, r)"
    unfolding un by (rule io_ReadFull_append) (simp add: n_def)
  let ?cs = "cs1\<lparr>cs_buffer := cs_buffer cs1 @ ?pl, cs_bytesRead := cs_bytesRead cs1 + ?n\<rparr>"
  have "cs_mid m (off + n) ?cs"
    using cs1 unfolding nw by (simp add: cs_mid_def take_add)
  moreover have "ReadChunk p (chunk_bytes csID m (unat (cp_chunkSize p)) off @ r) =
    Inr (csID, p\<lparr>cp_chunkStreams := gomap_set csID ?cs (cp_chunkStreams p)\<rparr>, r)"
    unfolding wire ReadChunk_def basic bind_result_simps prod.case Let_def cs0_def [symmetric] hdr pl by (rule refl)
  ultimately show ?thesis by blast
qed

text \<open>A parser that took a message: its chunk size and its other chunk streams are as before.\<close>

definition parser_after :: "u32 \<Rightarrow> ChunkParser \<Rightarrow> ChunkParser \<Rightarrow> bool" where
  "parser_after csID p p' \<longleftrightarrow> parser_inv p' \<and> cp_chunkSize p' = cp_chunkSize p \<and>
     (\<forall>i. i \<noteq> csID \<longrightarrow> gomap_get (cp_chunkStreams p') i = gomap_get (cp_chunkStreams p) i)"

lemma read_message_tail:
  assumes ok: "msg_wire_ok csID m" and "parser_inv p" "0 < unat (cp_chunkSize p)" "off < length (rm_Body m)"
    and "off = 0 \<or> (\<exists>cs. gomap_get (cp_chunkStreams p) csID = Some cs \<and> cs_mid m off cs) \<and> \<not> rm_Timestamp m \<ge> 0xFFFFFF"
    and "rm_Timestamp m < 0xFFFFFF \<or> length (rm_Body m) \<le> unat (cp_chunkSize p)"
  shows "\<exists>p'. read_message p (chunk_tail csID m (unat (cp_chunkSize p)) off @ r) = Inr (csID, m, p', r) \<and>
    parser_after csID p p'"
  using assms(2-)
proof (induction "length (rm_Body m) - off" arbitrary: off p rule: less_induct)
  case less
  let ?len = "length (rm_Body m)" and ?sz = "unat (cp_chunkSize p)"
  define n where "n = min ?sz (?len - off)"
  let ?rest = "chunk_tail csID m ?sz (off + ?sz)"
  have len: "?len < 2 ^ 24" using ok by (simp add: msg_wire_ok_def)
  have tail: "chunk_tail csID m ?sz off @ r = chunk_bytes csID m ?sz off @ ?rest @ r"
    using less.prems(2,3) by (subst chunk_tail.simps) simp
  obtain cs' where rd: "ReadChunk p (chunk_tail csID m ?sz off @ r) =
      Inr (csID, p\<lparr>cp_chunkStreams := gomap_set csID cs' (cp_chunkStreams p)\<rparr>, ?rest @ r)" and
    mid: "cs_mid m (off + n) cs'"
    using ReadChunk_chunk [OF ok less.prems(1-4)] unfolding tail n_def by blast
  let ?p = "p\<lparr>cp_chunkStreams := gomap_set csID cs' (cp_chunkStreams p)\<rparr>"
  have inv: "parser_inv ?p" using parser_inv_ReadChunk [OF less.prems(1) rd] .
  have "off + n \<le> ?len" using less.prems(3) by (simp add: n_def)
  moreover have "cs_bytesRead cs' = of_nat (off + n)" "cs_messageLength cs' = of_nat ?len"
    using mid by (simp_all only: cs_mid_def)
  ultimately have u: "unat (cs_bytesRead cs') = off + n" "unat (cs_messageLength cs') = ?len"
    using len by (simp_all add: unat_of_nat del: of_nat_add)
  show ?case
  proof (cases "off + n = ?len")
    case True
    then have "GetCompleteMessage csID ?p =
      (?p\<lparr>cp_chunkStreams := gomap_set csID (cs'\<lparr>cs_buffer := [], cs_bytesRead := 0\<rparr>) (cp_chunkStreams ?p)\<rparr>, Some m)"
      using mid u by (cases m) (auto simp: GetCompleteMessage_def word_less_nat_alt cs_mid_def)
    moreover have "?rest = []" using True n_def by (subst chunk_tail.simps) auto
    ultimately show ?thesis
      using rd inv parser_inv_GetCompleteMessage [OF inv, of csID]
      by (subst read_message.simps) (auto simp: parser_after_def)
  next
    case False
    then have n: "n = ?sz" "off + n < ?len" using less.prems(3) by (auto simp: n_def)
    then have "GetCompleteMessage csID ?p = (?p, None)"
      using u by (simp add: GetCompleteMessage_def word_less_nat_alt)
    then have "read_message p (chunk_tail csID m ?sz off @ r) = read_message ?p (chunk_tail csID m (unat (cp_chunkSize ?p)) (off + n) @ r)"
      using rd n(1) by (subst read_message.simps) simp
    moreover have "\<not> rm_Timestamp m \<ge> 0xFFFFFF" using less.prems(5) n less.prems(2) by auto
    then have "\<exists>p'. read_message ?p (chunk_tail csID m (unat (cp_chunkSize ?p)) (off + n) @ r) = Inr (csID, m, p', r) \<and>
        parser_after csID ?p p'"
      using n less.prems mid inv by (intro less.hyps) auto
    ultimately show ?thesis by (auto simp: parser_after_def)
  qed
qed

lemma WriteChunk_open:
  assumes "msg_wire_ok csID m" "0 < unat sz" "sz \<le> MaxChunkSize" "conn_open c"
  shows "WriteChunk csID (rm_Type m) (rm_Timestamp m) (rm_StreamID m) (rm_Body m) sz c =
    Some (c\<lparr>cn_out := cn_out c @ chunk_tail csID m (unat sz) 0\<rparr>, None)"
  using WriteChunk_loop_open [of m sz 0 c csID] assms by (simp add: WriteChunk_def msg_wire_ok_def)

lemma WriteChunk_returns:
  assumes "length body < 2 ^ 24" "0 < unat sz" "sz \<le> MaxChunkSize"
  shows "\<exists>x. WriteChunk csID mt ts sid body sz c = Some x"
  using WriteChunk_loop_returns [of "\<lparr>rm_Body = body, rm_Type = mt, rm_Timestamp = ts, rm_StreamID = sid\<rparr>" sz 0 csID c] assms
  by (simp add: WriteChunk_def)

fun write_messages :: "u32 \<Rightarrow> (u32 \<times> RtmpMessage) list \<Rightarrow> Conn \<Rightarrow> (Conn \<times> go_error option) option" where
  "write_messages sz [] c = Some (c, None)"
| "write_messages sz ((csID, m) # ms) c =
     (case WriteChunk csID (rm_Type m) (rm_Timestamp m) (rm_StreamID m) (rm_Body m) sz c of
        None \<Rightarrow> None
      | Some (c', Some e) \<Rightarrow> Some (c', Some e)
      | Some (c', None) \<Rightarrow> write_messages sz ms c')"

fun read_messages :: "nat \<Rightarrow> ChunkParser \<Rightarrow> bytes \<Rightarrow> ((u32 \<times> RtmpMessage) list \<times> bytes) result" where
  "read_messages 0 p r = Inr ([], r)"
| "read_messages (Suc n) p r =
     bind_result (read_message p r) (\<lambda>(csID, m, p', r').
     bind_result (read_messages n p' r') (\<lambda>(ms, r''). Inr ((csID, m) # ms, r'')))"

section \<open>Reachable parsers\<close>

text \<open>What a session does with its parser, on any input: \<open>idle\<close> between two chunks.\<close>

inductive parser_step :: "ChunkParser \<Rightarrow> ChunkParser \<Rightarrow> bool" where
  parser_chunk: "ReadChunk p r = Inr (csID, p', r') \<Longrightarrow> parser_step p (fst (GetCompleteMessage csID p'))"
| parser_size: "ParseSetChunkSize body = Inr sz \<Longrightarrow> parser_step p (ChunkParser_SetChunkSize sz p)"

definition parser_idle :: "ChunkParser \<Rightarrow> bool" where
  "parser_idle p \<longleftrightarrow> parser_inv p \<and>
     (\<forall>i cs. gomap_get (cp_chunkStreams p) i = Some cs \<longrightarrow> cs_bytesRead cs < cs_messageLength cs \<or> cs_bytesRead cs = 0)"

lemma ReadChunk_others:
  assumes "ReadChunk p r = Inr (csID, p', r')"
  shows "cp_chunkSize p' = cp_chunkSize p" "\<exists>cs. gomap_get (cp_chunkStreams p') csID = Some cs"
    "\<And>i. i \<noteq> csID \<Longrightarrow> gomap_get (cp_chunkStreams p') i = gomap_get (cp_chunkStreams p) i"
  using assms by (auto simp: ReadChunk_def bind_result_Inr_iff Let_def)

interpretation prun: inductive_invariant "\<lambda>p. p = NewChunkParser" parser_step parser_idle
proof
  fix p assume "p = NewChunkParser"
  then show "parser_idle p" by (simp add: parser_idle_def parser_inv_new) (simp add: NewChunkParser_def)
next
  fix p q assume idle: "parser_idle p" and "parser_step p q"
  from this(2) show "parser_idle q"
  proof cases
    case (parser_chunk r csID p' r')
    have "parser_inv p'" using idle parser_chunk(2) by (auto simp: parser_idle_def intro: parser_inv_ReadChunk)
    then have "parser_inv q" using parser_chunk(1) by (simp add: parser_inv_GetCompleteMessage)
    moreover have "cs_bytesRead cs < cs_messageLength cs \<or> cs_bytesRead cs = 0"
      if g: "gomap_get (cp_chunkStreams q) i = Some cs" for i cs
    proof (cases "i = csID")
      case True
      then show ?thesis using ReadChunk_others(2) [OF parser_chunk(2)] g parser_chunk(1)
        by (auto simp: GetCompleteMessage_def split: if_splits)
    next
      case False
      then have "gomap_get (cp_chunkStreams q) i = gomap_get (cp_chunkStreams p) i"
        using ReadChunk_others(3) [OF parser_chunk(2)] parser_chunk(1)
        by (auto simp: GetCompleteMessage_def split: option.splits if_splits)
      with g idle show ?thesis by (auto simp: parser_idle_def)
    qed
    ultimately show ?thesis by (simp add: parser_idle_def)
  next
    case (parser_size body sz)
    then show ?thesis using idle
      by (auto simp: parser_idle_def parser_inv_SetChunkSize) (auto simp: ChunkParser_SetChunkSize_def)
  qed
qed

lemma ReadChunk_size_0:
  assumes "parser_idle p" "cp_chunkSize p = 0" "ReadChunk p r = Inr (csID, p', r')"
    and "gomap_get (cp_chunkStreams p') csID = Some cs"
  shows "cs_bytesRead cs < cs_messageLength cs \<or> cs_buffer cs = []"
proof -
  let ?cs0 = "chunk_stream_of p csID"
  have inv: "parser_inv p" using assms(1) by (simp add: parser_idle_def)
  have cs0: "cs_bytesRead ?cs0 < cs_messageLength ?cs0 \<or> cs_bytesRead ?cs0 = 0"
    using assms(1) by (auto simp: chunk_stream_of_def parser_idle_def new_chunk_stream_def split: option.splits)
  from ReadChunkE [OF inv assms(3)] obtain fm r1 cs1 r2 payload n where
    h: "readMessageHeader fm ?cs0 r1 = Inr (cs1, r2)" and "cs_ok cs1"
    and pl: "length payload = min (unat (cp_chunkSize p)) (unat (cs_messageLength cs1) - unat (cs_bytesRead cs1))"
      "unat n = length payload"
    and p': "p' = p\<lparr>cp_chunkStreams := gomap_set csID (cs1\<lparr>cs_buffer := cs_buffer cs1 @ payload,
       cs_bytesRead := cs_bytesRead cs1 + n\<rparr>) (cp_chunkStreams p)\<rparr>" by metis
  have "payload = []" "n = 0" using pl assms(2) by (auto simp: unat_eq_0)
  then have cs: "cs = cs1" using assms(4) p' by (cases cs1) auto
  have "cs_bytesRead cs1 = 0 \<or> (cs_bytesRead cs1 = cs_bytesRead ?cs0 \<and> cs_messageLength cs1 = cs_messageLength ?cs0)"
    using h by (auto simp: chunk_defs bind_result_Inr_iff Let_def split: if_splits)
  then show ?thesis using cs0 \<open>cs_ok cs1\<close> cs by (auto simp: cs_ok_def)
qed

section \<open>Properties\<close>


definition example_conn :: Conn where
  "example_conn = \<lparr>cn_in = [], cn_out = [], cn_budget = None, cn_closed = False\<rparr>"

definition example_msg :: RtmpMessage where
  "example_msg = \<lparr>rm_Body = replicate 200 7, rm_Type = 9, rm_Timestamp = 40, rm_StreamID = 1\<rparr>"


text \<open>
  C27. On any input whatsoever a session's parser stays within the announced sizes: no chunk
  stream holds more bytes than its message announced, below \<open>2^24\<close>, one more chunk asks for
  at most the missing bytes, and a message that is handed out has exactly the announced
  length.
\<close>

theorem reassembly_bounded:
  assumes "reachable_from (\<lambda>p. p = NewChunkParser) parser_step p"
    and "ReadChunk p r = Inr (csID, p', r')"
  shows "\<exists>cs. gomap_get (cp_chunkStreams p') csID = Some cs \<and>
    length (cs_buffer cs) = unat (cs_bytesRead cs) \<and> cs_bytesRead cs \<le> cs_messageLength cs \<and>
    unat (cs_messageLength cs) < 2 ^ 24 \<and> length r' < length r \<and>
    (case GetCompleteMessage csID p' of
       (_, None) \<Rightarrow> cs_bytesRead cs < cs_messageLength cs
     | (_, Some m) \<Rightarrow> length (rm_Body m) = unat (cs_messageLength cs) \<and> rm_Type m = cs_messageType cs)"
proof -
  have "parser_inv p" using prun.inv_reachable [OF assms(1)] by (simp add: parser_idle_def)
  then have inv: "parser_inv p'" using assms(2) by (rule parser_inv_ReadChunk)
  obtain cs where cs: "gomap_get (cp_chunkStreams p') csID = Some cs" using ReadChunk_others(2) [OF assms(2)] by blast
  with inv have "cs_ok cs" by (auto simp: parser_inv_def)
  with cs ReadChunk_length [OF assms(2)] show ?thesis
    by (auto simp: cs_ok_def GetCompleteMessage_def not_less)
qed

theorem reassembly_bounded_witness:
  "\<exists>r p' cs. ReadChunk NewChunkParser r = Inr (4, p', []) \<and>
     gomap_get (cp_chunkStreams p') 4 = Some cs \<and> length (cs_buffer cs) = unat (cs_bytesRead cs)"
proof -
  have "msg_wire_ok 4 example_msg"
    by (auto simp: msg_wire_ok_def csID_ok_def example_msg_def word_le_nat_alt)
  then obtain r p' where rd: "ReadChunk NewChunkParser (r @ []) = Inr (4, p', [])"
    using ReadChunk_chunk [OF _ parser_inv_new, of 4 example_msg 0 "[]"]
    by (auto simp: NewChunkParser_def example_msg_def)
  have "reachable_from (\<lambda>p. p = NewChunkParser) parser_step NewChunkParser" by (rule reach_start) simp
  from reassembly_bounded [OF this rd] rd show ?thesis by blast
qed

text \<open>
  \<open>ParseSetChunkSize\<close> accepts the size 0, and that ends the conversation: with a chunk
  size of 0 no message with a body is ever completed again, on any further input, so not
  even another Set Chunk Size message can repair it.
\<close>

theorem chunk_size_0_completes_nothing:
  assumes "reachable_from (\<lambda>p. p = NewChunkParser) parser_step p" "cp_chunkSize p = 0"
    and "ReadChunk p r = Inr (csID, p', r')" "GetCompleteMessage csID p' = (p'', Some m)"
  shows "ParseSetChunkSize (put_be32 0) = Inr 0 \<and> rm_Body m = [] \<and> cp_chunkSize p'' = 0"
proof -
  have "parser_idle p" using assms(1) by (rule prun.inv_reachable)
  from ReadChunk_size_0 [OF this assms(2,3)] ReadChunk_others [OF assms(3)] assms(2,4)
  show ?thesis
    by (auto simp: GetCompleteMessage_def ParseSetChunkSize_def split: option.splits if_splits)
qed

theorem chunk_size_0_completes_nothing_witness:
  "\<exists>p p' p'' m. cp_chunkSize p = 0 \<and> ReadChunk p [0x03, 0, 0, 0, 0, 0, 0, 20, 0, 0, 0, 0] = Inr (3, p', []) \<and>
     GetCompleteMessage 3 p' = (p'', Some m) \<and> rm_Body m = []"
proof -
  let ?p = "ChunkParser_SetChunkSize 0 NewChunkParser" and ?r = "[0x03, 0, 0, 0, 0, 0, 0, 20, 0, 0, 0, 0] :: bytes"
  have "ParseSetChunkSize (put_be32 0) = Inr 0" by (simp add: ParseSetChunkSize_def)
  from parser_size [OF this] have "reachable_from (\<lambda>p. p = NewChunkParser) parser_step ?p"
    by (rule reach_step [OF reach_start, rotated]) simp
  moreover have "cp_chunkSize ?p = 0" by (simp add: ChunkParser_SetChunkSize_def)
  moreover have "\<exists>cs. ReadChunk ?p ?r = Inr (3, ?p\<lparr>cp_chunkStreams := [(3, cs)]\<rparr>, []) \<and>
      cs_messageLength cs = 0 \<and> cs_bytesRead cs = 0"
    by (simp add: ReadChunk_def chunk_defs ChunkParser_SetChunkSize_def NewChunkParser_def new_chunk_stream_def
        io_ReadFull_def Let_def get_be24_def gomap_set_def)
  then obtain cs where rd: "ReadChunk ?p ?r = Inr (3, ?p\<lparr>cp_chunkStreams := [(3, cs)]\<rparr>, [])"
    "cs_messageLength cs = 0" "cs_bytesRead cs = 0" by blast
  moreover obtain p'' m where "GetCompleteMessage 3 (?p\<lparr>cp_chunkStreams := [(3, cs)]\<rparr>) = (p'', Some m)"
    using rd(2,3) by (auto simp: GetCompleteMessage_def gomap_get_def)
  ultimately show ?thesis using chunk_size_0_completes_nothing by blast
qed

text \<open>
  The writer leaves the extended timestamp out of the continuation chunks while the
  parser, following the RTMP specification, expects it there: a message with a timestamp of
  \<open>0xFFFFFF\<close> or more (4.66 hours into a stream) that needs a second chunk is not readable.
  Here the second chunk has one byte and the parser runs into the end of the input.
\<close>

theorem extended_timestamp_unreadable:
  assumes "msg_wire_ok csID m" "rm_Timestamp m \<ge> 0xFFFFFF" "parser_inv p" "0 < unat (cp_chunkSize p)"
    and "length (rm_Body m) = unat (cp_chunkSize p) + 1" "conn_open c"
  shows "\<exists>c' w. WriteChunk csID (rm_Type m) (rm_Timestamp m) (rm_StreamID m) (rm_Body m) (cp_chunkSize p) c =
      Some (c', None) \<and> cn_out c' = cn_out c @ w \<and> read_message p w = Inl ErrUnexpectedEOF"
proof -
  let ?sz = "unat (cp_chunkSize p)" and ?len = "length (rm_Body m)"
  have mx: "cp_chunkSize p \<le> MaxChunkSize" using assms(3) by (simp add: parser_inv_def)
  have len: "?len < 2 ^ 24" using assms(1) by (simp add: msg_wire_ok_def)
  have "chunk_tail csID m ?sz (?sz + ?sz) = []" using assms(4,5) by (simp add: chunk_tail.simps)
  then have tail: "chunk_tail csID m ?sz 0 = chunk_bytes csID m ?sz 0 @ chunk_bytes csID m ?sz ?sz"
    using assms(4,5) by (subst chunk_tail.simps, subst chunk_tail.simps) simp
  obtain cs where rd: "ReadChunk p (chunk_bytes csID m ?sz 0 @ chunk_bytes csID m ?sz ?sz) =
      Inr (csID, p\<lparr>cp_chunkStreams := gomap_set csID cs (cp_chunkStreams p)\<rparr>, chunk_bytes csID m ?sz ?sz)"
    and "cs_mid m (0 + min ?sz (?len - 0)) cs"
    using ReadChunk_chunk [OF assms(1,3,4), of 0 "chunk_bytes csID m ?sz ?sz"] assms(5) by auto
  then have cs: "cs_mid m ?sz cs" using assms(5) by simp
  let ?p = "p\<lparr>cp_chunkStreams := gomap_set csID cs (cp_chunkStreams p)\<rparr>"
  have "unat (1 + cp_chunkSize p) = Suc ?sz" using assms(5) len by (simp add: unat_word_ariths)
  then have inc: "GetCompleteMessage csID ?p = (?p, None)" using cs assms(5)
    by (simp add: GetCompleteMessage_def cs_mid_def word_less_nat_alt)
  define b where "b = rm_Body m ! ?sz"
  have "take 1 (drop ?sz (rm_Body m)) = [b]"
    using assms(5) Cons_nth_drop_Suc [of ?sz "rm_Body m"] by (simp add: b_def)
  then have wire: "chunk_bytes csID m ?sz ?sz = concat (basic_header_writes ChunkFmt3 csID) @ [b]"
    using assms(4,5) by (simp add: chunk_bytes_def)
  have "csID_ok csID" using assms(1) by (simp add: msg_wire_ok_def)
  then have "ReadChunk ?p (chunk_bytes csID m ?sz ?sz) = Inl ErrUnexpectedEOF"
    using cs assms(2) unfolding wire
    by (simp add: ReadChunk_def read_basic_header_writes readMessageHeader_def readFmt3_def cs_mid_def
        read_be32_def io_ReadFull_def)
  then have "read_message p (chunk_tail csID m ?sz 0) = Inl ErrUnexpectedEOF"
    using rd inc unfolding tail by (subst read_message.simps, simp, subst read_message.simps, simp)
  then show ?thesis using WriteChunk_open [OF assms(1,4) mx assms(6)] by simp
qed

definition example_late_msg :: RtmpMessage where
  "example_late_msg = \<lparr>rm_Body = replicate 129 7, rm_Type = 9, rm_Timestamp = 0x1000000, rm_StreamID = 1\<rparr>"

theorem extended_timestamp_unreadable_witness:
  "\<exists>c' w. WriteChunk 4 9 0x1000000 1 (replicate 129 7) DefaultChunkSize example_conn = Some (c', None) \<and>
     cn_out c' = w \<and> read_message NewChunkParser w = Inl ErrUnexpectedEOF"
proof -
  have "msg_wire_ok 4 example_late_msg"
    by (auto simp: msg_wire_ok_def csID_ok_def example_late_msg_def word_le_nat_alt)
  from extended_timestamp_unreadable [OF this _ parser_inv_new, of example_conn] show ?thesis
    by (simp add: example_late_msg_def NewChunkParser_def example_conn_def conn_open_def)
qed

end
