(* ===== verification/Arena.thy ===== *)
theory Arena
  imports Message
begin

text \<open>
  The payload arena (\<open>internal/core/bus/arena.go\<close>): one byte slab cut into equal slots,
  handed out by a wrap-around cursor, and Go's \<open>append\<close> on the slices it hands out. The
  lemmas show that a slot is in range, that acquisitions closer than the number of slots
  are disjoint, and that writing one slot leaves the others as they were.
\<close>

section \<open>Definitions\<close>

record Arena =
  ar_base :: bytes
  ar_slot :: nat
  ar_mask :: u64
  ar_cursor :: u64

text \<open>\<open>None\<close>: the rounding loop does not end.\<close>

definition NewArena :: "nat \<Rightarrow> nat \<Rightarrow> Arena option" where
  "NewArena slots slotSize =
     (case pow2_loop 1 (word_of_nat slots) of
        None \<Rightarrow> None
      | Some n \<Rightarrow> Some \<lparr>ar_base = replicate (unat n * slotSize) 0, ar_slot = slotSize,
                       ar_mask = n - 1, ar_cursor = 0\<rparr>)"

definition Arena_Acquire :: "nat \<Rightarrow> Arena \<Rightarrow> Arena \<times> slice" where
  "Arena_Acquire sz a =
     (if sz > ar_slot a then (a, HeapSlice [])
      else
        (let n = ar_cursor a;
             off = unat (n AND ar_mask a) * ar_slot a
         in (a\<lparr>ar_cursor := n + 1\<rparr>, ArenaSlice off 0 (ar_slot a))))"

definition Arena_Stats :: "Arena \<Rightarrow> u64" where
  "Arena_Stats a = ar_cursor a"

text \<open>The bytes a slice shows, and Go's \<open>append\<close>: in place when the capacity allows.\<close>

definition write_at :: "nat \<Rightarrow> bytes \<Rightarrow> bytes \<Rightarrow> bytes" where
  "write_at off p base = take off base @ p @ drop (off + length p) base"

definition slice_bytes :: "Arena \<Rightarrow> slice \<Rightarrow> bytes" where
  "slice_bytes a sl =
     (case sl of
        NilSlice \<Rightarrow> []
      | ArenaSlice off len cap \<Rightarrow> take len (drop off (ar_base a))
      | HeapSlice bs \<Rightarrow> bs)"

definition slice_append :: "slice \<Rightarrow> bytes \<Rightarrow> Arena \<Rightarrow> Arena \<times> slice" where
  "slice_append sl p a =
     (case sl of
        NilSlice \<Rightarrow> (a, if p = [] then NilSlice else HeapSlice p)
      | ArenaSlice off len cap \<Rightarrow>
          if len + length p \<le> cap
          then (a\<lparr>ar_base := write_at (off + len) p (ar_base a)\<rparr>, ArenaSlice off (len + length p) cap)
          else (a, HeapSlice (slice_bytes a sl @ p))
      | HeapSlice bs \<Rightarrow> (a, HeapSlice (bs @ p)))"

text \<open>The number of slots, and the well-formedness of an arena.\<close>

definition arena_slots :: "Arena \<Rightarrow> nat" where
  "arena_slots a = Suc (unat (ar_mask a))"

definition arena_inv :: "Arena \<Rightarrow> bool" where
  "arena_inv a \<longleftrightarrow>
     (\<exists>k < 64. ar_mask a = 2 ^ k - 1) \<and> length (ar_base a) = arena_slots a * ar_slot a"

lemmas arena_defs [bus_defs] = Arena_Acquire_def slice_append_def slice_bytes_def

section \<open>Construction and invariant\<close>

lemma unat_exp_minus_1: "k < LENGTH('a) \<Longrightarrow> unat (2 ^ k - 1 :: 'a::len word) = 2 ^ k - 1"
  by (subst unat_sub) (auto simp: unat_exp word_le_nat_alt)

lemma arena_slots_exp: "k < 64 \<Longrightarrow> ar_mask a = 2 ^ k - 1 \<Longrightarrow> arena_slots a = 2 ^ k"
  by (simp add: arena_slots_def unat_exp_minus_1)

lemma NewArena_total:
  assumes "slots \<le> 2 ^ 63"
  shows "\<exists>a. NewArena slots sz = Some a \<and> arena_inv a \<and> slots \<le> arena_slots a \<and>
    ar_slot a = sz \<and> ar_cursor a = 0 \<and> (slots \<le> 1 \<or> arena_slots a < 2 * slots)"
proof -
  have slots: "unat (word_of_nat slots :: u64) = slots"
    using assms by (simp add: unat_of_nat)
  with assms obtain i where i: "i < LENGTH(64)" "pow2_loop 1 (word_of_nat slots :: u64) = Some (2 ^ i)"
    "slots \<le> 2 ^ i" "i = 0 \<or> 2 ^ i < 2 * slots"
    using pow2_loop_Some [of "word_of_nat slots :: u64"] by auto
  then show ?thesis
    by (auto simp: NewArena_def arena_inv_def arena_slots_exp unat_exp)
qed

lemma arena_inv_Acquire: "arena_inv a \<Longrightarrow> arena_inv (fst (Arena_Acquire n a))"
  by (simp add: Arena_Acquire_def arena_inv_def arena_slots_def Let_def)

lemma length_write_at: "off + length p \<le> length base \<Longrightarrow> length (write_at off p base) = length base"
  by (simp add: write_at_def)


section \<open>Writing one slot leaves the others alone\<close>

lemma take_drop_write_at_before:
  "off + len \<le> off' \<Longrightarrow> off' \<le> length base \<Longrightarrow>
    take len (drop off (write_at off' p base)) = take len (drop off base)"
  by (simp add: write_at_def take_drop min_def)

lemma take_drop_write_at_after:
  "off' + length p \<le> off \<Longrightarrow> off' + length p \<le> length base \<Longrightarrow>
    take len (drop off (write_at off' p base)) = take len (drop off base)"
  by (simp add: write_at_def min_def)

lemma take_drop_write_at_self:
  "off + length p \<le> length base \<Longrightarrow> take (length p) (drop off (write_at off p base)) = p"
  by (simp add: write_at_def min_def)

lemma slot_le: "(i::nat) < j \<Longrightarrow> i * s + s \<le> j * s"
  by (metis Suc_leI add.commute mult_Suc mult_le_mono1)

text \<open>
  \<open>slot_slice a i len\<close>: the slice of the first \<open>len\<close> bytes of slot \<open>i\<close>.
\<close>

definition slot_slice :: "Arena \<Rightarrow> nat \<Rightarrow> nat \<Rightarrow> slice" where
  "slot_slice a i len = ArenaSlice (i * ar_slot a) len (ar_slot a)"

lemma Acquire_small:
  assumes "arena_inv a" "sz \<le> ar_slot a"
  shows "Arena_Acquire sz a =
    (a\<lparr>ar_cursor := ar_cursor a + 1\<rparr>, slot_slice a (unat (ar_cursor a) mod arena_slots a) 0)"
  using assms by (auto simp: Arena_Acquire_def slot_slice_def arena_inv_def arena_slots_exp unat_and_exp Let_def)

lemma Acquire_large: "ar_slot a < sz \<Longrightarrow> Arena_Acquire sz a = (a, HeapSlice [])"
  by (simp add: Arena_Acquire_def)

lemma slot_in_range: "arena_inv a \<Longrightarrow> i < arena_slots a \<Longrightarrow> i * ar_slot a + ar_slot a \<le> length (ar_base a)"
  using slot_le [of i "arena_slots a" "ar_slot a"] by (auto simp: arena_inv_def)

lemma append_slot:
  assumes "arena_inv a" "i < arena_slots a" "length p \<le> ar_slot a"
  defines "a' \<equiv> a\<lparr>ar_base := write_at (i * ar_slot a) p (ar_base a)\<rparr>"
  shows "slice_append (slot_slice a i 0) p a = (a', slot_slice a i (length p))"
    and "arena_inv a'"
    and "slice_bytes a' (slot_slice a i (length p)) = p"
    and "\<And>j len. j < arena_slots a \<Longrightarrow> j \<noteq> i \<Longrightarrow> len \<le> ar_slot a \<Longrightarrow>
      slice_bytes a' (slot_slice a j len) = slice_bytes a (slot_slice a j len)"
proof -
  note range = slot_in_range [OF assms(1,2)]
  show "slice_append (slot_slice a i 0) p a = (a', slot_slice a i (length p))"
    using assms by (simp add: slice_append_def slot_slice_def)
  show "arena_inv a'"
  proof -
    have "i * ar_slot a + length p \<le> length (ar_base a)" using assms(3) range by linarith
    then show ?thesis using assms(1) by (simp add: a'_def arena_inv_def arena_slots_def length_write_at)
  qed
  show "slice_bytes a' (slot_slice a i (length p)) = p"
    using assms range by (simp add: slice_bytes_def slot_slice_def take_drop_write_at_self)
  fix j len assume j: "j < arena_slots a" "j \<noteq> i" "len \<le> ar_slot a"
  from j(2) consider "j < i" | "i < j" by linarith
  then show "slice_bytes a' (slot_slice a j len) = slice_bytes a (slot_slice a j len)"
  proof cases
    case 1
    then show ?thesis using slot_le [of j i "ar_slot a"] j range
      by (simp add: a'_def slice_bytes_def slot_slice_def take_drop_write_at_before)
  next
    case 2
    then show ?thesis using slot_le [of i j "ar_slot a"] assms(3) range
      by (simp add: a'_def slice_bytes_def slot_slice_def take_drop_write_at_after)
  qed
qed

text \<open>
  Acquisitions less than one lap apart get different slots: \<open>m\<close> and \<open>n\<close> are cursor values.
\<close>

lemma mod_distinct_window:
  assumes "(m::nat) < n" "n - m < k" shows "m mod k \<noteq> n mod k"
proof
  assume "m mod k = n mod k"
  with assms(1) have "k dvd n - m" by (metis less_imp_le mod_eq_dvd_iff_nat)
  with assms show False using nat_dvd_not_less by auto
qed

end
