(* ===== verification/RTMP_Session.thy ===== *)
theory RTMP_Session
  imports RTMP_Chunk Arena
begin

text \<open>
  An RTMP protocol session (\<open>session.go\<close>, \<open>handshake.go\<close> and \<open>client_handshake.go\<close> of
  \<open>internal/core/protocol/rtmp\<close>): the connection state machine, the acknowledgement
  counters and the two sides of the handshake. The clock and the random source are
  parameters of the handshakes.
\<close>

section \<open>Reading from the connection\<close>

definition conn_ReadFull :: "nat \<Rightarrow> Conn \<Rightarrow> Conn \<times> bytes result" where
  "conn_ReadFull n c =
     (if cn_closed c then (c, Inl ConnError)
      else (case io_ReadFull n (cn_in c) of
              Inl e \<Rightarrow> (c\<lparr>cn_in := []\<rparr>, Inl e)
            | Inr (b, r) \<Rightarrow> (c\<lparr>cn_in := r\<rparr>, Inr b)))"

section \<open>Handshakes\<close>

text \<open>
  \<open>time.Now().Unix()\<close> at its two calls, truncated to 32 bits, and the outcome of
  \<open>rand.Read\<close> on 1528 bytes (\<open>None\<close>: it failed).
\<close>

record hs_env =
  hs_time1 :: u32
  hs_time2 :: u32
  hs_random :: "bytes option"

definition PerformServerHandshake :: "hs_env \<Rightarrow> Conn \<Rightarrow> Conn \<times> go_error option" where
  "PerformServerHandshake env c =
     (case conn_ReadFull 1 c of
        (c, Inl e) \<Rightarrow> (c, Some e)
      | (c, Inr c0) \<Rightarrow>
     if c0 ! 0 \<noteq> RTMPVersion \<and> c0 ! 0 \<noteq> 0x03 then (c, Some ErrInvalidVersion)
     else (case conn_ReadFull 1536 c of
        (c, Inl e) \<Rightarrow> (c, Some e)
      | (c, Inr c1) \<Rightarrow>
     (case conn_Write [RTMPVersion] c of
        (c, Some e) \<Rightarrow> (c, Some e)
      | (c, None) \<Rightarrow>
     let s1 = write_at 0 (put_be32 (hs_time1 env)) (replicate 1536 0);
         s1 = write_at 4 (put_be32 0) s1 in
     (case hs_random env of
        None \<Rightarrow> (c, Some RandError)
      | Some rnd \<Rightarrow>
     let s1 = write_at 8 rnd s1 in
     (case conn_Write s1 c of
        (c, Some e) \<Rightarrow> (c, Some e)
      | (c, None) \<Rightarrow>
     let s2 = write_at 0 c1 (replicate 1536 0);
         s2 = write_at 0 (put_be32 (hs_time2 env)) s2 in
     (case conn_Write s2 c of
        (c, Some e) \<Rightarrow> (c, Some e)
      | (c, None) \<Rightarrow>
     (case conn_ReadFull 1536 c of
        (c, Inl e) \<Rightarrow> (c, Some e)
      | (c, Inr c2) \<Rightarrow> (c, None))))))))"

definition PerformClientHandshake :: "hs_env \<Rightarrow> Conn \<Rightarrow> Conn \<times> go_error option" where
  "PerformClientHandshake env c =
     (case conn_Write [RTMPVersion] c of
        (c, Some e) \<Rightarrow> (c, Some e)
      | (c, None) \<Rightarrow>
     let c1 = write_at 0 (put_be32 (hs_time1 env)) (replicate 1536 0);
         c1 = write_at 4 (put_be32 0) c1 in
     (case hs_random env of
        None \<Rightarrow> (c, Some RandError)
      | Some rnd \<Rightarrow>
     let c1 = write_at 8 rnd c1 in
     (case conn_Write c1 c of
        (c, Some e) \<Rightarrow> (c, Some e)
      | (c, None) \<Rightarrow>
     (case conn_ReadFull 1 c of
        (c, Inl e) \<Rightarrow> (c, Some e)
      | (c, Inr s0) \<Rightarrow>
     if s0 ! 0 \<noteq> RTMPVersion then (c, Some ErrInvalidVersion)
     else (case conn_ReadFull 1536 c of
        (c, Inl e) \<Rightarrow> (c, Some e)
      | (c, Inr s1) \<Rightarrow>
     (case conn_ReadFull 1536 c of
        (c, Inl e) \<Rightarrow> (c, Some e)
      | (c, Inr s2) \<Rightarrow>
     let c2 = write_at 0 s1 (replicate 1536 0);
         c2 = write_at 0 (put_be32 (hs_time2 env)) c2 in
     (case conn_Write c2 c of
        (c, Some e) \<Rightarrow> (c, Some e)
      | (c, None) \<Rightarrow> (c, None))))))))"

section \<open>The session\<close>

datatype SessionState = StateHandshaking | StateConnected | StatePublishing | StateClosed

record Session =
  ss_conn :: Conn
  ss_parser :: ChunkParser
  ss_state :: SessionState
  ss_writeChunkSize :: u32
  ss_app :: string
  ss_streamName :: string
  ss_ackSize :: u32
  ss_inAckSize :: u32
  ss_inLastAck :: u32

definition NewSession :: "Conn \<Rightarrow> Session" where
  "NewSession conn =
     \<lparr>ss_conn = conn, ss_parser = NewChunkParser, ss_state = StateHandshaking,
      ss_writeChunkSize = DefaultChunkSize, ss_app = '''', ss_streamName = '''',
      ss_ackSize = 0, ss_inAckSize = 0, ss_inLastAck = 0\<rparr>"

definition Session_PerformHandshake :: "hs_env \<Rightarrow> Session \<Rightarrow> Session \<times> go_error option" where
  "Session_PerformHandshake env s =
     (if ss_state s \<noteq> StateHandshaking then (s, Some ErrHandshakeFailed)
      else (case PerformServerHandshake env (ss_conn s) of
              (c, Some e) \<Rightarrow> (s\<lparr>ss_conn := c\<rparr>, Some e)
            | (c, None) \<Rightarrow> (s\<lparr>ss_conn := c, ss_state := StateConnected\<rparr>, None)))"

definition Session_ReadChunk :: "Session \<Rightarrow> (u32 \<times> Session) result" where
  "Session_ReadChunk s =
     (if cn_closed (ss_conn s) then Inl ConnError
      else bind_result (ReadChunk (ss_parser s) (cn_in (ss_conn s))) (\<lambda>(csID, p, r).
             Inr (csID, s\<lparr>ss_parser := p, ss_conn := (ss_conn s)\<lparr>cn_in := r\<rparr>\<rparr>)))"

definition Session_GetBytesReadForChunk :: "u32 \<Rightarrow> Session \<Rightarrow> u32" where
  "Session_GetBytesReadForChunk csID s = ChunkParser_GetBytesReadForChunk csID (ss_parser s)"

definition Session_GetCompleteMessage :: "u32 \<Rightarrow> Session \<Rightarrow> Session \<times> RtmpMessage option" where
  "Session_GetCompleteMessage csID s =
     (case GetCompleteMessage csID (ss_parser s) of (p, m) \<Rightarrow> (s\<lparr>ss_parser := p\<rparr>, m))"

definition Session_WriteMessage :: "u32 \<Rightarrow> byte \<Rightarrow> u32 \<Rightarrow> u32 \<Rightarrow> bytes \<Rightarrow> Session \<Rightarrow> Session \<times> go_error option" where
  "Session_WriteMessage csID msgType timestamp streamID body s =
     (case WriteChunk csID msgType timestamp streamID body (ss_writeChunkSize s) (ss_conn s) of
        None \<Rightarrow> (s, Some NeverReturns)
      | Some (c, e) \<Rightarrow> (s\<lparr>ss_conn := c\<rparr>, e))"

definition Session_SetWriteChunkSize :: "u32 \<Rightarrow> Session \<Rightarrow> Session" where
  "Session_SetWriteChunkSize sz s = s\<lparr>ss_writeChunkSize := sz\<rparr>"

definition Session_SetReadChunkSize :: "u32 \<Rightarrow> Session \<Rightarrow> Session" where
  "Session_SetReadChunkSize sz s = s\<lparr>ss_parser := ChunkParser_SetChunkSize sz (ss_parser s)\<rparr>"

definition Session_SetAckSize :: "u32 \<Rightarrow> Session \<Rightarrow> Session" where
  "Session_SetAckSize sz s = s\<lparr>ss_ackSize := sz\<rparr>"

definition Session_SendACK :: "u32 \<Rightarrow> Session \<Rightarrow> Session \<times> go_error option" where
  "Session_SendACK ackSize s = Session_WriteMessage 2 MsgAck 0 0 (put_be32 ackSize) s"

definition Session_RecordBytesReceived :: "u32 \<Rightarrow> Session \<Rightarrow> Session \<times> bool \<times> go_error option" where
  "Session_RecordBytesReceived bytesRead s =
     (let s1 = s\<lparr>ss_inAckSize := ss_inAckSize s + bytesRead\<rparr>;
          s2 = (if ss_inAckSize s1 \<ge> 0xf0000000 then s1\<lparr>ss_inAckSize := 0, ss_inLastAck := 0\<rparr> else s1);
          ackSize = ss_ackSize s2; inAckSize = ss_inAckSize s2; inLastAck = ss_inLastAck s2
      in if ackSize > 0 \<and> inAckSize - inLastAck \<ge> ackSize then
           (case Session_SendACK inAckSize s2 of
              (s3, Some e) \<Rightarrow> (s3, False, Some e)
            | (s3, None) \<Rightarrow> (s3\<lparr>ss_inLastAck := inAckSize\<rparr>, True, None))
         else (s2, False, None))"

definition Session_GetWriteChunkSize :: "Session \<Rightarrow> u32" where
  "Session_GetWriteChunkSize s = ss_writeChunkSize s"

definition Session_SetApp :: "string \<Rightarrow> Session \<Rightarrow> Session" where
  "Session_SetApp app s = s\<lparr>ss_app := app\<rparr>"

definition Session_GetApp :: "Session \<Rightarrow> string" where
  "Session_GetApp s = ss_app s"

definition Session_SetStreamName :: "string \<Rightarrow> Session \<Rightarrow> Session" where
  "Session_SetStreamName name s = s\<lparr>ss_streamName := name\<rparr>"

definition Session_GetStreamName :: "Session \<Rightarrow> string" where
  "Session_GetStreamName s = ss_streamName s"

definition Session_SetState :: "SessionState \<Rightarrow> Session \<Rightarrow> Session" where
  "Session_SetState st s = s\<lparr>ss_state := st\<rparr>"

definition Session_GetState :: "Session \<Rightarrow> SessionState" where
  "Session_GetState s = ss_state s"

definition Session_Close :: "Session \<Rightarrow> Session" where
  "Session_Close s = s\<lparr>ss_state := StateClosed, ss_conn := conn_Close (ss_conn s)\<rparr>"

lemmas session_defs = Session_SetWriteChunkSize_def Session_SetReadChunkSize_def Session_SetAckSize_def
  Session_SetApp_def Session_GetApp_def Session_SetStreamName_def Session_SetState_def Session_Close_def

section \<open>Invariant\<close>

definition session_inv :: "Session \<Rightarrow> bool" where
  "session_inv s \<longleftrightarrow> parser_inv (ss_parser s) \<and> 0 < unat (ss_writeChunkSize s) \<and>
     ss_writeChunkSize s \<le> MaxChunkSize \<and> ss_inLastAck s \<le> ss_inAckSize s \<and> ss_inAckSize s < 0xf0000000"

lemma session_inv_New: "session_inv (NewSession c)"
  by (simp add: session_inv_def NewSession_def parser_inv_new)

lemma WriteMessage_fields:
  "fst (Session_WriteMessage csID mt ts sid body s) = s\<lparr>ss_conn := ss_conn (fst (Session_WriteMessage csID mt ts sid body s))\<rparr>"
  by (auto simp: Session_WriteMessage_def split: option.splits prod.splits)

lemma WriteMessage_inv: "session_inv s \<Longrightarrow> session_inv (fst (Session_WriteMessage csID mt ts sid body s))"
  by (subst WriteMessage_fields) (simp add: session_inv_def)

lemma WriteMessage_returns:
  assumes "session_inv s" "length body < 2 ^ 24"
  shows "snd (Session_WriteMessage csID mt ts sid body s) \<noteq> Some NeverReturns"
proof -
  have errs: "snd (conn_writes ws c) \<noteq> Some NeverReturns" for ws c
    by (induction ws c rule: conn_writes.induct) (auto simp: conn_Write_def split: prod.splits option.splits if_splits)
  have loop: "snd x \<noteq> Some NeverReturns"
    if "WriteChunk_loop csID mt ts sid body sz off c = Some x" for sz off c x
    using that
  proof (rule WriteChunk_loop.raw_induct [where P = "\<lambda>_ _ _ _ _ _ _ _ x. snd x \<noteq> Some NeverReturns", rotated])
    fix f csID mt ts sid body sz off c x
    assume ih: "\<And>csID mt ts sid body sz off c x. f csID mt ts sid body sz off c = Some x \<Longrightarrow> snd x \<noteq> Some NeverReturns"
      and eq: "(if off < of_nat (length body) then
        (case chunk_writes csID mt ts sid body sz off of
           (ws, chunkLen) \<Rightarrow> (case conn_writes ws c of (c', Some e) \<Rightarrow> Some (c', Some e)
              | (c', None) \<Rightarrow> f csID mt ts sid body sz (off + chunkLen) c'))
        else Some (c, None)) = Some x"
    show "snd x \<noteq> Some NeverReturns"
      using eq by (auto simp: errs split: if_splits prod.splits option.splits dest: ih)
  qed
  obtain x where "WriteChunk csID mt ts sid body (ss_writeChunkSize s) (ss_conn s) = Some x"
    using WriteChunk_returns [OF assms(2), of "ss_writeChunkSize s"] assms(1) unfolding session_inv_def by blast
  moreover from this have "snd x \<noteq> Some NeverReturns" unfolding WriteChunk_def by (rule loop)
  ultimately show ?thesis by (auto simp: Session_WriteMessage_def split: prod.splits)
qed

text \<open>Counting a chunk never wraps the 32-bit counters: they are reset in time.\<close>

lemma RecordBytesReceived_inv:
  assumes "session_inv s" "unat n < 2 ^ 24"
  shows "session_inv (fst (Session_RecordBytesReceived n s))"
proof -
  have le: "unat (ss_inAckSize s) < 0xf0000000" "unat (ss_inLastAck s) \<le> unat (ss_inAckSize s)"
    using assms(1) by (auto simp: session_inv_def word_less_nat_alt word_le_nat_alt)
  then have "unat (ss_inAckSize s + n) = unat (ss_inAckSize s) + unat n"
    using assms(2) by (simp add: unat_word_ariths)
  then have mono: "ss_inLastAck s \<le> ss_inAckSize s + n" using le by (simp add: word_le_nat_alt)
  let ?s1 = "s\<lparr>ss_inAckSize := ss_inAckSize s + n\<rparr>"
  define s2 where "s2 = (if ss_inAckSize ?s1 \<ge> 0xf0000000 then ?s1\<lparr>ss_inAckSize := 0, ss_inLastAck := 0\<rparr> else ?s1)"
  have inv2: "session_inv s2" using assms(1) mono by (auto simp: s2_def session_inv_def)
  obtain c e where w: "Session_SendACK (ss_inAckSize s2) s2 = (s2\<lparr>ss_conn := c\<rparr>, e)"
    using WriteMessage_fields [of 2 MsgAck 0 0 "put_be32 (ss_inAckSize s2)" s2]
    by (metis Session_SendACK_def prod.collapse)
  then show ?thesis using inv2
    unfolding Session_RecordBytesReceived_def Let_def s2_def [symmetric]
    by (auto simp: session_inv_def split: option.splits)
qed

lemma ReadChunk_session_inv:
  assumes "session_inv s" "Session_ReadChunk s = Inr (csID, s')"
  shows "session_inv s'" "length (cn_in (ss_conn s')) < length (cn_in (ss_conn s))"
    "unat (Session_GetBytesReadForChunk csID s') < 2 ^ 24"
    "s' = s\<lparr>ss_parser := ss_parser s', ss_conn := ss_conn s'\<rparr>" "cn_out (ss_conn s') = cn_out (ss_conn s)"
proof -
  from assms(2) obtain p r where rd: "ReadChunk (ss_parser s) (cn_in (ss_conn s)) = Inr (csID, p, r)"
    and s': "s' = s\<lparr>ss_parser := p, ss_conn := (ss_conn s)\<lparr>cn_in := r\<rparr>\<rparr>"
    by (auto simp: Session_ReadChunk_def bind_result_Inr_iff split: if_splits)
  have inv: "parser_inv p" using parser_inv_ReadChunk [OF _ rd] assms(1) by (simp add: session_inv_def)
  obtain cs where cs: "gomap_get (cp_chunkStreams p) csID = Some cs" using ReadChunk_others(2) [OF rd] by blast
  then have "cs_ok cs" using inv by (auto simp: parser_inv_def)
  with cs show "unat (Session_GetBytesReadForChunk csID s') < 2 ^ 24"
    by (simp add: s' Session_GetBytesReadForChunk_def ChunkParser_GetBytesReadForChunk_def cs_ok_def word_le_nat_alt)
  show "session_inv s'" using inv assms(1) by (simp add: s' session_inv_def)
  show "length (cn_in (ss_conn s')) < length (cn_in (ss_conn s))" using ReadChunk_length [OF rd] by (simp add: s')
  show "s' = s\<lparr>ss_parser := ss_parser s', ss_conn := ss_conn s'\<rparr>" "cn_out (ss_conn s') = cn_out (ss_conn s)"
    by (simp_all add: s')
qed

lemma GetCompleteMessage_inv: "session_inv s \<Longrightarrow> session_inv (fst (Session_GetCompleteMessage csID s))"
  using parser_inv_GetCompleteMessage [of "ss_parser s" csID]
  by (auto simp: Session_GetCompleteMessage_def session_inv_def split: prod.splits)

section \<open>Handshake lemmas\<close>

lemma conn_ReadFull_ok:
  "\<not> cn_closed c \<Longrightarrow> cn_in c = b @ r \<Longrightarrow> length b = n \<Longrightarrow> conn_ReadFull n c = (c\<lparr>cn_in := r\<rparr>, Inr b)"
  by (simp add: conn_ReadFull_def)

lemma conn_Write_ok: "conn_open c \<Longrightarrow> conn_Write b c = (c\<lparr>cn_out := cn_out c @ b\<rparr>, None)"
  by (simp add: conn_Write_def conn_open_def)

definition hello :: "u32 \<Rightarrow> bytes \<Rightarrow> bytes" where
  "hello t rnd = put_be32 t @ put_be32 0 @ rnd"

definition echo :: "u32 \<Rightarrow> bytes \<Rightarrow> bytes" where
  "echo t b = put_be32 t @ drop 4 b"

lemma hello_array:
  assumes "length rnd = 1528"
  shows "write_at 8 rnd (write_at 4 (put_be32 0) (write_at 0 (put_be32 t) (replicate 1536 0))) = hello t rnd"
  using assms by (simp add: write_at_def hello_def)

lemma echo_array: "length b = 1536 \<Longrightarrow> write_at 0 (put_be32 t) (write_at 0 b (replicate 1536 0)) = echo t b"
  by (simp add: write_at_def echo_def)

lemma length_hello: "length rnd = 1528 \<Longrightarrow> length (hello t rnd) = 1536"
  by (simp add: hello_def)

lemma length_echo: "length b = 1536 \<Longrightarrow> length (echo t b) = 1536"
  by (simp add: echo_def)

lemma server_handshake:
  assumes "conn_open c" "cn_in c = RTMPVersion # c1 @ c2 @ r" "length c1 = 1536" "length c2 = 1536"
    and "hs_random env = Some rnd" "length rnd = 1528"
  shows "PerformServerHandshake env c =
    (c\<lparr>cn_in := r, cn_out := cn_out c @ RTMPVersion # hello (hs_time1 env) rnd @ echo (hs_time2 env) c1\<rparr>, None)"
proof -
  have open1: "\<not> cn_closed c" using assms(1) by (simp add: conn_open_def)
  have r0: "conn_ReadFull 1 c = (c\<lparr>cn_in := c1 @ c2 @ r\<rparr>, Inr [RTMPVersion])"
    using conn_ReadFull_ok [OF open1, of "[RTMPVersion]" "c1 @ c2 @ r" 1] assms(2) by simp
  have r1: "conn_ReadFull 1536 (c\<lparr>cn_in := c1 @ c2 @ r\<rparr>) = (c\<lparr>cn_in := c2 @ r\<rparr>, Inr c1)"
    using open1 assms(3) by (subst conn_ReadFull_ok [of _ c1 "c2 @ r"]) auto
  have w: "conn_Write b (c\<lparr>cn_in := i, cn_out := w\<rparr>) = (c\<lparr>cn_in := i, cn_out := w @ b\<rparr>, None)" for b i w
    using conn_Write_ok [of "c\<lparr>cn_in := i, cn_out := w\<rparr>" b] assms(1) by (simp add: conn_open_def)
  have w0: "conn_Write b (c\<lparr>cn_in := i\<rparr>) = (c\<lparr>cn_in := i, cn_out := cn_out c @ b\<rparr>, None)" for b i
    using conn_Write_ok [of "c\<lparr>cn_in := i\<rparr>" b] assms(1) by (simp add: conn_open_def)
  have r2: "conn_ReadFull 1536 (c\<lparr>cn_in := c2 @ r, cn_out := w\<rparr>) = (c\<lparr>cn_in := r, cn_out := w\<rparr>, Inr c2)" for w
    using open1 assms(4) by (subst conn_ReadFull_ok [of _ c2 r]) auto
  show ?thesis
    unfolding PerformServerHandshake_def r0 prod.case sum.case
    by (simp add: r1 w0 w r2 assms(5) hello_array [OF assms(6)] echo_array [OF assms(3)] Let_def)
qed

lemma client_handshake:
  assumes "conn_open c" "cn_in c = RTMPVersion # s1 @ s2 @ r" "length s1 = 1536" "length s2 = 1536"
    and "hs_random env = Some rnd" "length rnd = 1528"
  shows "PerformClientHandshake env c =
    (c\<lparr>cn_in := r, cn_out := cn_out c @ RTMPVersion # hello (hs_time1 env) rnd @ echo (hs_time2 env) s1\<rparr>, None)"
proof -
  have open1: "\<not> cn_closed c" using assms(1) by (simp add: conn_open_def)
  have w0: "conn_Write b c = (c\<lparr>cn_out := cn_out c @ b\<rparr>, None)" for b using conn_Write_ok [OF assms(1)] .
  have w1: "conn_Write b (c\<lparr>cn_out := w\<rparr>) = (c\<lparr>cn_out := w @ b\<rparr>, None)" for b w
    using conn_Write_ok [of "c\<lparr>cn_out := w\<rparr>" b] assms(1) by (simp add: conn_open_def)
  have r0: "conn_ReadFull 1 (c\<lparr>cn_out := w\<rparr>) = (c\<lparr>cn_in := s1 @ s2 @ r, cn_out := w\<rparr>, Inr [RTMPVersion])" for w
    using open1 assms(2) by (subst conn_ReadFull_ok [of _ "[RTMPVersion]" "s1 @ s2 @ r"]) auto
  have r1: "conn_ReadFull 1536 (c\<lparr>cn_in := s1 @ s2 @ r, cn_out := w\<rparr>) = (c\<lparr>cn_in := s2 @ r, cn_out := w\<rparr>, Inr s1)" for w
    using open1 assms(3) by (subst conn_ReadFull_ok [of _ s1 "s2 @ r"]) auto
  have r2: "conn_ReadFull 1536 (c\<lparr>cn_in := s2 @ r, cn_out := w\<rparr>) = (c\<lparr>cn_in := r, cn_out := w\<rparr>, Inr s2)" for w
    using open1 assms(4) by (subst conn_ReadFull_ok [of _ s2 r]) auto
  have w2: "conn_Write b (c\<lparr>cn_in := i, cn_out := w\<rparr>) = (c\<lparr>cn_in := i, cn_out := w @ b\<rparr>, None)" for b i w
    using conn_Write_ok [of "c\<lparr>cn_in := i, cn_out := w\<rparr>" b] assms(1) by (simp add: conn_open_def)
  show ?thesis
    unfolding PerformClientHandshake_def w0 prod.case option.case Let_def assms(5) hello_array [OF assms(6)] w1 r0 sum.case
    by (simp add: r1 r2 w2 echo_array [OF assms(3)])
qed

section \<open>Properties\<close>

text \<open>
  The two sides of the handshake fit together: there is a transcript of both directions
  such that the client, reading the server's bytes, writes the client's, the server, reading
  the client's bytes, writes the server's, both end without error having consumed exactly
  the 3073 bytes of the handshake, and each side's last message echoes the other's random
  data behind its own time.
\<close>

lemma handshake_agreement:
  assumes "hs_random ce = Some crnd" "length crnd = 1528" "hs_random se = Some srnd" "length srnd = 1528"
    and "conn_open cc" "conn_open sc"
  shows "\<exists>cout sout. length cout = 3073 \<and> length sout = 3073 \<and>
    PerformClientHandshake ce (cc\<lparr>cn_in := sout @ r\<rparr>) = (cc\<lparr>cn_in := r, cn_out := cn_out cc @ cout\<rparr>, None) \<and>
    PerformServerHandshake se (sc\<lparr>cn_in := cout @ q\<rparr>) = (sc\<lparr>cn_in := q, cn_out := cn_out sc @ sout\<rparr>, None) \<and>
    drop 1541 cout = drop 5 (take 1537 sout) \<and> drop 1541 sout = drop 5 (take 1537 cout)"
proof -
  let ?c1 = "hello (hs_time1 ce) crnd" and ?s1 = "hello (hs_time1 se) srnd"
  let ?c2 = "echo (hs_time2 ce) ?s1" and ?s2 = "echo (hs_time2 se) ?c1"
  let ?cout = "RTMPVersion # ?c1 @ ?c2" and ?sout = "RTMPVersion # ?s1 @ ?s2"
  have len: "length ?c1 = 1536" "length ?s1 = 1536" "length ?c2 = 1536" "length ?s2 = 1536"
    using assms by (auto intro: length_hello length_echo)
  have oc: "conn_open (cc\<lparr>cn_in := ?sout @ r\<rparr>)" "conn_open (sc\<lparr>cn_in := ?cout @ q\<rparr>)"
    using assms(5,6) by (auto simp: conn_open_def)
  have "PerformClientHandshake ce (cc\<lparr>cn_in := ?sout @ r\<rparr>) = (cc\<lparr>cn_in := r, cn_out := cn_out cc @ ?cout\<rparr>, None)"
    using client_handshake [OF oc(1) _ len(2,4) assms(1,2), of r] by simp
  moreover have "PerformServerHandshake se (sc\<lparr>cn_in := ?cout @ q\<rparr>) = (sc\<lparr>cn_in := q, cn_out := cn_out sc @ ?sout\<rparr>, None)"
    using server_handshake [OF oc(2) _ len(1,3) assms(3,4), of q] by simp
  moreover have "drop 1541 ?cout = drop 4 ?s1" "drop 1541 ?sout = drop 4 ?c1"
    using len by (simp_all add: echo_def)
  moreover have "drop 5 (take 1537 ?sout) = drop 4 ?s1" "drop 5 (take 1537 ?cout) = drop 4 ?c1"
    using len by simp_all
  ultimately show ?thesis using len by (intro exI [of _ ?cout] exI [of _ ?sout]) (simp only: list.size length_append, simp)
qed

lemma handshake_agreement_witness:
  "\<exists>sout. length sout = 3073 \<and>
     snd (PerformClientHandshake \<lparr>hs_time1 = 1, hs_time2 = 2, hs_random = Some (replicate 1528 5)\<rparr>
       (example_conn\<lparr>cn_in := sout @ []\<rparr>)) = None"
  using handshake_agreement [of "\<lparr>hs_time1 = 1, hs_time2 = 2, hs_random = Some (replicate 1528 5)\<rparr>" "replicate 1528 5"
      "\<lparr>hs_time1 = 3, hs_time2 = 4, hs_random = Some (replicate 1528 6)\<rparr>" "replicate 1528 6" example_conn example_conn "[]" "[]"]
  by (auto simp: example_conn_def conn_open_def)

text \<open>
  A peer that does not speak RTMP version 3 is turned away after one byte and before
  anything is written to it; the session stays in its handshaking state.
\<close>

theorem handshake_wrong_version:
  assumes "ss_state s = StateHandshaking" "\<not> cn_closed (ss_conn s)" "cn_in (ss_conn s) = b # r" "b \<noteq> RTMPVersion"
  shows "Session_PerformHandshake env s = (s\<lparr>ss_conn := (ss_conn s)\<lparr>cn_in := r\<rparr>\<rparr>, Some ErrInvalidVersion)"
proof -
  have "conn_ReadFull 1 (ss_conn s) = ((ss_conn s)\<lparr>cn_in := r\<rparr>, Inr [b])"
    using conn_ReadFull_ok [OF assms(2), of "[b]" r 1] assms(3) by simp
  then show ?thesis using assms(1,4) by (simp add: Session_PerformHandshake_def PerformServerHandshake_def)
qed

theorem handshake_wrong_version_witness:
  "snd (Session_PerformHandshake \<lparr>hs_time1 = 0, hs_time2 = 0, hs_random = None\<rparr>
     (NewSession (example_conn\<lparr>cn_in := [0x47]\<rparr>))) = Some ErrInvalidVersion"
  using handshake_wrong_version [of "NewSession (example_conn\<lparr>cn_in := [0x47]\<rparr>)" "0x47" "[]"]
  by (simp add: NewSession_def example_conn_def)

end
