(* ===== verification/AMF0.thy ===== *)
theory AMF0
  imports Message
begin

text \<open>
  AMF0 values and their wire format (\<open>internal/core/protocol/amf0\<close>). A \<open>float64\<close> is its
  64-bit pattern, a Go string its characters (one byte each), an \<open>Object\<close> a Go map whose
  list order is the iteration order. \<open>AmfOther\<close> stands for a Go value of a type the encoder
  does not know. The encoder writes into a \<open>bytes.Buffer\<close>, which does not fail, so encoding
  is the function of the bytes appended.
\<close>

section \<open>Values\<close>

datatype Value =
    AmfNumber u64
  | AmfBool bool
  | AmfString string
  | AmfNull
  | AmfObject "(string \<times> Value) list"
  | AmfArray "Value list"
  | AmfOther

type_synonym Object = "(string, Value) gomap"

abbreviation TypeNumber :: byte where "TypeNumber \<equiv> 0"
abbreviation TypeBoolean :: byte where "TypeBoolean \<equiv> 1"
abbreviation TypeString :: byte where "TypeString \<equiv> 2"
abbreviation TypeObject :: byte where "TypeObject \<equiv> 3"
abbreviation TypeNull :: byte where "TypeNull \<equiv> 5"
abbreviation TypeUndefined :: byte where "TypeUndefined \<equiv> 6"
abbreviation TypeECMAArray :: byte where "TypeECMAArray \<equiv> 8"
abbreviation TypeObjectEnd :: byte where "TypeObjectEnd \<equiv> 9"
abbreviation TypeStrictArray :: byte where "TypeStrictArray \<equiv> 10"

section \<open>Encoding\<close>

definition encodeNumber :: "u64 \<Rightarrow> bytes" where
  "encodeNumber num = [TypeNumber] @ put_be64 num"

definition encodeBoolean :: "bool \<Rightarrow> bytes" where
  "encodeBoolean b = [TypeBoolean] @ [if b then 1 else 0]"

definition encodeString :: "string \<Rightarrow> bytes" where
  "encodeString s = [TypeString] @ put_be16 (of_nat (length s)) @ str_bytes s"

definition encodeNull :: bytes where
  "encodeNull = [TypeNull]"

fun Encode :: "Value \<Rightarrow> bytes"
  and encodeFields :: "(string \<times> Value) list \<Rightarrow> bytes"
  and encodeItems :: "Value list \<Rightarrow> bytes" where
  "Encode (AmfNumber v) = encodeNumber v"
| "Encode (AmfBool v) = encodeBoolean v"
| "Encode (AmfString v) = encodeString v"
| "Encode AmfNull = encodeNull"
| "Encode (AmfObject obj) = [TypeObject] @ encodeFields obj @ put_be16 0 @ [TypeObjectEnd]"
| "Encode (AmfArray arr) = [TypeStrictArray] @ put_be32 (of_nat (length arr)) @ encodeItems arr"
| "Encode AmfOther = encodeNull"
| "encodeFields [] = []"
| "encodeFields ((key, val) # obj) =
     put_be16 (of_nat (length key)) @ str_bytes key @ Encode val @ encodeFields obj"
| "encodeItems [] = []"
| "encodeItems (val # arr) = Encode val @ encodeItems arr"

definition EncodeCommand :: "Value list \<Rightarrow> bytes result" where
  "EncodeCommand arr = Inr (encodeItems arr)"

section \<open>Decoding\<close>

definition decodeNumber :: "bytes \<Rightarrow> (u64 \<times> bytes) result" where
  "decodeNumber r = read_be64 r"

definition decodeBoolean :: "bytes \<Rightarrow> (bool \<times> bytes) result" where
  "decodeBoolean r = bind_result (read_u8 r) (\<lambda>(b, r). Inr (b \<noteq> 0, r))"

definition decodeString :: "bytes \<Rightarrow> (string \<times> bytes) result" where
  "decodeString r =
     bind_result (read_be16 r) (\<lambda>(len, r).
       if len = 0 then Inr ('''', r)
       else bind_result (io_ReadFull (unat len) r) (\<lambda>(buf, r). Inr (bytes_str buf, r)))"

definition DecodeString :: "bytes \<Rightarrow> (string \<times> bytes) result" where
  "DecodeString r =
     bind_result (read_u8 r) (\<lambda>(typeMarker, r).
       if typeMarker \<noteq> TypeString then Inl ErrUnexpectedType else decodeString r)"

function Decode :: "bytes \<Rightarrow> (Value \<times> bytes) result"
  and decodeObject_loop :: "Object \<Rightarrow> bytes \<Rightarrow> (Object \<times> bytes) result" where
  "Decode r =
     bind_result (read_u8 r) (\<lambda>(typeMarker, r1).
       if typeMarker = TypeNumber then bind_result (decodeNumber r1) (\<lambda>(v, r2). Inr (AmfNumber v, r2))
       else if typeMarker = TypeBoolean then bind_result (decodeBoolean r1) (\<lambda>(v, r2). Inr (AmfBool v, r2))
       else if typeMarker = TypeString then bind_result (decodeString r1) (\<lambda>(v, r2). Inr (AmfString v, r2))
       else if typeMarker = TypeNull \<or> typeMarker = TypeUndefined then Inr (AmfNull, r1)
       else if typeMarker = TypeObject then
         bind_result (decodeObject_loop [] r1) (\<lambda>(v, r2). Inr (AmfObject v, r2))
       else if typeMarker = TypeECMAArray then
         bind_result (read_be32 r1) (\<lambda>(count, r2).
           bind_result (decodeObject_loop [] r2) (\<lambda>(v, r3). Inr (AmfObject v, r3)))
       else Inl ErrUnexpectedType)"
| "decodeObject_loop obj r =
     bind_result (read_be16 r) (\<lambda>(keyLen, r1).
       if keyLen = 0 then
         bind_result (read_u8 r1) (\<lambda>(endMarker, r2).
           if endMarker \<noteq> TypeObjectEnd then Inl ErrInvalidData else Inr (obj, r2))
       else
         bind_result (io_ReadFull (unat keyLen) r1) (\<lambda>(keyBuf, r2).
           bind_result (Decode r2) (\<lambda>(val, r3).
             decodeObject_loop (gomap_set (bytes_str keyBuf) val obj) r3)))"
  by pat_completeness auto

text \<open>Decoding a value consumes at least a byte, so the recursion through it ends.\<close>

lemma decode_leaf_consumes:
  "decodeString r = Inr (s, r') \<Longrightarrow> consumes r r'"
  "decodeBoolean r = Inr (b, r') \<Longrightarrow> consumes r r'"
  "decodeNumber r = Inr (n, r') \<Longrightarrow> consumes r r'"
proof -
  have "consumes q q'" if "io_ReadFull (unat (len :: u16)) q = Inr (c, q')" "len \<noteq> 0" for q q' c len
    using that by (intro read_consumes(1)) (auto simp: unat_gt_0)
  then show "decodeString r = Inr (s, r') \<Longrightarrow> consumes r r'"
    by (auto simp: decodeString_def bind_result_Inr_iff split: if_splits intro: consumes_trans read_consumes)
qed (auto simp: decodeBoolean_def decodeNumber_def bind_result_Inr_iff intro: read_consumes)

lemma Decode_dom_consumes:
  "Decode_decodeObject_loop_dom (Inl r) \<Longrightarrow> Decode r = Inr (v, r') \<Longrightarrow> consumes r r'"
  "Decode_decodeObject_loop_dom (Inr (obj, q)) \<Longrightarrow> decodeObject_loop obj q = Inr (u, q') \<Longrightarrow> consumes q q'"
proof (induction r and obj q arbitrary: v r' and u q' rule: Decode_decodeObject_loop.pinduct)
  case (1 r)
  have leaf: "consumes r q'" if "read_u8 r = Inr (t, r1)"
    "decodeNumber r1 = Inr (n, q') \<or> decodeBoolean r1 = Inr (b, q') \<or> decodeString r1 = Inr (s, q') \<or> q' = r1"
    for t r1 n b s q'
    using that by (auto intro: consumes_trans read_consumes decode_leaf_consumes)
  have obj: "consumes r q'"
    if "read_u8 r = Inr (TypeObject, r1)" "decodeObject_loop [] r1 = Inr (u, q')" for r1 u q'
    using that 1(2) by (intro consumes_trans [OF read_consumes(2) [OF that(1)]]) simp
  have arr: "consumes r q'"
    if "read_u8 r = Inr (TypeECMAArray, r1)" "read_be32 r1 = Inr (c, r2)" "decodeObject_loop [] r2 = Inr (u, q')" for r1 c r2 u q'
    using that 1(3) by (intro consumes_trans [OF read_consumes(2) [OF that(1)]] consumes_trans [OF read_consumes(4) [OF that(2)]]) simp
  show ?case using 1(4) unfolding Decode.psimps [OF 1(1)] bind_result_Inr_iff
    by (auto split: if_splits simp: bind_result_Inr_iff intro: leaf obj arr)
next
  case (2 obj r)
  have fin: "consumes r q'" if "read_be16 r = Inr (n, r1)" "read_u8 r1 = Inr (m, q')" for n r1 m q'
    using that by (auto intro: consumes_trans read_consumes)
  have more: "consumes r q'"
    if rd: "read_be16 r = Inr (n, r1)" "n \<noteq> 0" "io_ReadFull (unat n) r1 = Inr (k, r2)"
      "Decode r2 = Inr (v, r3)" "decodeObject_loop (gomap_set (bytes_str k) v obj) r3 = Inr (u, q')"
    for n r1 k r2 v r3 u q'
  proof -
    have "consumes r r1" using rd(1) by (rule read_consumes)
    also have "consumes r1 r2" using rd(2,3) by (intro read_consumes(1)) (auto simp: unat_gt_0)
    also have "consumes r2 r3" using rd 2(2) by simp
    also have "consumes r3 q'" using rd 2(3) by simp
    finally show ?thesis .
  qed
  show ?case using 2(4) unfolding decodeObject_loop.psimps [OF 2(1)] bind_result_Inr_iff
    by (auto split: if_splits simp: bind_result_Inr_iff intro: fin more)
qed

lemma Decode_all_dom: "All Decode_decodeObject_loop_dom"
proof (relation "measure (case_sum length (length \<circ> snd))", goal_cases)
  case 1 show ?case by simp
next
  case 2 then show ?case by (auto dest!: read_length)
next
  case 3 then show ?case by (auto dest!: read_length)
next
  case 4 then show ?case by (auto dest!: read_length io_ReadFull_length)
next
  case 5 then show ?case
    by (fastforce dest!: read_length io_ReadFull_length Decode_dom_consumes(1) consumes_length)
qed

termination Decode
  by (rule Decode_all_dom)

lemma Decode_consumes: "Decode r = Inr (v, r') \<Longrightarrow> consumes r r'"
  by (rule Decode_dom_consumes(1) [OF Decode_all_dom [THEN spec]])

declare Decode.simps [simp del] decodeObject_loop.simps [simp del]

definition decodeObject :: "bytes \<Rightarrow> (Object \<times> bytes) result" where
  "decodeObject r = decodeObject_loop [] r"

definition decodeECMAArray :: "bytes \<Rightarrow> (Object \<times> bytes) result" where
  "decodeECMAArray r = bind_result (read_be32 r) (\<lambda>(count, r). decodeObject r)"

function DecodeCommand_loop :: "Value list \<Rightarrow> bytes \<Rightarrow> Value list result" where
  "DecodeCommand_loop arr r =
     (case Decode r of
        Inl e \<Rightarrow>
          if e = EOF \<or> e = ErrUnexpectedEOF then Inr arr
          else if length arr \<ge> 1 then Inr arr
          else Inl e
      | Inr (val, r') \<Rightarrow> DecodeCommand_loop (arr @ [val]) r')"
  by pat_completeness auto
termination
  by (relation "measure (length \<circ> snd)") (auto dest: Decode_consumes consumes_length)

declare DecodeCommand_loop.simps [simp del]

definition DecodeCommand :: "bytes \<Rightarrow> Value list result" where
  "DecodeCommand r = DecodeCommand_loop [] r"

section \<open>Values that survive the wire\<close>

text \<open>
  Strings fit their 16-bit length, an object has distinct non-empty keys, and there are no
  strict arrays: the decoder has no case for the marker the encoder writes for them.
\<close>

fun amf_ok :: "Value \<Rightarrow> bool" and fields_ok :: "(string \<times> Value) list \<Rightarrow> bool" where
  "amf_ok (AmfNumber v) = True"
| "amf_ok (AmfBool v) = True"
| "amf_ok (AmfString s) = (length s < 2 ^ 16)"
| "amf_ok AmfNull = True"
| "amf_ok (AmfObject obj) = (distinct (map fst obj) \<and> fields_ok obj)"
| "amf_ok (AmfArray arr) = False"
| "amf_ok AmfOther = False"
| "fields_ok [] = True"
| "fields_ok ((k, v) # obj) = (k \<noteq> [] \<and> length k < 2 ^ 16 \<and> amf_ok v \<and> fields_ok obj)"

lemma unat_length16: "n < 2 ^ 16 \<Longrightarrow> unat (of_nat n :: u16) = n"
  by (simp add: unat_of_nat)

lemma length16_0: "n < 2 ^ 16 \<Longrightarrow> (of_nat n :: u16) = 0 \<longleftrightarrow> n = 0"
  using unat_length16 [of n] by (auto simp: unat_eq_0 [symmetric])

lemma decodeString_encoded:
  "length s < 2 ^ 16 \<Longrightarrow> decodeString (put_be16 (of_nat (length s)) @ str_bytes s @ r) = Inr (s, r)"
  by (simp add: decodeString_def length16_0 unat_length16)

lemma gomap_set_new: "k \<notin> set (map fst m) \<Longrightarrow> gomap_set k v m = m @ [(k, v)]"
  by (induction m) (auto simp: gomap_set_def)

lemma Decode_Encode:
  "amf_ok v \<Longrightarrow> Decode (Encode v @ r) = Inr (v, r)"
  "fields_ok obj \<Longrightarrow> distinct (map fst (acc @ obj)) \<Longrightarrow>
     decodeObject_loop acc (encodeFields obj @ put_be16 0 @ [TypeObjectEnd] @ r) = Inr (acc @ obj, r)"
  "items = (items :: Value list)"
proof (induction v and obj and items arbitrary: r and acc r rule: Encode_encodeFields_encodeItems.induct)
  case (5 obj)
  from 5(1) [of "[]" r] 5(2) have "decodeObject_loop [] (encodeFields obj @ put_be16 0 @ [TypeObjectEnd] @ r) = Inr (obj, r)"
    by simp
  then show ?case by (simp add: Decode.simps)
next
  case 8
  have "decodeObject_loop acc (put_be16 0 @ TypeObjectEnd # r) = Inr (acc, r)"
    by (simp add: decodeObject_loop.simps)
  then show ?case by simp
next
  case (9 key val obj)
  have ok: "length key < 2 ^ 16" "key \<noteq> []" "key \<notin> set (map fst acc)" using 9(3,4) by auto
  have "Decode (Encode val @ encodeFields obj @ put_be16 0 @ [TypeObjectEnd] @ r) =
      Inr (val, encodeFields obj @ put_be16 0 @ [TypeObjectEnd] @ r)"
    using 9(3) by (intro 9(1)) simp
  moreover have "decodeObject_loop (acc @ [(key, val)]) (encodeFields obj @ put_be16 0 @ [TypeObjectEnd] @ r) =
      Inr ((acc @ [(key, val)]) @ obj, r)"
    using 9(3,4) by (intro 9(2)) auto
  ultimately show ?case using ok
    by (subst decodeObject_loop.simps) (simp add: length16_0 unat_length16 gomap_set_new)
qed (auto simp: Decode.simps encodeNumber_def encodeBoolean_def encodeString_def encodeNull_def
      decodeNumber_def decodeBoolean_def decodeString_encoded)

interpretation amfc: codec Encode Decode amf_ok
  by unfold_locales (rule Decode_Encode)

lemma DecodeCommand_loop_items:
  "list_all amf_ok arr \<Longrightarrow> DecodeCommand_loop acc (encodeItems arr) = Inr (acc @ arr)"
proof (induction arr arbitrary: acc)
  case Nil
  have "Decode [] = Inl EOF" by (simp add: Decode.simps)
  then show ?case by (simp add: DecodeCommand_loop.simps)
next
  case (Cons v arr)
  then show ?case
    by (subst DecodeCommand_loop.simps) (simp add: amfc.dec_enc)
qed

lemma Decode_errors:
  "Decode r = Inl e \<Longrightarrow> e \<in> {EOF, ErrUnexpectedEOF, ErrUnexpectedType, ErrInvalidData}"
  "decodeObject_loop obj q = Inl e' \<Longrightarrow> e' \<in> {EOF, ErrUnexpectedEOF, ErrUnexpectedType, ErrInvalidData}"
proof (induction r and obj q arbitrary: e and e' rule: Decode_decodeObject_loop.induct)
  case (1 r)
  have obj: "e \<in> {EOF, ErrUnexpectedEOF, ErrUnexpectedType, ErrInvalidData}"
    if "read_u8 r = Inr (TypeObject, r1)" "decodeObject_loop [] r1 = Inl e" for r1 e
    using that 1(1) by simp
  have arr: "e \<in> {EOF, ErrUnexpectedEOF, ErrUnexpectedType, ErrInvalidData}"
    if "read_u8 r = Inr (TypeECMAArray, r1)" "read_be32 r1 = Inr (c, r2)" "decodeObject_loop [] r2 = Inl e" for r1 c r2 e
    using that 1(2) by simp
  show ?case using 1(3) unfolding Decode.simps [of r] bind_result_Inl_iff
    by (auto simp: bind_result_Inl_iff decodeNumber_def decodeBoolean_def decodeString_def
        split: if_splits dest: read_errors obj arr)
next
  case (2 obj r)
  have val: "e \<in> {EOF, ErrUnexpectedEOF, ErrUnexpectedType, ErrInvalidData}"
    if "read_be16 r = Inr (n, r1)" "n \<noteq> 0" "io_ReadFull (unat n) r1 = Inr (k, r2)" "Decode r2 = Inl e" for n r1 k r2 e
    using that 2(1) by simp
  have rest: "e \<in> {EOF, ErrUnexpectedEOF, ErrUnexpectedType, ErrInvalidData}"
    if "read_be16 r = Inr (n, r1)" "n \<noteq> 0" "io_ReadFull (unat n) r1 = Inr (k, r2)"
      "Decode r2 = Inr (v, r3)" "decodeObject_loop (gomap_set (bytes_str k) v obj) r3 = Inl e" for n r1 k r2 v r3 e
    using that 2(2) by simp
  show ?case using 2(3) unfolding decodeObject_loop.simps [of obj r] bind_result_Inl_iff
    by (auto simp: bind_result_Inl_iff split: if_splits dest: read_errors val rest)
qed

text \<open>What the decoder returns is well formed.\<close>

lemma gomap_set_keys: "distinct (map fst m) \<Longrightarrow> distinct (map fst (gomap_set k v m))"
  by (simp add: gomap_set_def distinct_update)

lemma fields_ok_iff: "fields_ok obj \<longleftrightarrow> (\<forall>(k, v) \<in> set obj. k \<noteq> [] \<and> length k < 2 ^ 16 \<and> amf_ok v)"
  by (induction obj) auto

lemma fields_ok_set: "fields_ok obj \<Longrightarrow> k \<noteq> [] \<Longrightarrow> length k < 2 ^ 16 \<Longrightarrow> amf_ok v \<Longrightarrow> fields_ok (gomap_set k v obj)"
  by (induction obj) (auto simp: gomap_set_def)

lemma read_string_length: "io_ReadFull (unat (n :: u16)) r = Inr (b, r') \<Longrightarrow> length (bytes_str b) = unat n \<and> length (bytes_str b) < 2 ^ 16"
  using unsigned_less [where ?'a = nat, of n] by (auto simp: bytes_str_def dest: io_ReadFull_exact)

lemma decodeString_ok: "decodeString r = Inr (s, r') \<Longrightarrow> length s < 2 ^ 16"
  by (auto simp: decodeString_def bind_result_Inr_iff split: if_splits dest: read_string_length)

lemma Decode_ok:
  "Decode r = Inr (v, r') \<Longrightarrow> amf_ok v"
  "decodeObject_loop obj q = Inr (u, q') \<Longrightarrow> distinct (map fst obj) \<Longrightarrow> fields_ok obj \<Longrightarrow> distinct (map fst u) \<and> fields_ok u"
proof (induction r and obj q arbitrary: v r' and u q' rule: Decode_decodeObject_loop.induct)
  case (1 r)
  have obj: "amf_ok (AmfObject o')" if "read_u8 r = Inr (TypeObject, r1)" "decodeObject_loop [] r1 = Inr (o', q')" for r1 o' q'
    using that 1(1) by simp
  have arr: "amf_ok (AmfObject o')"
    if "read_u8 r = Inr (TypeECMAArray, r1)" "read_be32 r1 = Inr (c, r2)" "decodeObject_loop [] r2 = Inr (o', q')" for r1 c r2 o' q'
    using that 1(2) by simp
  show ?case using 1(3) unfolding Decode.simps [of r] bind_result_Inr_iff
    by (auto simp: bind_result_Inr_iff split: if_splits dest: decodeString_ok obj arr)
next
  case (2 obj r)
  have rest: "distinct (map fst u) \<and> fields_ok u"
    if n: "read_be16 r = Inr (n, r1)" "n \<noteq> 0" and k: "io_ReadFull (unat n) r1 = Inr (k, r2)"
      and v: "Decode r2 = Inr (val, r3)" and l: "decodeObject_loop (gomap_set (bytes_str k) val obj) r3 = Inr (u, q')" for n r1 k r2 val r3
  proof -
    have "amf_ok val" using 2(1) n k v by simp
    moreover have "bytes_str k \<noteq> []" "length (bytes_str k) < 2 ^ 16"
      using read_string_length [OF k] n(2) by (auto simp: unat_eq_0)
    ultimately show ?thesis
      using 2(2) [OF n(1) refl n(2) k refl v refl l] gomap_set_keys [OF 2(4)] fields_ok_set [OF 2(5)] by simp
  qed
  show ?case using 2(3-5) unfolding decodeObject_loop.simps [of obj r] bind_result_Inr_iff
    by (auto simp: bind_result_Inr_iff split: if_splits dest: rest)
qed
lemma DecodeCommand_loop_ok: "DecodeCommand_loop acc r = Inr cmd \<Longrightarrow> list_all amf_ok acc \<Longrightarrow> list_all amf_ok cmd"
proof (induction acc r arbitrary: cmd rule: DecodeCommand_loop.induct)
  case (1 acc r)
  show ?case
  proof (cases "Decode r")
    case (Inl e)
    then show ?thesis using 1(2,3) by (subst (asm) DecodeCommand_loop.simps) (auto split: if_splits)
  next
    case (Inr x)
    obtain v r' where x: "x = (v, r')" by (cases x)
    have "amf_ok v" using Decode_ok(1) Inr x by blast
    then show ?thesis using 1 Inr x by (subst (asm) (2) DecodeCommand_loop.simps) auto
  qed
qed

text \<open>Nesting: the depth of a value, and the bytes of \<open>n\<close> objects inside each other.\<close>

fun amf_depth :: "Value \<Rightarrow> nat" where
  "amf_depth (AmfObject [(k, v)]) = Suc (amf_depth v)"
| "amf_depth _ = 0"

fun nested :: "nat \<Rightarrow> Value" where
  "nested 0 = AmfNull"
| "nested (Suc n) = AmfObject [(''a'', nested n)]"

lemma nested_facts: "amf_ok (nested n)" "length (Encode (nested n)) = 7 * n + 1" "amf_depth (nested n) = n"
  by (induction n) (simp_all add: encodeNull_def)

section \<open>Properties\<close>



text \<open>
  Decoding any input ends, and a value that is returned was read from a non-empty prefix
  of the input: what is left over is a proper suffix.
\<close>

lemma Decode_consumes_prefix:
  "case Decode r of
     Inl e \<Rightarrow> e \<in> {EOF, ErrUnexpectedEOF, ErrUnexpectedType, ErrInvalidData}
   | Inr (v, r') \<Rightarrow> \<exists>u. u \<noteq> [] \<and> r = u @ r'"
proof (cases "Decode r")
  case (Inl e)
  then show ?thesis using Decode_errors(1) by simp
next
  case (Inr x)
  then obtain v r' where x: "Decode r = Inr (v, r')" by (cases x) auto
  from Decode_consumes [OF x] x show ?thesis by (simp add: consumes_def)
qed

text \<open>
  C15. Whatever bytes a peer sends, the values of a decoded command are well formed: strings and
  field names fit their 16-bit lengths, field names are not empty and no object has the same
  one twice. So every command that was decoded survives being encoded and decoded again.
\<close>

theorem decoded_command_well_formed:
  assumes "DecodeCommand r = Inr command"
  shows "list_all amf_ok command \<and> bind_result (EncodeCommand command) DecodeCommand = Inr command"
proof -
  have "list_all amf_ok command" using DecodeCommand_loop_ok [of "[]" r command] assms by (simp add: DecodeCommand_def)
  then show ?thesis using DecodeCommand_loop_items [of command "[]"] by (simp add: EncodeCommand_def DecodeCommand_def)
qed

theorem decoded_command_well_formed_witness:
  "DecodeCommand [5] = Inr [AmfNull] \<and> bind_result (EncodeCommand [AmfNull]) DecodeCommand = Inr [AmfNull]"
proof -
  have "DecodeCommand [5] = Inr [AmfNull]" by (simp add: DecodeCommand_def DecodeCommand_loop.simps Decode.simps)
  with decoded_command_well_formed [OF this] show ?thesis by blast
qed

text \<open>
  The encoder writes strict arrays, the decoder rejects them: no value with an array
  comes back from its own encoding, and a command whose first value is one is an error.
\<close>

theorem strict_array_not_decoded:
  "Decode (Encode (AmfArray arr) @ r) = Inl ErrUnexpectedType \<and>
   bind_result (EncodeCommand (AmfArray arr # rest)) DecodeCommand = Inl ErrUnexpectedType"
proof -
  have d: "Decode (Encode (AmfArray arr) @ q) = Inl ErrUnexpectedType" for q by (simp add: Decode.simps)
  then show ?thesis
    by (simp add: EncodeCommand_def DecodeCommand_def DecodeCommand_loop.simps del: Encode.simps)
qed

text \<open>
  Nothing bounds the nesting a peer can make the recursive decoder go through: for every
  depth there is a value of that depth in seven bytes per level, and it is decoded.
\<close>

theorem decode_depth_unbounded:
  "\<exists>r v. length r = 7 * n + 1 \<and> Decode r = Inr (v, []) \<and> amf_depth v = n"
  using nested_facts [of n] amfc.dec_enc_exact [of "nested n"] by blast

end
