(* ===== verification/Go_Strings.thy ===== *)
theory Go_Strings
  imports Main "HOL-Library.Sublist"
begin

text \<open>
  The functions of Go's \<open>strings\<close>, \<open>net/url\<close> and \<open>path\<close> packages the program calls, on
  strings as lists of bytes (\<open>char\<close>).
\<close>

section \<open>Package strings\<close>

definition HasPrefix :: "string \<Rightarrow> string \<Rightarrow> bool" where
  "HasPrefix s p \<longleftrightarrow> take (length p) s = p"

definition HasSuffix :: "string \<Rightarrow> string \<Rightarrow> bool" where
  "HasSuffix s x \<longleftrightarrow> length x \<le> length s \<and> drop (length s - length x) s = x"

definition TrimPrefix :: "string \<Rightarrow> string \<Rightarrow> string" where
  "TrimPrefix s p = (if HasPrefix s p then drop (length p) s else s)"

definition TrimSuffix :: "string \<Rightarrow> string \<Rightarrow> string" where
  "TrimSuffix s x = (if HasSuffix s x then take (length s - length x) s else s)"

text \<open>\<open>Cut\<close> around the first separator character; the flag tells whether it was found.\<close>

fun Cut :: "string \<Rightarrow> char \<Rightarrow> string \<times> string \<times> bool" where
  "Cut [] sep = ([], [], False)"
| "Cut (x # s) sep =
     (if x = sep then ([], s, True)
      else (case Cut s sep of (before, after, found) \<Rightarrow> (x # before, after, found)))"

definition IndexByte :: "string \<Rightarrow> char \<Rightarrow> nat option" where
  "IndexByte s c = (case Cut s c of (before, _, True) \<Rightarrow> Some (length before) | _ \<Rightarrow> None)"

definition ContainsChar :: "string \<Rightarrow> char \<Rightarrow> bool" where
  "ContainsChar s c \<longleftrightarrow> c \<in> set s"

text \<open>\<open>SplitN s sep 2\<close> and \<open>Split s sep\<close> for a separator of one character.\<close>

definition SplitN2 :: "string \<Rightarrow> char \<Rightarrow> string list" where
  "SplitN2 s sep = (case Cut s sep of (before, after, True) \<Rightarrow> [before, after] | _ \<Rightarrow> [s])"

fun Split :: "string \<Rightarrow> char \<Rightarrow> string list" where
  "Split [] sep = [[]]"
| "Split (x # s) sep =
     (if x = sep then [] # Split s sep
      else (case Split s sep of [] \<Rightarrow> [[x]] | w # ws \<Rightarrow> (x # w) # ws))"

text \<open>\<open>TrimSpace\<close>: the UTF-8 sequences of the characters for which \<open>unicode.IsSpace\<close> holds.\<close>

definition space_runes :: "string list" where
  "space_runes =
     map (\<lambda>n. [char_of n]) [9, 10, 11, 12, 13, 32 :: nat] @
     map (map char_of) ([[0xC2, 0x85], [0xC2, 0xA0], [0xE1, 0x9A, 0x80]] @
       map (\<lambda>n. [0xE2, 0x80, 0x80 + n]) [0 ..< 11] @
       [[0xE2, 0x80, 0xA8], [0xE2, 0x80, 0xA9], [0xE2, 0x80, 0xAF], [0xE2, 0x81, 0x9F], [0xE3, 0x80, 0x80 :: nat]])"

function trim_left :: "string list \<Rightarrow> string \<Rightarrow> string" where
  "trim_left ps s =
     (case find (\<lambda>p. p \<noteq> [] \<and> HasPrefix s p) ps of
        None \<Rightarrow> s
      | Some p \<Rightarrow> trim_left ps (drop (length p) s))"
  by pat_completeness auto
termination
proof (relation "measure (length \<circ> snd)")
  fix ps s p assume "find (\<lambda>p. p \<noteq> [] \<and> HasPrefix s p) ps = Some p"
  then have "p \<noteq> []" "HasPrefix s p" by (auto simp: find_Some_iff)
  then show "((ps, drop (length p) s), (ps, s)) \<in> measure (length \<circ> snd)"
    by (cases s) (auto simp: HasPrefix_def)
qed simp

declare trim_left.simps [simp del]

definition TrimSpace :: "string \<Rightarrow> string" where
  "TrimSpace s = rev (trim_left (map rev space_runes) (rev (trim_left space_runes s)))"

section \<open>Package net/url\<close>

definition unhex :: "char \<Rightarrow> nat option" where
  "unhex c =
     (let n = of_char c :: nat in
      if 48 \<le> n \<and> n \<le> 57 then Some (n - 48)
      else if 97 \<le> n \<and> n \<le> 102 then Some (n - 97 + 10)
      else if 65 \<le> n \<and> n \<le> 70 then Some (n - 65 + 10)
      else None)"

text \<open>\<open>QueryUnescape\<close>: \<open>None\<close> is an \<open>EscapeError\<close>.\<close>

fun QueryUnescape :: "string \<Rightarrow> string option" where
  "QueryUnescape [] = Some []"
| "QueryUnescape (c # s) =
     (if c = CHR ''%'' then
        (case s of
           a # b # s' \<Rightarrow>
             (case (unhex a, unhex b) of
                (Some h, Some l) \<Rightarrow> map_option (\<lambda>t. char_of (16 * h + l) # t) (QueryUnescape s')
              | _ \<Rightarrow> None)
         | _ \<Rightarrow> None)
      else map_option (\<lambda>t. (if c = CHR ''+'' then CHR '' '' else c) # t) (QueryUnescape s))"

text \<open>
  \<open>ParseQuery\<close>: the values in order of appearance and whether an error occurred. A part with
  a semicolon or a bad escape is skipped and makes the error.
\<close>

definition parse_part :: "string \<Rightarrow> (string \<times> string) option \<times> bool" where
  "parse_part p =
     (if ContainsChar p (CHR '';'') then (None, True)
      else if p = [] then (None, False)
      else
        (case Cut p (CHR ''='') of (key, val, _) \<Rightarrow>
           (case QueryUnescape key of
              None \<Rightarrow> (None, True)
            | Some k \<Rightarrow>
                (case QueryUnescape val of
                   None \<Rightarrow> (None, True)
                 | Some v \<Rightarrow> (Some (k, v), False)))))"

definition ParseQuery :: "string \<Rightarrow> (string \<times> string) list \<times> bool" where
  "ParseQuery query =
     (let parts = map parse_part (Split query (CHR ''&''))
      in (List.map_filter fst parts, \<exists>p \<in> set parts. snd p))"

text \<open>\<open>Values.Get\<close>: the first value of the key, or the empty string.\<close>

definition Values_Get :: "(string \<times> string) list \<Rightarrow> string \<Rightarrow> string" where
  "Values_Get vs k = (case find (\<lambda>(k', _). k' = k) vs of None \<Rightarrow> '''' | Some (_, v) \<Rightarrow> v)"

section \<open>Lemmas\<close>

lemma Cut_append: "c \<notin> set a \<Longrightarrow> Cut (a @ c # b) c = (a, b, True)"
  by (induction a) auto

lemma Cut_absent: "c \<notin> set a \<Longrightarrow> Cut a c = (a, [], False)"
  by (induction a) auto

lemma Cut_found: "Cut s c = (a, b, True) \<Longrightarrow> s = a @ c # b \<and> c \<notin> set a"
  by (induction s c arbitrary: a b rule: Cut.induct) (auto split: if_splits prod.splits)

lemma Cut_not_found: "Cut s c = (a, b, False) \<Longrightarrow> s = a \<and> b = [] \<and> c \<notin> set s"
  by (induction s c arbitrary: a b rule: Cut.induct) (auto split: if_splits prod.splits)

lemma Split_absent: "c \<notin> set s \<Longrightarrow> Split s c = [s]"
  by (induction s) auto

lemma Split_nonempty: "Split s c \<noteq> []"
  by (induction s) (auto split: list.splits)

lemma Split_sep_free: "w \<in> set (Split s c) \<Longrightarrow> c \<notin> set w"
proof (induction s arbitrary: w)
  case (Cons x s)
  then show ?case using Split_nonempty [of s c] by (cases "Split s c") (auto split: if_splits)
qed simp

lemma HasPrefix_iff: "HasPrefix s p \<longleftrightarrow> prefix p s"
  by (metis HasPrefix_def append_eq_conv_conj prefix_def)

lemma HasSuffix_iff: "HasSuffix s x \<longleftrightarrow> suffix x s"
  by (metis HasSuffix_def append_take_drop_id diff_diff_cancel length_drop suffix_def suffix_length_le
      append_eq_append_conv length_append add_diff_cancel_right')

lemma TrimSuffix_append: "TrimSuffix (a @ x) x = a"
  by (simp add: TrimSuffix_def HasSuffix_def)

text \<open>Plain text is its own unescaping.\<close>

lemma QueryUnescape_plain: "CHR ''%'' \<notin> set s \<Longrightarrow> CHR ''+'' \<notin> set s \<Longrightarrow> QueryUnescape s = Some s"
  by (induction s) auto

end
