(* ===== verification/Auth.thy ===== *)
theory Auth
  imports Go_Strings
begin

text \<open>
  Pre-shared-key authentication: the key set (\<open>internal/auth/keys.go\<close>), the HTTP gate of the
  play endpoints (\<open>internal/auth/play.go\<close>) and the RTMP side with the key in the stream name
  (\<open>internal/svc/rtmp/auth.go\<close>). A nil key set is \<open>None\<close>: authentication is off.
\<close>

section \<open>Definitions\<close>

type_synonym KeySet = "string list"

text \<open>\<open>subtle.ConstantTimeCompare\<close>: 1 exactly for equal contents.\<close>

definition ConstantTimeCompare :: "string \<Rightarrow> string \<Rightarrow> nat" where
  "ConstantTimeCompare x y = (if length x = length y \<and> list_all2 (=) x y then 1 else 0)"

definition NewKeySet :: "string list \<Rightarrow> KeySet option" where
  "NewKeySet keys =
     (let out = filter (\<lambda>k. k \<noteq> '''') (map TrimSpace keys)
      in if length out = 0 then None else Some out)"

definition KeySet_Allow :: "KeySet option \<Rightarrow> string \<Rightarrow> bool" where
  "KeySet_Allow a key =
     (case a of
        None \<Rightarrow> True
      | Some keys \<Rightarrow>
          if key = '''' then False
          else list_ex (\<lambda>want. ConstantTimeCompare key want = 1) keys)"

text \<open>
  What a handler answers: an error status with its text, or what the next handler does.
  \<open>rawQuery\<close> is the request's query string; \<open>URL.Query\<close> drops the parse error.
\<close>

datatype 'a http_result = HttpError nat string | Served 'a

definition Gate :: "KeySet option \<Rightarrow> ('r \<Rightarrow> string) \<Rightarrow> ('r \<Rightarrow> 'a http_result) \<Rightarrow> 'r \<Rightarrow> 'a http_result" where
  "Gate ks rawQuery nxt =
     (case ks of
        None \<Rightarrow> nxt
      | Some _ \<Rightarrow>
          (\<lambda>r. if \<not> KeySet_Allow ks (Values_Get (fst (ParseQuery (rawQuery r))) ''key'')
               then HttpError 401 ''unauthorized''
               else nxt r))"

definition NewAuthenticator :: "string list \<Rightarrow> KeySet option" where
  "NewAuthenticator keys = NewKeySet keys"

definition ParseStreamName :: "string \<Rightarrow> string \<times> string" where
  "ParseStreamName raw =
     (case IndexByte raw (CHR ''?'') of
        None \<Rightarrow> (raw, '''')
      | Some idx \<Rightarrow>
          let name = take idx raw
          in (case ParseQuery (drop (idx + 1) raw) of
                (q, True) \<Rightarrow> (name, '''')
              | (q, False) \<Rightarrow> (name, Values_Get q ''key'')))"

section \<open>Lemmas\<close>

lemma ConstantTimeCompare_iff: "ConstantTimeCompare x y = 1 \<longleftrightarrow> x = y"
  by (auto simp: ConstantTimeCompare_def list.rel_eq)

lemma Allow_NewKeySet:
  "KeySet_Allow (NewKeySet keys) key \<longleftrightarrow>
     (\<forall>k \<in> set keys. TrimSpace k = '''') \<or> key \<noteq> '''' \<and> key \<in> TrimSpace ` set keys"
  by (auto simp: KeySet_Allow_def NewKeySet_def Let_def list_ex_iff ConstantTimeCompare_iff [unfolded One_nat_def] filter_empty_conv
      split: option.splits)

lemma IndexByte_append: "c \<notin> set a \<Longrightarrow> IndexByte (a @ c # b) c = Some (length a)"
  by (simp add: IndexByte_def Cut_append)

lemma ParseStreamName_parts:
  "ParseStreamName raw = (name, key) \<Longrightarrow>
     CHR ''?'' \<notin> set name \<and> (raw = name \<and> key = '''' \<or> (\<exists>q. raw = name @ CHR ''?'' # q))"
  by (auto simp: ParseStreamName_def IndexByte_def Let_def split: option.splits prod.splits bool.splits
      dest!: Cut_found Cut_not_found)

lemma ParseQuery_key:
  assumes "set k \<inter> {CHR ''&'', CHR '';'', CHR ''%'', CHR ''+''} = {}"
  shows "ParseQuery (''key='' @ k) = ([(''key'', k)], False)"
proof -
  have "CHR ''&'' \<notin> set (''key='' @ k)" "CHR '';'' \<notin> set (''key='' @ k)" using assms by auto
  moreover have "Cut (''key='' @ k) (CHR ''='') = (''key'', k, True)"
    using Cut_append [of "CHR ''=''" "''key''" k] by simp
  moreover have "QueryUnescape k = Some k" using assms by (intro QueryUnescape_plain) auto
  ultimately show ?thesis
    by (simp add: ParseQuery_def Split_absent parse_part_def ContainsChar_def List.map_filter_def)
qed

lemma ParseStreamName_key:
  assumes "CHR ''?'' \<notin> set name" "set k \<inter> {CHR ''&'', CHR '';'', CHR ''%'', CHR ''+''} = {}"
  shows "ParseStreamName (name @ ''?key='' @ k) = (name, k)"
  using IndexByte_append [OF assms(1), of "''key='' @ k"] ParseQuery_key [OF assms(2)]
  by (simp add: ParseStreamName_def Values_Get_def)

section \<open>Properties\<close>

text \<open>
  C16. With at least one non-blank configured key, a key is allowed exactly when it is
  non-empty and equal to one of the configured keys after trimming, so blank entries open
  nothing; with no usable key at all authentication is off. The gate lets a request through
  to the protected handler in exactly these cases and otherwise answers 401.
\<close>

theorem gate_lets_through_iff:
  "Gate (NewKeySet keys) rawQuery nxt r =
     (if (\<forall>k \<in> set keys. TrimSpace k = '''') \<or>
         (\<exists>k \<in> set keys. TrimSpace k \<noteq> '''' \<and>
            Values_Get (fst (ParseQuery (rawQuery r))) ''key'' = TrimSpace k)
      then nxt r else HttpError 401 ''unauthorized'')"
proof (cases "NewKeySet keys")
  case None
  then have "\<forall>k \<in> set keys. TrimSpace k = ''''"
    by (auto simp: NewKeySet_def Let_def filter_empty_conv split: if_splits)
  then show ?thesis using None by (simp add: Gate_def)
next
  case (Some a)
  then show ?thesis
    using Allow_NewKeySet [of keys "Values_Get (fst (ParseQuery (rawQuery r))) ''key''"]
    by (auto simp: Gate_def)
qed

theorem gate_lets_through_iff_witness:
  "Gate (NewKeySet [''secret'']) (\<lambda>q. q) Served ''key=wrong'' = (HttpError 401 ''unauthorized'' :: string http_result) \<and>
   Gate (NewKeySet [''secret'']) (\<lambda>q. q) Served ''key=secret'' = Served ''key=secret''"
proof -
  have "TrimSpace ''secret'' = ''secret''"
    by (simp add: TrimSpace_def trim_left.simps space_runes_def HasPrefix_def upt_rec char_of_def)
  moreover have "ParseQuery ''key=wrong'' = ([(''key'', ''wrong'')], False)"
    "ParseQuery ''key=secret'' = ([(''key'', ''secret'')], False)"
    using ParseQuery_key [of "''wrong''"] ParseQuery_key [of "''secret''"] by auto
  ultimately show ?thesis
    unfolding gate_lets_through_iff by (simp add: Values_Get_def)
qed

text \<open>
  \<open>ParseStreamName\<close> separates the name from the key: the name is everything before the
  first question mark, and the key of a query \<open>key=...\<close> without special characters comes
  back as it is.
\<close>

theorem ParseStreamName_roundtrip:
  assumes "CHR ''?'' \<notin> set name" "set k \<inter> {CHR ''&'', CHR '';'', CHR ''%'', CHR ''+''} = {}"
  shows "ParseStreamName (name @ ''?key='' @ k) = (name, k) \<and> ParseStreamName name = (name, '''')"
  using ParseStreamName_key [OF assms] assms(1)
  by (simp add: ParseStreamName_def IndexByte_def Cut_absent)

theorem ParseStreamName_roundtrip_witness:
  "ParseStreamName ''cam?key=s3cret'' = (''cam'', ''s3cret'') \<and> ParseStreamName ''cam'' = (''cam'', '''')"
  using ParseStreamName_roundtrip [of "''cam''" "''s3cret''"] by simp

end
