(* ===== verification/SharedLog.thy ===== *)
theory SharedLog
  imports Arena
begin

text \<open>
  The per-stream shared log (\<open>internal/core/bus/sharedlog.go\<close>): a power-of-two ring of
  message pointers, one producer, any number of cursors. The log is polymorphic in the
  pointer type; a slot holds \<open>None\<close> for the nil pointer. The lemmas show that the log
  refines the history of everything published: a read returns the oldest message that is
  still available at or after the cursor and reports exactly what it jumped over.
\<close>

section \<open>Definitions\<close>

record 'm SharedLog =
  sl_buf :: "'m option list"
  sl_mask :: u64
  sl_size :: u64
  sl_nextSeq :: u64

text \<open>\<open>None\<close>: the rounding loop does not end (\<open>NewSharedLog_total\<close>: it always does).\<close>

definition NewSharedLog :: "u32 \<Rightarrow> 'm SharedLog option" where
  "NewSharedLog capacity =
     (case pow2_loop (1 :: u64) (ucast capacity) of
        None \<Rightarrow> None
      | Some sz \<Rightarrow> Some \<lparr>sl_buf = replicate (unat sz) None, sl_mask = sz - 1,
                        sl_size = sz, sl_nextSeq = 0\<rparr>)"

definition SharedLog_Publish :: "'m option \<Rightarrow> 'm SharedLog \<Rightarrow> 'm SharedLog \<times> u64" where
  "SharedLog_Publish msg l =
     (case msg of
        None \<Rightarrow> (l, sl_nextSeq l)
      | Some m \<Rightarrow>
          let sq = sl_nextSeq l + 1
          in (l\<lparr>sl_nextSeq := sq,
               sl_buf := (sl_buf l)[unat ((sq - 1) AND sl_mask l) := Some m]\<rparr>, sq))"

definition SharedLog_LatestSeq :: "'m SharedLog \<Rightarrow> u64" where
  "SharedLog_LatestSeq l = sl_nextSeq l"

definition SharedLog_Size :: "'m SharedLog \<Rightarrow> u64" where
  "SharedLog_Size l = sl_size l"

record 'm readResult =
  rr_msg :: "'m option"
  rr_skipped :: u64

definition SharedLog_readAt :: "u64 \<Rightarrow> 'm SharedLog \<Rightarrow> u64 \<times> 'm readResult \<times> bool" where
  "SharedLog_readAt at l =
     (let pubSeq = sl_nextSeq l in
      if at \<ge> pubSeq then (at, \<lparr>rr_msg = None, rr_skipped = 0\<rparr>, False)
      else
        (let gap = pubSeq - at;
             skipped = (if gap > sl_size l then gap - sl_size l else 0);
             at' = (if gap > sl_size l then pubSeq - sl_size l else at)
         in (at' + 1, \<lparr>rr_msg = sl_buf l ! unat (at' AND sl_mask l), rr_skipped = skipped\<rparr>, True)))"

lemmas log_defs [bus_defs] = SharedLog_Publish_def SharedLog_LatestSeq_def SharedLog_readAt_def

section \<open>The history a log stands for\<close>

text \<open>
  \<open>log_rep l h\<close>: the log \<open>l\<close> has been through exactly the publications \<open>h\<close>, oldest first.
  The bound keeps the 64-bit sequence number from wrapping.
\<close>

definition log_shape :: "'m SharedLog \<Rightarrow> bool" where
  "log_shape l \<longleftrightarrow>
     (\<exists>k < 64. sl_size l = 2 ^ k \<and> sl_mask l = 2 ^ k - 1 \<and> length (sl_buf l) = 2 ^ k)"

definition log_rep :: "'m SharedLog \<Rightarrow> 'm list \<Rightarrow> bool" where
  "log_rep l h \<longleftrightarrow> log_shape l \<and> length h < 2 ^ 64 \<and> sl_nextSeq l = word_of_nat (length h) \<and>
     (\<forall>i < length h. length h - i \<le> unat (sl_size l) \<longrightarrow>
        sl_buf l ! (i mod unat (sl_size l)) = Some (h ! i))"

text \<open>
  The abstract read: where the cursor ends up, what was skipped, which message comes back.
\<close>

definition read_pos :: "nat \<Rightarrow> nat \<Rightarrow> nat \<Rightarrow> nat" where
  "read_pos cap n c = max c (n - cap)"

section \<open>Lemmas\<close>

lemma NewSharedLog_total:
  "\<exists>l. NewSharedLog c = Some l \<and> log_rep l [] \<and> unat c \<le> unat (sl_size l) \<and>
     (unat c \<le> 1 \<or> unat (sl_size l) < 2 * unat c)"
proof -
  have c: "unat (ucast c :: u64) = unat c"
    by (simp add: unsigned_ucast_eq take_bit_nat_eq_self unsigned_less [THEN less_le_trans])
  have "unat c < 2 ^ LENGTH(32)" by (rule unsigned_less)
  then have "unat c \<le> 2 ^ 63" by simp
  with c obtain i where i: "i < LENGTH(64)" "pow2_loop (1::u64) (ucast c) = Some (2 ^ i)"
    "unat c \<le> 2 ^ i" "i = 0 \<or> 2 ^ i < 2 * unat c"
    using pow2_loop_Some [of "ucast c :: u64"] by auto
  then show ?thesis
    by (auto simp: NewSharedLog_def log_rep_def log_shape_def unat_exp)
qed

lemma log_shape_mask: "log_shape l \<Longrightarrow> unat (x AND sl_mask l) = unat x mod unat (sl_size l)"
  by (auto simp: log_shape_def unat_and_exp unat_exp)

lemma log_shape_size: "log_shape l \<Longrightarrow> length (sl_buf l) = unat (sl_size l) \<and> 0 < unat (sl_size l)"
  by (auto simp: log_shape_def unat_exp)

lemma log_shape_Publish: "log_shape l \<Longrightarrow> log_shape (fst (SharedLog_Publish m l))"
  by (auto simp: SharedLog_Publish_def log_shape_def Let_def split: option.splits)

lemma Publish_nil: "SharedLog_Publish None l = (l, SharedLog_LatestSeq l)"
  by (simp add: log_defs)

lemma unat_latest: "log_rep l h \<Longrightarrow> unat (sl_nextSeq l) = length h"
  by (simp add: log_rep_def unat_of_nat)

lemma Publish_rep:
  assumes "log_rep l h" "length h + 1 < 2 ^ 64"
  shows "log_rep (fst (SharedLog_Publish (Some m) l)) (h @ [m])"
    and "snd (SharedLog_Publish (Some m) l) = word_of_nat (length h + 1)"
proof -
  let ?s = "unat (sl_size l)"
  from assms have shape: "log_shape l" and next_seq: "sl_nextSeq l = word_of_nat (length h)"
    by (auto simp: log_rep_def)
  note sz = log_shape_size [OF shape]
  have idx: "unat (word_of_nat (length h) AND sl_mask l) = length h mod ?s"
    using log_shape_mask [OF shape] unat_latest [OF assms(1)] next_seq by simp
  have slots: "(sl_buf l)[length h mod ?s := Some m] ! (i mod ?s) = Some ((h @ [m]) ! i)"
    if i: "i < Suc (length h)" "Suc (length h) - i \<le> ?s" for i
  proof (cases "i = length h")
    case True
    then show ?thesis using sz by simp
  next
    case False
    with i have "i < length h" "length h - i < ?s" by auto
    moreover have "i mod ?s \<noteq> length h mod ?s"
      using mod_distinct_window calculation by blast
    ultimately show ?thesis using assms(1) by (simp add: log_rep_def nth_append)
  qed
  show "log_rep (fst (SharedLog_Publish (Some m) l)) (h @ [m])"
    using assms(2) log_shape_Publish [OF shape, of "Some m"] next_seq slots
    unfolding log_rep_def by (simp add: SharedLog_Publish_def Let_def idx add.commute)
  show "snd (SharedLog_Publish (Some m) l) = word_of_nat (length h + 1)"
    using next_seq by (simp add: SharedLog_Publish_def Let_def add.commute)
qed

lemma readAt_caught_up:
  assumes "log_rep l h" "length h \<le> unat c"
  shows "SharedLog_readAt c l = (c, \<lparr>rr_msg = None, rr_skipped = 0\<rparr>, False)"
  using assms unat_latest [OF assms(1)] by (simp add: SharedLog_readAt_def word_le_nat_alt)

lemma readAt_behind:
  assumes "log_rep l h" "unat c < length h"
  defines "p \<equiv> read_pos (unat (sl_size l)) (length h) (unat c)"
  shows "SharedLog_readAt c l =
    (word_of_nat (Suc p), \<lparr>rr_msg = Some (h ! p), rr_skipped = word_of_nat (p - unat c)\<rparr>, True)"
    and "unat c \<le> p" "p < length h"
proof -
  let ?s = "unat (sl_size l)"
  from assms have shape: "log_shape l" and len: "length h < 2 ^ 64" by (auto simp: log_rep_def)
  note sz = log_shape_size [OF shape] and latest = unat_latest [OF assms(1)]
  show p: "unat c \<le> p" "p < length h" using assms(2) sz by (auto simp: p_def read_pos_def)
  let ?gap = "sl_nextSeq l - c"
  have gap: "unat ?gap = length h - unat c"
    using assms(2) latest by (simp add: unat_sub word_le_nat_alt)
  define at where "at = (if ?gap > sl_size l then sl_nextSeq l - sl_size l else c)"
  have at: "unat at = p"
    using gap latest by (auto simp: at_def p_def read_pos_def word_less_nat_alt unat_sub word_le_nat_alt)
  define sk where "sk = (if ?gap > sl_size l then ?gap - sl_size l else 0)"
  have sk: "unat sk = p - unat c"
    using gap by (auto simp: sk_def p_def read_pos_def word_less_nat_alt unat_sub word_le_nat_alt)
  have "length h - p \<le> ?s" by (simp add: p_def read_pos_def)
  then have slot: "sl_buf l ! unat (at AND sl_mask l) = Some (h ! p)"
    using assms(1) p log_shape_mask [OF shape] at by (simp add: log_rep_def)
  have "\<not> c \<ge> sl_nextSeq l" using assms(2) latest by (simp add: word_le_nat_alt)
  then have "SharedLog_readAt c l = (at + 1, \<lparr>rr_msg = Some (h ! p), rr_skipped = sk\<rparr>, True)"
    unfolding SharedLog_readAt_def Let_def at_def [symmetric] sk_def [symmetric] slot by simp
  moreover have "at + 1 = word_of_nat (Suc p)" using at by (simp add: add.commute flip: at)
  moreover have "sk = word_of_nat (p - unat c)" using sk by (simp flip: sk)
  ultimately show "SharedLog_readAt c l =
    (word_of_nat (Suc p), \<lparr>rr_msg = Some (h ! p), rr_skipped = word_of_nat (p - unat c)\<rparr>, True)"
    by simp
qed

section \<open>Readers of a log\<close>

text \<open>
  A reader that reads until there is nothing left, at most \<open>fuel\<close> times: the messages in
  the order they came and the reader's state afterwards.
\<close>

fun drain :: "('c \<Rightarrow> ('c \<times> 'm) option) \<Rightarrow> nat \<Rightarrow> 'c \<Rightarrow> 'm list \<times> 'c" where
  "drain rd 0 c = ([], c)"
| "drain rd (Suc fuel) c =
     (case rd c of
        None \<Rightarrow> ([], c)
      | Some (c', m) \<Rightarrow> (case drain rd fuel c' of (ms, c'') \<Rightarrow> (m # ms, c'')))"

text \<open>
  The contract of a bounded message log: it stands for the history of everything published,
  a reader at position \<open>pos c\<close> gets the message at \<open>read_pos\<close>, and the messages it jumped
  over are added to its loss counter.
\<close>

locale message_log =
  fixes rep :: "'l \<Rightarrow> 'm list \<Rightarrow> bool"
    and cap :: "'l \<Rightarrow> nat"
    and read :: "'l \<Rightarrow> 'c \<Rightarrow> ('c \<times> 'm) option"
    and pos :: "'c \<Rightarrow> nat"
    and lost :: "'c \<Rightarrow> u64"
    and ok :: "'c \<Rightarrow> bool"
  assumes read_caught_up: "rep l h \<Longrightarrow> ok c \<Longrightarrow> pos c = length h \<Longrightarrow> read l c = None"
    and read_behind: "rep l h \<Longrightarrow> ok c \<Longrightarrow> pos c < length h \<Longrightarrow>
      \<exists>c'. read l c = Some (c', h ! read_pos (cap l) (length h) (pos c)) \<and> ok c' \<and>
        pos c' = Suc (read_pos (cap l) (length h) (pos c)) \<and>
        lost c' = lost c + word_of_nat (read_pos (cap l) (length h) (pos c) - pos c)"
    and cap_pos: "rep l h \<Longrightarrow> 0 < cap l"
begin

text \<open>
  Draining delivers exactly the part of the history that is still there, in order, each
  message once; the loss counter grows by what is missing; the reader ends at the end.
\<close>

lemma drain_suffix:
  assumes "rep l h" "ok c" "pos c \<le> length h" "length h \<le> fuel + read_pos (cap l) (length h) (pos c)"
  shows "fst (drain (read l) fuel c) = drop (read_pos (cap l) (length h) (pos c)) h"
    and "lost (snd (drain (read l) fuel c)) =
      lost c + word_of_nat (read_pos (cap l) (length h) (pos c) - pos c)"
    and "pos (snd (drain (read l) fuel c)) = length h" "ok (snd (drain (read l) fuel c))"
proof -
  have "fst (drain (read l) fuel c) = drop (read_pos (cap l) (length h) (pos c)) h \<and>
      lost (snd (drain (read l) fuel c)) =
        lost c + word_of_nat (read_pos (cap l) (length h) (pos c) - pos c) \<and>
      pos (snd (drain (read l) fuel c)) = length h \<and> ok (snd (drain (read l) fuel c))"
    using assms(2-4)
  proof (induction fuel arbitrary: c)
    case 0
    with cap_pos [OF assms(1)] have "pos c = length h"
      unfolding read_pos_def by arith
    with 0 show ?case by (simp add: read_pos_def)
  next
    case (Suc fuel)
    let ?p = "read_pos (cap l) (length h) (pos c)"
    show ?case
    proof (cases "pos c = length h")
      case True
      with Suc.prems read_caught_up [OF assms(1)] show ?thesis by (simp add: read_pos_def)
    next
      case False
      with Suc.prems obtain c' where c': "read l c = Some (c', h ! ?p)" "ok c'" "pos c' = Suc ?p"
        "lost c' = lost c + word_of_nat (?p - pos c)"
        using read_behind [OF assms(1), of c] by auto
      have p: "?p < length h" "read_pos (cap l) (length h) (Suc ?p) = Suc ?p"
        using False Suc.prems cap_pos [OF assms(1)] by (auto simp: read_pos_def)
      have "fst (drain (read l) fuel c') = drop (Suc ?p) h \<and>
          lost (snd (drain (read l) fuel c')) = lost c' \<and>
          pos (snd (drain (read l) fuel c')) = length h \<and> ok (snd (drain (read l) fuel c'))"
        using Suc.IH [of c'] Suc.prems c' p by simp
      with c' p show ?thesis by (auto simp: Cons_nth_drop_Suc split: prod.splits)
    qed
  qed
  then show "fst (drain (read l) fuel c) = drop (read_pos (cap l) (length h) (pos c)) h"
    and "lost (snd (drain (read l) fuel c)) =
      lost c + word_of_nat (read_pos (cap l) (length h) (pos c) - pos c)"
    and "pos (snd (drain (read l) fuel c)) = length h" "ok (snd (drain (read l) fuel c))"
    by blast+
qed

end

text \<open>A bare cursor with its running count of skipped messages, over the code's \<open>readAt\<close>.\<close>

definition cursor_read :: "'m SharedLog \<Rightarrow> u64 \<times> u64 \<Rightarrow> ((u64 \<times> u64) \<times> 'm) option" where
  "cursor_read l c =
     (case SharedLog_readAt (fst c) l of
        (nxt, res, True) \<Rightarrow> map_option (Pair (nxt, snd c + rr_skipped res)) (rr_msg res)
      | (_, _, False) \<Rightarrow> None)"

interpretation slog: message_log log_rep "\<lambda>l. unat (sl_size l)" cursor_read "\<lambda>c. unat (fst c)" snd "\<lambda>_. True"
proof
  fix l :: "'a SharedLog" and h and c :: "u64 \<times> u64"
  assume rep: "log_rep l h"
  then have sz: "0 < unat (sl_size l)" by (simp add: log_rep_def log_shape_size)
  then show "0 < unat (sl_size l)" .
  show "cursor_read l c = None" if "unat (fst c) = length h"
    using that readAt_caught_up [OF rep] by (simp add: cursor_read_def)
  assume "unat (fst c) < length h"
  note r = readAt_behind [OF rep this]
  have "Suc (read_pos (unat (sl_size l)) (length h) (unat (fst c))) < 2 ^ 64"
    using r(3) rep by (simp add: log_rep_def)
  then show "\<exists>c'. cursor_read l c = Some (c', h ! read_pos (unat (sl_size l)) (length h) (unat (fst c))) \<and> True \<and>
      unat (fst c') = Suc (read_pos (unat (sl_size l)) (length h) (unat (fst c))) \<and>
      snd c' = snd c + word_of_nat (read_pos (unat (sl_size l)) (length h) (unat (fst c)) - unat (fst c))"
    using r(1) by (simp add: cursor_read_def unat_of_nat del: of_nat_Suc)
qed

section \<open>Properties\<close>

text \<open>
  C26. A reader that starts at any position of a log and reads until it is told there is
  nothing more gets exactly the published messages from its position on that the ring still
  holds, oldest first and each once; the skip counts it was given add up to the number of
  messages it missed; its cursor ends at the latest sequence number.
\<close>

theorem log_reader_gets_suffix:
  assumes "log_rep l h" "c \<le> length h" "length h \<le> fuel"
  defines "missed \<equiv> length h - unat (sl_size l) - c"
  shows "drain (cursor_read l) fuel (word_of_nat c, 0) =
    (drop (c + missed) h, SharedLog_LatestSeq l, word_of_nat missed)"
proof -
  have len: "length h < 2 ^ 64" using assms(1) by (simp add: log_rep_def)
  then have c: "unat (word_of_nat c :: u64) = c" using assms(2) by (simp add: unat_of_nat)
  have p: "read_pos (unat (sl_size l)) (length h) c = c + missed" by (simp add: read_pos_def missed_def)
  note d = slog.drain_suffix [OF assms(1), of "(word_of_nat c, 0)" fuel]
  have "fst (snd (drain (cursor_read l) fuel (word_of_nat c, 0))) = SharedLog_LatestSeq l"
    using d(3) assms unat_latest [OF assms(1)] by (simp add: c p SharedLog_LatestSeq_def word_unat_eq_iff)
  then show ?thesis using d(1,2) assms(2,3) by (simp add: c p prod_eq_iff)
qed

theorem log_reader_gets_suffix_witness:
  "\<exists>l :: nat SharedLog. NewSharedLog 2 = Some l \<and>
     (let l3 = fst (SharedLog_Publish (Some 12) (fst (SharedLog_Publish (Some 11)
                (fst (SharedLog_Publish (Some 10) l)))))
      in drain (cursor_read l3) 3 (0, 0) = ([11, 12], 3, 1))"
proof -
  have "pow2_loop (1::u64) 2 = Some 2" by (simp add: pow2_loop.simps)
  moreover have "replicate 2 None = [None, None]" by (simp add: numeral_2_eq_2)
  ultimately have new: "NewSharedLog 2 = Some \<lparr>sl_buf = [None, None], sl_mask = 1, sl_size = 2, sl_nextSeq = 0\<rparr>"
    by (simp add: NewSharedLog_def)
  define l3 :: "nat SharedLog" where
    "l3 = \<lparr>sl_buf = [Some 12, Some 11], sl_mask = 1, sl_size = 2, sl_nextSeq = 3\<rparr>"
  have "log_rep l3 [10, 11, 12]"
    by (auto simp: log_rep_def log_shape_def l3_def less_Suc_eq numeral_3_eq_3 intro!: exI [of _ 1])
  from log_reader_gets_suffix [OF this, of 0 3] show ?thesis
    by (simp add: new SharedLog_Publish_def l3_def SharedLog_LatestSeq_def)
qed

text \<open>
  The sequence number is a plain 64-bit counter and the comparison is unsigned, so the
  log does not survive its wrap-around: a reader that is caught up when the counter stands
  at its maximum is told after the next publication that there is nothing to read.
\<close>

theorem log_wrap_stalls:
  assumes "sl_nextSeq l = - 1"
  shows "snd (snd (SharedLog_readAt (SharedLog_LatestSeq l) (fst (SharedLog_Publish (Some m) l)))) = False"
  using assms by (simp add: log_defs)

theorem log_wrap_stalls_witness:
  "snd (snd (SharedLog_readAt (- 1) (fst (SharedLog_Publish (Some (0::nat))
     \<lparr>sl_buf = [None], sl_mask = 0, sl_size = 1, sl_nextSeq = - 1\<rparr>)))) = False"
  using log_wrap_stalls [of "\<lparr>sl_buf = [None], sl_mask = 0, sl_size = 1, sl_nextSeq = - 1\<rparr>" "0::nat"]
  by (simp add: SharedLog_LatestSeq_def)

end
