(* ===== verification/RingBuffer.thy ===== *)
theory RingBuffer
  imports Arena
begin

text \<open>
  The bounded ring buffer (\<open>internal/core/bus/ringbuffer.go\<close>) with its two back-pressure
  strategies. Read and write positions run freely modulo \<open>2 ^ 32\<close> and are masked only to
  index. The lemmas show that the buffer refines a bounded list: full or not, dropping the
  oldest or the newest, across wrap-around of both positions.
\<close>

section \<open>Definitions\<close>

datatype BackpressureStrategy = BackpressureDropOldest | BackpressureDropNewest

record 'm RingBuffer =
  rb_buffer :: "'m option list"
  rb_size :: u32
  rb_mask :: u32
  rb_writePos :: u32
  rb_readPos :: u32
  rb_strategy :: BackpressureStrategy
  rb_dropped :: u64

text \<open>\<open>None\<close>: the rounding loop never ends.\<close>

definition NewRingBuffer :: "u32 \<Rightarrow> BackpressureStrategy \<Rightarrow> 'm RingBuffer option" where
  "NewRingBuffer capacity strategy =
     (case pow2_loop 1 capacity of
        None \<Rightarrow> None
      | Some actualSize \<Rightarrow>
          Some \<lparr>rb_buffer = replicate (unat actualSize) None, rb_size = actualSize,
                rb_mask = actualSize - 1, rb_writePos = 0, rb_readPos = 0,
                rb_strategy = strategy, rb_dropped = 0\<rparr>)"

text \<open>Storing the message and advancing the write position, the common end of a write.\<close>

definition rb_store :: "'m \<Rightarrow> u32 \<Rightarrow> 'm RingBuffer \<Rightarrow> 'm RingBuffer" where
  "rb_store m writePos rb =
     rb\<lparr>rb_buffer := (rb_buffer rb)[unat (writePos AND rb_mask rb) := Some m],
        rb_writePos := writePos + 1\<rparr>"

definition RingBuffer_Write :: "'m option \<Rightarrow> 'm RingBuffer \<Rightarrow> 'm RingBuffer \<times> bool" where
  "RingBuffer_Write msg rb =
     (case msg of
        None \<Rightarrow> (rb, False)
      | Some m \<Rightarrow>
          let writePos = rb_writePos rb; readPos = rb_readPos rb in
          if writePos - readPos \<ge> rb_size rb then
            let rb1 = rb\<lparr>rb_dropped := rb_dropped rb + 1\<rparr> in
            if rb_strategy rb1 = BackpressureDropOldest
            then (rb_store m writePos (rb1\<lparr>rb_readPos := rb_readPos rb1 + 1\<rparr>), True)
            else (rb1, False)
          else (rb_store m writePos rb, True))"

definition RingBuffer_Read :: "'m RingBuffer \<Rightarrow> 'm RingBuffer \<times> 'm option \<times> bool" where
  "RingBuffer_Read rb =
     (let readPos = rb_readPos rb; writePos = rb_writePos rb in
      if readPos = writePos then (rb, None, False)
      else (rb\<lparr>rb_readPos := readPos + 1\<rparr>, rb_buffer rb ! unat (readPos AND rb_mask rb), True))"

definition RingBuffer_Dropped :: "'m RingBuffer \<Rightarrow> u64" where
  "RingBuffer_Dropped rb = rb_dropped rb"

definition RingBuffer_Available :: "'m RingBuffer \<Rightarrow> u32" where
  "RingBuffer_Available rb =
     (let used = rb_writePos rb - rb_readPos rb in rb_size rb - used)"

section \<open>The bounded queue interface\<close>

text \<open>
  A bounded queue over lists. \<open>full_enq\<close> says what an enqueue does to a full queue; the
  two extensions fix it to the two strategies, and the clients' lemmas say what is left of
  a burst of writes.
\<close>

locale bounded_queue =
  fixes enq :: "'m \<Rightarrow> 'q \<Rightarrow> 'q"
    and deq :: "'q \<Rightarrow> 'q \<times> 'm option"
    and contents :: "'q \<Rightarrow> 'm list"
    and cap :: "'q \<Rightarrow> nat"
    and wf :: "'q \<Rightarrow> bool"
    and full_enq :: "'m \<Rightarrow> 'm list \<Rightarrow> 'm list"
  assumes contents_enq: "wf q \<Longrightarrow> contents (enq m q) =
      (if length (contents q) < cap q then contents q @ [m] else full_enq m (contents q))"
    and deq_empty: "wf q \<Longrightarrow> contents q = [] \<Longrightarrow> deq q = (q, None)"
    and deq_nonempty: "wf q \<Longrightarrow> contents q = x # xs \<Longrightarrow>
      snd (deq q) = Some x \<and> contents (fst (deq q)) = xs"
    and contents_bound: "wf q \<Longrightarrow> length (contents q) \<le> cap q"
    and cap_pos: "wf q \<Longrightarrow> 0 < cap q"
    and wf_enq: "wf q \<Longrightarrow> wf (enq m q)"
    and wf_deq: "wf q \<Longrightarrow> wf (fst (deq q))"
    and cap_enq: "wf q \<Longrightarrow> cap (enq m q) = cap q"
begin

lemma wf_fold: "wf q \<Longrightarrow> wf (fold enq ms q) \<and> cap (fold enq ms q) = cap q"
  by (induction ms arbitrary: q) (auto simp: wf_enq cap_enq)

end

locale drop_oldest_queue = bounded_queue +
  assumes full_oldest: "full_enq m xs = tl xs @ [m]"
begin

lemma burst_keeps_newest:
  "wf q \<Longrightarrow> contents (fold enq ms q) =
    drop (length (contents q @ ms) - cap q) (contents q @ ms)"
proof (induction ms arbitrary: q)
  case Nil
  then show ?case using contents_bound by simp
next
  case (Cons m ms)
  have "contents (fold enq (m # ms) q) =
      drop (length (contents (enq m q) @ ms) - cap q) (contents (enq m q) @ ms)"
    using Cons.IH [OF wf_enq [OF Cons.prems]] cap_enq [OF Cons.prems] by simp
  also have "\<dots> = drop (length (contents q @ m # ms) - cap q) (contents q @ m # ms)"
  proof (cases "length (contents q) < cap q")
    case True
    then show ?thesis by (simp add: contents_enq [OF Cons.prems] del: drop_append)
  next
    case False
    with contents_bound [OF Cons.prems] cap_pos [OF Cons.prems]
    obtain x xs where "contents q = x # xs" "Suc (length xs) = cap q" by (cases "contents q") auto
    then show ?thesis
      by (simp add: contents_enq [OF Cons.prems] full_oldest flip: \<open>Suc (length xs) = cap q\<close> del: drop_append)
  qed
  finally show ?case .
qed

end

locale drop_newest_queue = bounded_queue +
  assumes full_newest: "full_enq m xs = xs"
begin

lemma burst_keeps_oldest:
  "wf q \<Longrightarrow> contents (fold enq ms q) = take (cap q) (contents q @ ms)"
proof (induction ms arbitrary: q)
  case Nil
  then show ?case using contents_bound by simp
next
  case (Cons m ms)
  have "contents (fold enq (m # ms) q) = take (cap q) (contents (enq m q) @ ms)"
    using Cons.IH [OF wf_enq [OF Cons.prems]] cap_enq [OF Cons.prems] by simp
  also have "\<dots> = take (cap q) (contents q @ m # ms)"
  proof (cases "length (contents q) < cap q")
    case True
    then show ?thesis by (simp add: contents_enq [OF Cons.prems] del: take_append)
  next
    case False
    then show ?thesis using contents_bound [OF Cons.prems]
      by (simp add: contents_enq [OF Cons.prems] full_newest)
  qed
  finally show ?case .
qed

end

section \<open>The ring buffer as a bounded queue\<close>

definition rb_used :: "'m RingBuffer \<Rightarrow> nat" where
  "rb_used rb = unat (rb_writePos rb - rb_readPos rb)"

definition rb_cell :: "'m RingBuffer \<Rightarrow> nat \<Rightarrow> 'm option" where
  "rb_cell rb i = rb_buffer rb ! ((unat (rb_readPos rb) + i) mod unat (rb_size rb))"

definition rb_list :: "'m RingBuffer \<Rightarrow> 'm list" where
  "rb_list rb = map (\<lambda>i. the (rb_cell rb i)) [0..<rb_used rb]"

definition rb_inv :: "'m RingBuffer \<Rightarrow> bool" where
  "rb_inv rb \<longleftrightarrow>
     (\<exists>k < 32. rb_size rb = 2 ^ k \<and> rb_mask rb = 2 ^ k - 1 \<and> length (rb_buffer rb) = 2 ^ k) \<and>
     rb_used rb \<le> unat (rb_size rb) \<and> (\<forall>i < rb_used rb. rb_cell rb i \<noteq> None)"

lemma rb_inv_size:
  assumes "rb_inv rb"
  shows "length (rb_buffer rb) = unat (rb_size rb)" "0 < unat (rb_size rb)"
    "unat (x AND rb_mask rb) = unat x mod unat (rb_size rb)"
    "unat (rb_size rb) dvd 2 ^ 32" "unat (rb_size rb) \<le> 2 ^ 31"
proof -
  from assms obtain k where k: "k < 32" "rb_size rb = 2 ^ k" "rb_mask rb = 2 ^ k - 1"
    "length (rb_buffer rb) = 2 ^ k" by (auto simp: rb_inv_def)
  have "(2::nat) ^ k dvd 2 ^ 32" by (rule le_imp_power_dvd) (use k(1) in simp)
  moreover have "(2::nat) ^ k \<le> 2 ^ 31" using k(1) by (intro power_increasing) auto
  ultimately show "length (rb_buffer rb) = unat (rb_size rb)" "0 < unat (rb_size rb)"
    "unat (x AND rb_mask rb) = unat x mod unat (rb_size rb)"
    "unat (rb_size rb) dvd 2 ^ 32" "unat (rb_size rb) \<le> 2 ^ 31"
    using k by (simp_all add: unat_exp unat_and_exp)
qed

lemma unat_add_mod: "n dvd 2 ^ LENGTH('a) \<Longrightarrow> unat (x + y :: 'a::len word) mod n = (unat x + unat y) mod n"
  by (simp add: unat_word_ariths mod_mod_cancel)

lemma writePos_eq: "rb_writePos rb = rb_readPos rb + word_of_nat (rb_used rb)"
  by (simp add: rb_used_def)

lemma writePos_index:
  assumes "rb_inv rb"
  shows "unat (rb_writePos rb AND rb_mask rb) = (unat (rb_readPos rb) + rb_used rb) mod unat (rb_size rb)"
proof -
  have "unat (rb_writePos rb) mod unat (rb_size rb) =
      (unat (rb_readPos rb) + unat (rb_writePos rb - rb_readPos rb)) mod unat (rb_size rb)"
    using unat_add_mod [of "unat (rb_size rb)" "rb_readPos rb" "rb_writePos rb - rb_readPos rb"]
      rb_inv_size(4) [OF assms] by simp
  then show ?thesis using rb_inv_size(3) [OF assms] by (simp add: rb_used_def)
qed

lemma rb_cell_window:
  assumes "i < j" "j - i < unat (rb_size rb)"
  shows "(unat (rb_readPos rb) + i) mod unat (rb_size rb) \<noteq> (unat (rb_readPos rb) + j) mod unat (rb_size rb)"
  using assms mod_distinct_window [of "unat (rb_readPos rb) + i" "unat (rb_readPos rb) + j"] by simp

lemma unat_Suc_used:
  assumes "rb_used rb < 2 ^ 31"
  shows "unat (rb_writePos rb + 1 - rb_readPos rb) = Suc (rb_used rb)"
proof -
  have "rb_writePos rb + 1 - rb_readPos rb = (rb_writePos rb - rb_readPos rb) + 1" by simp
  moreover have "unat ((rb_writePos rb - rb_readPos rb) + 1) = Suc (rb_used rb)"
    using assms by (subst unat_word_ariths(1)) (simp add: rb_used_def)
  ultimately show ?thesis by metis
qed

text \<open>
  The common end of a successful write, from a state with room: the slot behind the last
  element is filled and every element before it is untouched.
\<close>

lemma rb_store_room:
  fixes m :: 'm
  assumes "rb_inv rb" "rb_used rb < unat (rb_size rb)"
  defines "rb' \<equiv> rb_store m (rb_writePos rb) rb"
  shows "rb_used rb' = Suc (rb_used rb)" "rb_inv rb'" "rb_list rb' = rb_list rb @ [m]"
proof -
  let ?n = "rb_used rb" and ?s = "unat (rb_size rb)"
  note sz = rb_inv_size [OF assms(1)]
  have "?n < 2 ^ 31" using assms(2) sz(5) by linarith
  then show used: "rb_used rb' = Suc ?n"
    using unat_Suc_used by (simp add: rb'_def rb_store_def rb_used_def)
  have same: "rb_size rb' = rb_size rb" "rb_mask rb' = rb_mask rb" "rb_readPos rb' = rb_readPos rb"
    by (simp_all add: rb'_def rb_store_def)
  have cells: "rb_cell rb' i = (if i = ?n then Some m else rb_cell rb i)" if "i \<le> ?n" for i
  proof (cases "i = ?n")
    case True
    then show ?thesis using sz(1,2) writePos_index [OF assms(1)]
      by (simp add: rb_cell_def rb'_def rb_store_def)
  next
    case False
    with that assms(2) have "i < ?n" "?n - i < ?s" by auto
    from rb_cell_window [OF this] False show ?thesis
      using writePos_index [OF assms(1)] by (simp add: rb_cell_def rb'_def rb_store_def)
  qed
  show "rb_inv rb'"
    using assms(1,2) used cells unfolding rb_inv_def same
    by (auto simp: rb'_def rb_store_def less_Suc_eq_le)
  show "rb_list rb' = rb_list rb @ [m]"
    unfolding rb_list_def used by (simp add: cells cong: map_cong)
qed

lemma rb_skip_oldest:
  assumes "rb_inv rb" "0 < rb_used rb"
  defines "rb' \<equiv> rb\<lparr>rb_readPos := rb_readPos rb + 1\<rparr>"
  shows "Suc (rb_used rb') = rb_used rb" "rb_inv rb'" "rb_list rb = the (rb_cell rb 0) # rb_list rb'"
proof -
  let ?n = "rb_used rb" and ?s = "unat (rb_size rb)"
  note sz = rb_inv_size [OF assms(1)]
  have eq: "rb_writePos rb - (rb_readPos rb + 1) = rb_writePos rb - rb_readPos rb - 1" by simp
  have "1 \<le> rb_writePos rb - rb_readPos rb"
    using assms(2) by (simp add: rb_used_def word_le_nat_alt)
  then have "unat (rb_writePos rb - (rb_readPos rb + 1)) = unat (rb_writePos rb - rb_readPos rb) - 1"
    unfolding eq by (subst unat_sub) simp_all
  then have "rb_used rb' = ?n - 1" by (simp add: rb_used_def rb'_def)
  with assms(2) show used: "Suc (rb_used rb') = ?n" by simp
  have cells: "rb_cell rb' i = rb_cell rb (Suc i)" for i
  proof -
    have H: "unat (rb_readPos rb + 1) mod ?s = (unat (rb_readPos rb) + 1) mod ?s"
      using unat_add_mod [of ?s "rb_readPos rb" 1] sz(4) by simp
    have "(unat (rb_readPos rb + 1) + i) mod ?s = (unat (rb_readPos rb + 1) mod ?s + i) mod ?s"
      by (simp only: mod_add_left_eq)
    also have "\<dots> = ((unat (rb_readPos rb) + 1) mod ?s + i) mod ?s" by (simp only: H)
    also have "\<dots> = (unat (rb_readPos rb) + Suc i) mod ?s" by (simp only: mod_add_left_eq) simp
    finally show ?thesis by (simp add: rb_cell_def rb'_def)
  qed
  show "rb_inv rb'"
    using assms(1) used cells unfolding rb_inv_def by (auto simp: rb'_def)
  show "rb_list rb = the (rb_cell rb 0) # rb_list rb'"
    unfolding rb_list_def used [symmetric] by (simp add: cells upt_conv_Cons map_Suc_upt [symmetric] del: upt_Suc)
qed


section \<open>Writes and reads refine the bounded queue\<close>

lemma rb_used_list: "rb_used rb = length (rb_list rb)"
  by (simp add: rb_list_def)

lemma rb_full_iff: "rb_writePos rb - rb_readPos rb \<ge> rb_size rb \<longleftrightarrow> \<not> rb_used rb < unat (rb_size rb)"
  by (simp add: rb_used_def word_le_nat_alt not_less)

lemma rb_inv_dropped: "rb_inv (rb\<lparr>rb_dropped := d\<rparr>) = rb_inv rb"
  "rb_list (rb\<lparr>rb_dropped := d\<rparr>) = rb_list rb" "rb_used (rb\<lparr>rb_dropped := d\<rparr>) = rb_used rb"
  by (simp_all add: rb_inv_def rb_list_def rb_used_def rb_cell_def)

lemma Write_room:
  assumes "rb_inv rb" "length (rb_list rb) < unat (rb_size rb)"
  shows "RingBuffer_Write (Some m) rb = (rb_store m (rb_writePos rb) rb, True)"
  using assms rb_full_iff [of rb] by (simp add: RingBuffer_Write_def Let_def rb_used_list)

lemma Write_full_newest:
  assumes "rb_inv rb" "length (rb_list rb) = unat (rb_size rb)" "rb_strategy rb = BackpressureDropNewest"
  shows "RingBuffer_Write (Some m) rb = (rb\<lparr>rb_dropped := rb_dropped rb + 1\<rparr>, False)"
  using assms rb_full_iff [of rb] by (simp add: RingBuffer_Write_def Let_def rb_used_list)

lemma Write_full_oldest:
  assumes "rb_inv rb" "length (rb_list rb) = unat (rb_size rb)" "rb_strategy rb = BackpressureDropOldest"
  defines "rb1 \<equiv> rb\<lparr>rb_dropped := rb_dropped rb + 1\<rparr>\<lparr>rb_readPos := rb_readPos rb + 1\<rparr>"
  shows "RingBuffer_Write (Some m) rb = (rb_store m (rb_writePos rb1) rb1, True)"
    and "rb_inv rb1" and "rb_list rb1 = tl (rb_list rb)" and "rb_used rb1 < unat (rb_size rb1)"
proof -
  let ?d = "rb\<lparr>rb_dropped := rb_dropped rb + 1\<rparr>"
  show "RingBuffer_Write (Some m) rb = (rb_store m (rb_writePos rb1) rb1, True)"
    using assms(2,3) rb_full_iff [of rb] by (simp add: RingBuffer_Write_def Let_def rb_used_list rb1_def)
  have inv: "rb_inv ?d" and pos: "0 < rb_used ?d"
    using assms(1,2) rb_inv_size(2) [OF assms(1)] by (simp_all add: rb_inv_dropped rb_used_list)
  from rb_skip_oldest [OF inv pos] show "rb_inv rb1" "rb_list rb1 = tl (rb_list rb)"
    by (simp_all add: rb1_def rb_inv_dropped)
  from rb_skip_oldest(1) [OF inv pos] assms(2) show "rb_used rb1 < unat (rb_size rb1)"
    by (simp add: rb1_def rb_inv_dropped rb_used_list)
qed

lemma Write_refines:
  assumes "rb_inv rb"
  shows "rb_inv (fst (RingBuffer_Write (Some m) rb))"
    and "rb_list (fst (RingBuffer_Write (Some m) rb)) =
      (if length (rb_list rb) < unat (rb_size rb) then rb_list rb @ [m]
       else if rb_strategy rb = BackpressureDropOldest then tl (rb_list rb) @ [m] else rb_list rb)"
    and "rb_size (fst (RingBuffer_Write (Some m) rb)) = rb_size rb"
    and "rb_strategy (fst (RingBuffer_Write (Some m) rb)) = rb_strategy rb"
proof -
  have "length (rb_list rb) \<le> unat (rb_size rb)" using assms by (simp add: rb_inv_def rb_used_list)
  then consider (room) "length (rb_list rb) < unat (rb_size rb)"
    | (oldest) "length (rb_list rb) = unat (rb_size rb)" "rb_strategy rb = BackpressureDropOldest"
    | (newest) "length (rb_list rb) = unat (rb_size rb)" "rb_strategy rb = BackpressureDropNewest"
    by (cases "rb_strategy rb") (auto simp: le_less)
  then have "rb_inv (fst (RingBuffer_Write (Some m) rb)) \<and>
      rb_list (fst (RingBuffer_Write (Some m) rb)) =
        (if length (rb_list rb) < unat (rb_size rb) then rb_list rb @ [m]
         else if rb_strategy rb = BackpressureDropOldest then tl (rb_list rb) @ [m] else rb_list rb)"
  proof cases
    case room
    with assms show ?thesis using rb_store_room [OF assms] by (simp add: Write_room rb_used_list)
  next
    case oldest
    note w = Write_full_oldest [OF assms oldest]
    show ?thesis using rb_store_room [OF w(2,4)] w(3) oldest by (simp add: w(1))
  next
    case newest
    with assms show ?thesis by (simp add: Write_full_newest rb_inv_dropped)
  qed
  then show "rb_inv (fst (RingBuffer_Write (Some m) rb))"
    and "rb_list (fst (RingBuffer_Write (Some m) rb)) =
      (if length (rb_list rb) < unat (rb_size rb) then rb_list rb @ [m]
       else if rb_strategy rb = BackpressureDropOldest then tl (rb_list rb) @ [m] else rb_list rb)"
    by simp_all
  show "rb_size (fst (RingBuffer_Write (Some m) rb)) = rb_size rb"
    and "rb_strategy (fst (RingBuffer_Write (Some m) rb)) = rb_strategy rb"
    by (simp_all add: RingBuffer_Write_def rb_store_def Let_def)
qed

lemma Read_empty:
  assumes "rb_list rb = []" shows "RingBuffer_Read rb = (rb, None, False)"
  using assms by (simp add: rb_list_def rb_used_def RingBuffer_Read_def Let_def unat_eq_0)

lemma Read_nonempty:
  assumes "rb_inv rb" "rb_list rb = x # xs"
  shows "fst (snd (RingBuffer_Read rb)) = Some x" "snd (snd (RingBuffer_Read rb))"
    "rb_list (fst (RingBuffer_Read rb)) = xs" "rb_inv (fst (RingBuffer_Read rb))"
    "rb_strategy (fst (RingBuffer_Read rb)) = rb_strategy rb"
proof -
  have pos: "0 < rb_used rb" using assms(2) by (simp add: rb_used_list)
  then have ne: "rb_readPos rb \<noteq> rb_writePos rb" by (auto simp: rb_used_def)
  note skip = rb_skip_oldest [OF assms(1) pos]
  have "rb_cell rb 0 = Some x"
    using skip(3) assms pos by (auto simp: rb_inv_def)
  with ne skip assms(2) rb_inv_size(3) [OF assms(1)]
  show "fst (snd (RingBuffer_Read rb)) = Some x" "snd (snd (RingBuffer_Read rb))"
    "rb_list (fst (RingBuffer_Read rb)) = xs" "rb_inv (fst (RingBuffer_Read rb))"
    "rb_strategy (fst (RingBuffer_Read rb)) = rb_strategy rb"
    by (simp_all add: RingBuffer_Read_def Let_def rb_cell_def)
qed

definition rb_enq :: "'m \<Rightarrow> 'm RingBuffer \<Rightarrow> 'm RingBuffer" where
  "rb_enq m rb = fst (RingBuffer_Write (Some m) rb)"

definition rb_deq :: "'m RingBuffer \<Rightarrow> 'm RingBuffer \<times> 'm option" where
  "rb_deq rb = (fst (RingBuffer_Read rb), fst (snd (RingBuffer_Read rb)))"

definition rb_wf :: "BackpressureStrategy \<Rightarrow> 'm RingBuffer \<Rightarrow> bool" where
  "rb_wf st rb \<longleftrightarrow> rb_inv rb \<and> rb_strategy rb = st"

lemma Read_keeps: "rb_inv rb \<Longrightarrow> rb_inv (fst (RingBuffer_Read rb))"
  "rb_inv rb \<Longrightarrow> rb_strategy (fst (RingBuffer_Read rb)) = rb_strategy rb"
  by (cases "rb_list rb"; simp add: Read_empty Read_nonempty)+

interpretation rbo: drop_oldest_queue rb_enq rb_deq rb_list "\<lambda>rb. unat (rb_size rb)"
  "rb_wf BackpressureDropOldest" "\<lambda>m xs. tl xs @ [m]"
  by unfold_locales
    (auto simp: rb_wf_def rb_enq_def rb_deq_def Write_refines Read_empty Read_nonempty
      rb_inv_size rb_inv_def [THEN iffD1] rb_used_list [symmetric] Read_keeps)

interpretation rbn: drop_newest_queue rb_enq rb_deq rb_list "\<lambda>rb. unat (rb_size rb)"
  "rb_wf BackpressureDropNewest" "\<lambda>m xs. xs"
  by unfold_locales
    (auto simp: rb_wf_def rb_enq_def rb_deq_def Write_refines Read_empty Read_nonempty
      rb_inv_size rb_inv_def [THEN iffD1] rb_used_list [symmetric] Read_keeps)

section \<open>Properties\<close>

text \<open>
  C34. A burst of writes on a ring buffer, in whatever state: with \<open>BackpressureDropOldest\<close>
  the newest messages that fit remain, with \<open>BackpressureDropNewest\<close> the first ones that
  fit, in order, also across the wrap-around of the 32-bit positions.
\<close>

theorem ringbuffer_burst:
  assumes "rb_inv rb"
  shows "rb_list (fold (\<lambda>m q. fst (RingBuffer_Write (Some m) q)) ms rb) =
    (case rb_strategy rb of
       BackpressureDropOldest \<Rightarrow>
         drop (length (rb_list rb @ ms) - unat (rb_size rb)) (rb_list rb @ ms)
     | BackpressureDropNewest \<Rightarrow> take (unat (rb_size rb)) (rb_list rb @ ms))"
proof -
  have f: "(\<lambda>m q. fst (RingBuffer_Write (Some m) q)) = rb_enq" by (intro ext) (simp add: rb_enq_def)
  show ?thesis unfolding f
    using assms rbo.burst_keeps_newest [of rb ms] rbn.burst_keeps_oldest [of rb ms]
    by (cases "rb_strategy rb") (auto simp: rb_wf_def)
qed

text \<open>A two-slot buffer whose positions stand at the top of the 32-bit range.\<close>

definition rb_example :: "nat RingBuffer" where
  "rb_example = \<lparr>rb_buffer = [None, Some 7], rb_size = 2, rb_mask = 1,
     rb_writePos = 0, rb_readPos = - 1, rb_strategy = BackpressureDropOldest, rb_dropped = 0\<rparr>"

theorem ringbuffer_burst_witness:
  "rb_list (fold (\<lambda>m q. fst (RingBuffer_Write (Some m) q)) [8, 9] rb_example) = [8, 9]"
proof -
  have top: "unat (- 1 :: u32) = 4294967295" by (simp add: unsigned_minus_1_eq_mask mask_eq_exp_minus_1)
  have "\<exists>k < 32. rb_size rb_example = 2 ^ k \<and> rb_mask rb_example = 2 ^ k - 1 \<and> length (rb_buffer rb_example) = 2 ^ k"
    by (rule exI [of _ 1]) (simp add: rb_example_def)
  then have "rb_inv rb_example" by (simp add: rb_inv_def rb_example_def rb_used_def rb_cell_def top)
  moreover have "rb_list rb_example = [7]"
    by (simp add: rb_example_def rb_used_def rb_cell_def rb_list_def top)
  ultimately show ?thesis using ringbuffer_burst [of rb_example "[8, 9]"] by (simp add: rb_example_def)
qed

text \<open>
  \<open>NewRingBuffer\<close> returns a buffer exactly for capacities up to \<open>2^31\<close>: above, the
  32-bit shift of the rounding loop reaches 0 and the loop runs forever. A buffer that is
  returned is empty, well formed and has room for the capacity asked for.
\<close>

theorem NewRingBuffer_returns:
  "((NewRingBuffer capacity st :: 'm RingBuffer option) \<noteq> None \<longleftrightarrow> unat capacity \<le> 2 ^ 31) \<and>
   (case NewRingBuffer capacity st :: 'm RingBuffer option of
      None \<Rightarrow> True
    | Some rb \<Rightarrow> rb_inv rb \<and> rb_list rb = [] \<and> unat capacity \<le> unat (rb_size rb))"
proof (cases "2 ^ 31 < unat capacity")
  case True
  then show ?thesis using pow2_loop_None [of capacity] by (simp add: NewRingBuffer_def)
next
  case False
  then obtain i where "i < LENGTH(32)" "pow2_loop 1 capacity = Some (2 ^ i)" "unat capacity \<le> 2 ^ i"
    using pow2_loop_Some [of capacity] by auto
  with False show ?thesis
    by (auto simp: NewRingBuffer_def rb_inv_def rb_used_def rb_list_def unat_exp)
qed

end
