(* ===== verification/Bus_Stream.thy ===== *)
theory Bus_Stream
  imports SharedLog RingBuffer "HOL-Library.Sublist"
begin

text \<open>
  A live stream and its subscribers (\<open>internal/core/bus/stream.go\<close>, \<open>subscriber.go\<close>). The
  memory the publisher recycles is explicit: messages live in the stream's slab, payloads
  in its arena, the shared log holds pointers into the slab, and reading a message loads it
  from whatever the slab and the arena hold at that moment. The central lemma shows that
  recycling is safe for everything still in the log: the stream refines the history of the
  frames published on it.
\<close>

section \<open>Data\<close>

text \<open>
  A \<open>*MediaMessage\<close>: an index into the stream's slab, or a private immutable heap copy
  (the init clones).
\<close>

datatype msg_ptr = SlabMsg nat | HeapMsg "bytes MediaMessage"

record Subscriber =
  sub_id :: u64
  sub_cursor :: u64
  sub_pending :: "bytes MediaMessage list"
  sub_pendIdx :: nat
  sub_dropped :: u64

text \<open>
  \<open>st_notify\<close> numbers the channel that is current: channels are made one after the other
  and closed when they are replaced, so channel \<open>c\<close> is closed exactly when \<open>c < st_notify\<close>.
\<close>

record Stream =
  st_key :: StreamKey
  st_publisher :: "u64 option"
  st_subscribers :: "(u64, Subscriber) gomap"
  st_nextSubID :: u64
  st_initVideo :: "bytes MediaMessage option"
  st_initAudio :: "bytes MediaMessage option"
  st_initMeta :: "bytes MediaMessage option"
  st_log :: "msg_ptr SharedLog"
  st_arena :: Arena
  st_msgs :: "slice MediaMessage list"
  st_msgCur :: u64
  st_notify :: nat

abbreviation defaultLogSize :: nat where "defaultLogSize \<equiv> 1024"
abbreviation defaultArenaSlots :: nat where "defaultArenaSlots \<equiv> 4096"
abbreviation defaultArenaSlotSize :: nat where "defaultArenaSlotSize \<equiv> 16 * 1024"

definition zero_message :: "slice MediaMessage" where
  "zero_message = \<lparr>mm_Type = 0, mm_Timestamp = 0, mm_Payload = NilSlice, mm_IsInit = False\<rparr>"

section \<open>Construction\<close>

text \<open>\<open>None\<close>: a rounding loop does not end.\<close>

definition NewStreamWithCapacity :: "StreamKey \<Rightarrow> nat \<Rightarrow> nat \<Rightarrow> nat \<Rightarrow> Stream option" where
  "NewStreamWithCapacity key logSize arenaSlots arenaSlotSize =
     (case (NewSharedLog (word_of_nat logSize), NewArena arenaSlots arenaSlotSize) of
        (Some l, Some a) \<Rightarrow>
          Some \<lparr>st_key = key, st_publisher = None, st_subscribers = [], st_nextSubID = 1,
                st_initVideo = None, st_initAudio = None, st_initMeta = None,
                st_log = l, st_arena = a, st_msgs = replicate arenaSlots zero_message,
                st_msgCur = 0, st_notify = 0\<rparr>
      | _ \<Rightarrow> None)"

text \<open>With the default capacities both loops end (\<open>NewStream_eq\<close>), so a stream always results.\<close>

definition NewStream :: "StreamKey \<Rightarrow> Stream" where
  "NewStream key =
     the (NewStreamWithCapacity key defaultLogSize defaultArenaSlots defaultArenaSlotSize)"

section \<open>Reading memory\<close>

definition msg_load :: "Stream \<Rightarrow> msg_ptr \<Rightarrow> bytes MediaMessage" where
  "msg_load s p =
     (case p of
        HeapMsg m \<Rightarrow> m
      | SlabMsg i \<Rightarrow>
          let m = st_msgs s ! i in
          \<lparr>mm_Type = mm_Type m, mm_Timestamp = mm_Timestamp m,
           mm_Payload = slice_bytes (st_arena s) (mm_Payload m), mm_IsInit = mm_IsInit m\<rparr>)"

section \<open>Operations\<close>

definition Stream_WaitChan :: "Stream \<Rightarrow> nat" where
  "Stream_WaitChan s = st_notify s"

definition chan_closed :: "Stream \<Rightarrow> nat \<Rightarrow> bool" where
  "chan_closed s c \<longleftrightarrow> c < st_notify s"

definition Stream_broadcastReady :: "Stream \<Rightarrow> Stream" where
  "Stream_broadcastReady s = s\<lparr>st_notify := st_notify s + 1\<rparr>"

definition Stream_AcquirePayload :: "nat \<Rightarrow> Stream \<Rightarrow> Stream \<times> slice" where
  "Stream_AcquirePayload sz s =
     (case Arena_Acquire sz (st_arena s) of (a, sl) \<Rightarrow> (s\<lparr>st_arena := a\<rparr>, sl))"

definition Stream_AcquireMessage :: "Stream \<Rightarrow> Stream \<times> nat" where
  "Stream_AcquireMessage s =
     (let n = st_msgCur s;
          i = unat n mod length (st_msgs s)
      in (s\<lparr>st_msgCur := n + 1, st_msgs := (st_msgs s)[i := zero_message]\<rparr>, i))"

definition Stream_AttachPublisher :: "u64 \<Rightarrow> Stream \<Rightarrow> Stream \<times> bool" where
  "Stream_AttachPublisher pid s =
     (if st_publisher s \<noteq> None then (s, False)
      else (s\<lparr>st_publisher := Some pid\<rparr>, True))"

definition Stream_DetachPublisher :: "Stream \<Rightarrow> Stream" where
  "Stream_DetachPublisher s =
     s\<lparr>st_publisher := None, st_initVideo := None, st_initAudio := None, st_initMeta := None\<rparr>"

definition Stream_HasPublisher :: "Stream \<Rightarrow> bool" where
  "Stream_HasPublisher s \<longleftrightarrow> st_publisher s \<noteq> None"

definition newSubscriber :: "u64 \<Rightarrow> Stream \<Rightarrow> Subscriber" where
  "newSubscriber i s =
     \<lparr>sub_id = i, sub_cursor = SharedLog_LatestSeq (st_log s), sub_pending = [],
      sub_pendIdx = 0, sub_dropped = 0\<rparr>"

definition option_to_list :: "'a option \<Rightarrow> 'a list" where
  "option_to_list x = (case x of None \<Rightarrow> [] | Some y \<Rightarrow> [y])"

definition Stream_AttachSubscriber :: "Stream \<Rightarrow> Stream \<times> u64" where
  "Stream_AttachSubscriber s =
     (let i = st_nextSubID s;
          sub = (newSubscriber i s)\<lparr>sub_pending :=
            option_to_list (st_initMeta s) @ option_to_list (st_initVideo s) @
            option_to_list (st_initAudio s)\<rparr>
      in (s\<lparr>st_nextSubID := i + 1, st_subscribers := gomap_set i sub (st_subscribers s)\<rparr>, i))"

definition Stream_DetachSubscriber :: "u64 \<Rightarrow> Stream \<Rightarrow> Stream" where
  "Stream_DetachSubscriber i s = s\<lparr>st_subscribers := gomap_delete i (st_subscribers s)\<rparr>"

definition Stream_cacheInitMessage :: "bytes MediaMessage \<Rightarrow> Stream \<Rightarrow> Stream" where
  "Stream_cacheInitMessage m s =
     (if mm_Type m = MessageTypeVideo then s\<lparr>st_initVideo := Some (MediaMessage_Clone m)\<rparr>
      else if mm_Type m = MessageTypeAudio then s\<lparr>st_initAudio := Some (MediaMessage_Clone m)\<rparr>
      else if mm_Type m = MessageTypeMetadata then s\<lparr>st_initMeta := Some (MediaMessage_Clone m)\<rparr>
      else s)"

definition Stream_Publish :: "msg_ptr option \<Rightarrow> Stream \<Rightarrow> Stream" where
  "Stream_Publish msg s =
     (case msg of
        None \<Rightarrow> s
      | Some p \<Rightarrow>
          let m = msg_load s p;
              s1 = (if mm_IsInit m then Stream_cacheInitMessage m s else s);
              s2 = s1\<lparr>st_log := fst (SharedLog_Publish (Some p) (st_log s1))\<rparr>
          in Stream_broadcastReady s2)"

definition Stream_SubscriberCount :: "Stream \<Rightarrow> nat" where
  "Stream_SubscriberCount s = length (gomap_keys (st_subscribers s))"

definition Stream_IsEmpty :: "Stream \<Rightarrow> bool" where
  "Stream_IsEmpty s \<longleftrightarrow> st_publisher s = None \<and> length (gomap_keys (st_subscribers s)) = 0"

definition Stream_MessagesPublished :: "Stream \<Rightarrow> u64" where
  "Stream_MessagesPublished s = SharedLog_LatestSeq (st_log s)"

definition Stream_HasAudioInit :: "Stream \<Rightarrow> bool" where
  "Stream_HasAudioInit s \<longleftrightarrow> st_initAudio s \<noteq> None"

definition Stream_HasVideoInit :: "Stream \<Rightarrow> bool" where
  "Stream_HasVideoInit s \<longleftrightarrow> st_initVideo s \<noteq> None"

definition Stream_TotalDropped :: "Stream \<Rightarrow> u64" where
  "Stream_TotalDropped s = foldl (\<lambda>total (_, sub). total + sub_dropped sub) 0 (st_subscribers s)"

text \<open>\<open>Read\<close> on a subscriber of a stream whose log is \<open>l\<close>: the message pointer, if there is one.\<close>

definition Subscriber_Read :: "msg_ptr SharedLog \<Rightarrow> Subscriber \<Rightarrow> Subscriber \<times> msg_ptr option \<times> bool" where
  "Subscriber_Read l sub =
     (if sub_pendIdx sub < length (sub_pending sub) then
        (sub\<lparr>sub_pendIdx := sub_pendIdx sub + 1\<rparr>, Some (HeapMsg (sub_pending sub ! sub_pendIdx sub)), True)
      else
        (case SharedLog_readAt (sub_cursor sub) l of
           (_, _, False) \<Rightarrow> (sub, None, False)
         | (nxt, res, True) \<Rightarrow>
             (sub\<lparr>sub_dropped := (if rr_skipped res > 0 then sub_dropped sub + rr_skipped res
                                  else sub_dropped sub),
                  sub_cursor := nxt\<rparr>, rr_msg res, True)))"

text \<open>
  What every publishing path does with a frame: take a slab message, fill its fields, take
  payload memory, append the bytes, publish the pointer.
\<close>

definition publish_frame :: "MessageType \<Rightarrow> u32 \<Rightarrow> bool \<Rightarrow> bytes \<Rightarrow> Stream \<Rightarrow> Stream" where
  "publish_frame t ts isInit payload s =
     (let (s1, i) = Stream_AcquireMessage s;
          (s2, buf) = Stream_AcquirePayload (length payload) s1;
          (a, pl) = slice_append buf payload (st_arena s2);
          s3 = s2\<lparr>st_arena := a,
                  st_msgs := (st_msgs s2)[i := \<lparr>mm_Type = t, mm_Timestamp = ts, mm_Payload = pl, mm_IsInit = isInit\<rparr>]\<rparr>
      in Stream_Publish (Some (SlabMsg i)) s3)"

lemmas stream_defs [bus_defs] =
  Stream_WaitChan_def Stream_broadcastReady_def Stream_AttachPublisher_def Stream_DetachPublisher_def
  Stream_HasPublisher_def newSubscriber_def Stream_AttachSubscriber_def Stream_DetachSubscriber_def
  Stream_cacheInitMessage_def Stream_Publish_def Stream_SubscriberCount_def Stream_IsEmpty_def
  Stream_MessagesPublished_def Stream_HasAudioInit_def Stream_HasVideoInit_def Subscriber_Read_def

section \<open>The history a stream stands for\<close>

definition small_count :: "nat \<Rightarrow> bytes MediaMessage list \<Rightarrow> nat" where
  "small_count slot h = length (filter (\<lambda>m. length (mm_Payload m) \<le> slot) h)"

definition frame_slice :: "Arena \<Rightarrow> bytes MediaMessage list \<Rightarrow> nat \<Rightarrow> slice" where
  "frame_slice a h i =
     (let p = mm_Payload (h ! i) in
      if length p \<le> ar_slot a
      then slot_slice a (small_count (ar_slot a) (take i h) mod arena_slots a) (length p)
      else HeapSlice p)"

definition slab_holds :: "Stream \<Rightarrow> bytes MediaMessage list \<Rightarrow> nat \<Rightarrow> bool" where
  "slab_holds s h i \<longleftrightarrow>
     st_msgs s ! (i mod length (st_msgs s)) =
       \<lparr>mm_Type = mm_Type (h ! i), mm_Timestamp = mm_Timestamp (h ! i),
        mm_Payload = frame_slice (st_arena s) h i, mm_IsInit = mm_IsInit (h ! i)\<rparr> \<and>
     slice_bytes (st_arena s) (frame_slice (st_arena s) h i) = mm_Payload (h ! i)"

definition slab_ptrs :: "Stream \<Rightarrow> nat \<Rightarrow> msg_ptr list" where
  "slab_ptrs s n = map (\<lambda>i. SlabMsg (i mod length (st_msgs s))) [0..<n]"

definition stream_rep :: "Stream \<Rightarrow> bytes MediaMessage list \<Rightarrow> bool" where
  "stream_rep s h \<longleftrightarrow>
     log_rep (st_log s) (slab_ptrs s (length h)) \<and>
     unat (sl_size (st_log s)) \<le> length (st_msgs s) \<and>
     length (st_msgs s) \<le> arena_slots (st_arena s) \<and>
     arena_inv (st_arena s) \<and>
     st_msgCur s = word_of_nat (length h) \<and>
     ar_cursor (st_arena s) = word_of_nat (small_count (ar_slot (st_arena s)) h) \<and>
     (\<forall>i < length h. length h - i \<le> length (st_msgs s) \<longrightarrow> slab_holds s h i)"

lemma small_count_snoc:
  "small_count k (h @ [m]) = small_count k h + (if length (mm_Payload m) \<le> k then 1 else 0)"
  by (simp add: small_count_def)

lemma small_count_append: "small_count k (h @ g) = small_count k h + small_count k g"
  by (simp add: small_count_def)

lemma small_count_le: "small_count k h \<le> length h"
  by (simp add: small_count_def)

lemma small_count_window:
  assumes "i < length h" "length (mm_Payload (h ! i)) \<le> k"
  shows "small_count k (take i h) < small_count k h"
    and "small_count k h - small_count k (take i h) \<le> length h - i"
proof -
  have h: "h = take i h @ h ! i # drop (Suc i) h" using assms(1) by (simp add: id_take_nth_drop)
  have "small_count k h = small_count k (take i h) + small_count k (h ! i # drop (Suc i) h)"
    by (subst h) (simp add: small_count_append)
  moreover have "0 < small_count k (h ! i # drop (Suc i) h)" using assms(2) by (simp add: small_count_def)
  moreover have "small_count k (h ! i # drop (Suc i) h) \<le> length h - i"
    using small_count_le [of k "h ! i # drop (Suc i) h"] assms(1) by simp
  ultimately show "small_count k (take i h) < small_count k h"
    and "small_count k h - small_count k (take i h) \<le> length h - i" by linarith+
qed

text \<open>The memory effect of taking payload memory for a frame and filling it.\<close>

definition fill_payload :: "bytes \<Rightarrow> Arena \<Rightarrow> Arena \<times> slice" where
  "fill_payload p a = (case Arena_Acquire (length p) a of (a', buf) \<Rightarrow> slice_append buf p a')"

lemma fill_payload_arena:
  assumes "fill_payload p a = (a', sl)" "arena_inv a"
  shows "arena_inv a'" "ar_slot a' = ar_slot a" "arena_slots a' = arena_slots a"
    "slice_bytes a' sl = p"
    "ar_cursor a' = ar_cursor a + (if length p \<le> ar_slot a then 1 else 0)"
    "sl = (if length p \<le> ar_slot a then slot_slice a (unat (ar_cursor a) mod arena_slots a) (length p) else HeapSlice p)"
    "\<And>j len. j < arena_slots a \<Longrightarrow> len \<le> ar_slot a \<Longrightarrow>
       length p \<le> ar_slot a \<longrightarrow> j \<noteq> unat (ar_cursor a) mod arena_slots a \<Longrightarrow>
       slice_bytes a' (slot_slice a j len) = slice_bytes a (slot_slice a j len)"
proof -
  let ?i = "unat (ar_cursor a) mod arena_slots a" and ?b = "a\<lparr>ar_cursor := ar_cursor a + 1\<rparr>"
  have pos: "0 < arena_slots a" by (simp add: arena_slots_def)
  have b: "arena_inv ?b" "?i < arena_slots ?b" "arena_slots ?b = arena_slots a"
    using assms(2) pos by (simp_all add: arena_inv_def arena_slots_def)
  consider (small) "length p \<le> ar_slot a"
      "a' = ?b\<lparr>ar_base := write_at (?i * ar_slot ?b) p (ar_base ?b)\<rparr>" "sl = slot_slice a ?i (length p)"
    | (large) "ar_slot a < length p" "a' = a" "sl = HeapSlice p"
    using assms(1) append_slot(1) [OF b(1,2), of p] Acquire_small [OF assms(2), of "length p"]
    by (cases "length p \<le> ar_slot a")
      (auto simp: fill_payload_def slot_slice_def Acquire_large slice_append_def)
  then have "arena_inv a' \<and> ar_slot a' = ar_slot a \<and> arena_slots a' = arena_slots a \<and>
    slice_bytes a' sl = p \<and>
    ar_cursor a' = ar_cursor a + (if length p \<le> ar_slot a then 1 else 0) \<and>
    sl = (if length p \<le> ar_slot a then slot_slice a ?i (length p) else HeapSlice p) \<and>
    (\<forall>j len. j < arena_slots a \<longrightarrow> len \<le> ar_slot a \<longrightarrow>
       (length p \<le> ar_slot a \<longrightarrow> j \<noteq> ?i) \<longrightarrow>
       slice_bytes a' (slot_slice a j len) = slice_bytes a (slot_slice a j len))"
  proof cases
    case small
    note app = append_slot(2,3,4) [OF b(1,2), of p]
    from small app show ?thesis
      by (auto simp: arena_slots_def slot_slice_def slice_bytes_def)
  next
    case large
    then show ?thesis using assms(2) by (auto simp: slice_bytes_def)
  qed
  then show "arena_inv a'" "ar_slot a' = ar_slot a" "arena_slots a' = arena_slots a"
    "slice_bytes a' sl = p"
    "ar_cursor a' = ar_cursor a + (if length p \<le> ar_slot a then 1 else 0)"
    "sl = (if length p \<le> ar_slot a then slot_slice a ?i (length p) else HeapSlice p)"
    "\<And>j len. j < arena_slots a \<Longrightarrow> len \<le> ar_slot a \<Longrightarrow>
       length p \<le> ar_slot a \<longrightarrow> j \<noteq> ?i \<Longrightarrow>
       slice_bytes a' (slot_slice a j len) = slice_bytes a (slot_slice a j len)"
    by auto
qed

lemma cacheInit_core:
  "st_log (Stream_cacheInitMessage m s) = st_log s" "st_arena (Stream_cacheInitMessage m s) = st_arena s"
  "st_msgs (Stream_cacheInitMessage m s) = st_msgs s" "st_msgCur (Stream_cacheInitMessage m s) = st_msgCur s"
  "st_notify (Stream_cacheInitMessage m s) = st_notify s" "st_publisher (Stream_cacheInitMessage m s) = st_publisher s"
  "st_subscribers (Stream_cacheInitMessage m s) = st_subscribers s"
  "st_nextSubID (Stream_cacheInitMessage m s) = st_nextSubID s" "st_key (Stream_cacheInitMessage m s) = st_key s"
  by (simp_all add: Stream_cacheInitMessage_def)

lemma publish_frame_core:
  fixes t ts isInit p s
  assumes "fill_payload p (st_arena s) = (a, sl)"
  defines "s' \<equiv> publish_frame t ts isInit p s" and "i \<equiv> unat (st_msgCur s) mod length (st_msgs s)"
  shows "st_log s' = fst (SharedLog_Publish (Some (SlabMsg i)) (st_log s))"
    "st_arena s' = a"
    "st_msgs s' = (st_msgs s)[i := \<lparr>mm_Type = t, mm_Timestamp = ts, mm_Payload = sl, mm_IsInit = isInit\<rparr>]"
    "st_msgCur s' = st_msgCur s + 1" "st_notify s' = st_notify s + 1"
    "st_publisher s' = st_publisher s" "st_subscribers s' = st_subscribers s"
    "st_nextSubID s' = st_nextSubID s" "st_key s' = st_key s"
  using assms(1)
  by (simp_all add: s'_def i_def publish_frame_def fill_payload_def Stream_AcquireMessage_def Let_def
      Stream_AcquirePayload_def Stream_Publish_def Stream_broadcastReady_def cacheInit_core split: prod.splits)

lemma slab_ptrs_Suc: "slab_ptrs s (Suc n) = slab_ptrs s n @ [SlabMsg (n mod length (st_msgs s))]"
  by (simp add: slab_ptrs_def)

lemma length_slab_ptrs [simp]: "length (slab_ptrs s n) = n"
  by (simp add: slab_ptrs_def)

lemma frame_slice_append: "i < length h \<Longrightarrow> frame_slice a (h @ g) i = frame_slice a h i"
  by (simp add: frame_slice_def nth_append Let_def)

lemma frame_slice_cong:
  "ar_slot a' = ar_slot a \<Longrightarrow> arena_slots a' = arena_slots a \<Longrightarrow> frame_slice a' h i = frame_slice a h i"
  by (simp add: frame_slice_def slot_slice_def Let_def)

lemma stream_rep_bounds:
  assumes "stream_rep s h"
  shows "0 < length (st_msgs s)" "length h < 2 ^ 64" "unat (st_msgCur s) = length h"
    "unat (ar_cursor (st_arena s)) = small_count (ar_slot (st_arena s)) h"
proof -
  from assms have log: "log_rep (st_log s) (slab_ptrs s (length h))" by (simp add: stream_rep_def)
  then show len: "length h < 2 ^ 64" by (simp add: log_rep_def)
  from log assms show "0 < length (st_msgs s)"
    using log_shape_size by (fastforce simp: log_rep_def stream_rep_def)
  from assms len show "unat (st_msgCur s) = length h" by (simp add: stream_rep_def unat_of_nat)
  from assms len small_count_le [of "ar_slot (st_arena s)" h]
  show "unat (ar_cursor (st_arena s)) = small_count (ar_slot (st_arena s)) h"
    by (simp add: stream_rep_def unat_of_nat)
qed

text \<open>
  Filling the memory of the next frame leaves the payload of every frame of the last lap.
\<close>

lemma frame_slice_survives:
  assumes rep: "stream_rep s h" and fill: "fill_payload p (st_arena s) = (a, sl)"
    and i: "i < length h" "Suc (length h) - i \<le> length (st_msgs s)"
  shows "slice_bytes a (frame_slice a h i) = mm_Payload (h ! i)"
proof -
  let ?a = "st_arena s" and ?k = "ar_slot (st_arena s)"
  from rep have inv: "arena_inv ?a" and old: "slice_bytes ?a (frame_slice ?a h i) = mm_Payload (h ! i)"
    and slots: "length (st_msgs s) \<le> arena_slots ?a"
    using i by (auto simp: stream_rep_def slab_holds_def)
  note f = fill_payload_arena [OF fill inv] and cursor = stream_rep_bounds(4) [OF rep]
  have "slice_bytes a (frame_slice ?a h i) = slice_bytes ?a (frame_slice ?a h i)"
  proof (cases "length (mm_Payload (h ! i)) \<le> ?k")
    case True
    let ?c = "small_count ?k (take i h)"
    have "?c mod arena_slots ?a \<noteq> small_count ?k h mod arena_slots ?a"
      using small_count_window [OF i(1) True] i slots by (intro mod_distinct_window) auto
    then show ?thesis using True f(7) cursor
      by (simp add: frame_slice_def Let_def arena_slots_def)
  next
    case False
    then show ?thesis by (simp add: frame_slice_def slice_bytes_def)
  qed
  with old show ?thesis using frame_slice_cong [OF f(2,3)] by simp
qed

lemma publish_frame_rep:
  fixes t ts p isInit
  assumes rep: "stream_rep s h" and len: "length h + 1 < 2 ^ 64"
  defines "m \<equiv> \<lparr>mm_Type = t, mm_Timestamp = ts, mm_Payload = p, mm_IsInit = isInit\<rparr>"
  shows "stream_rep (publish_frame t ts isInit p s) (h @ [m])"
proof -
  let ?s = "publish_frame t ts isInit p s" and ?n = "length (st_msgs s)"
  obtain a sl where fill: "fill_payload p (st_arena s) = (a, sl)" by fastforce
  note core = publish_frame_core [OF fill, of t ts isInit] and b = stream_rep_bounds [OF rep]
  from rep have inv: "arena_inv (st_arena s)" by (simp add: stream_rep_def)
  note f = fill_payload_arena [OF fill inv]
  have idx: "unat (st_msgCur s) mod ?n = length h mod ?n" using b by simp
  have lenm: "length (st_msgs ?s) = ?n" using core by simp
  have ptrs: "slab_ptrs ?s k = slab_ptrs s k" for k by (simp add: slab_ptrs_def lenm)
  have "log_rep (st_log ?s) (slab_ptrs s (length h) @ [SlabMsg (length h mod ?n)])"
    using rep len unfolding core(1) idx by (intro Publish_rep) (auto simp: stream_rep_def)
  then have "log_rep (st_log ?s) (slab_ptrs ?s (length (h @ [m])))"
    by (simp only: ptrs slab_ptrs_Suc length_append_singleton lenm)
  moreover have "unat (sl_size (st_log ?s)) \<le> length (st_msgs ?s)"
    using rep core(1) by (simp add: lenm stream_rep_def SharedLog_Publish_def Let_def)
  moreover have "length (st_msgs ?s) \<le> arena_slots (st_arena ?s)" "arena_inv (st_arena ?s)"
    using rep core(2) f(1,3) by (simp_all add: lenm stream_rep_def)
  moreover have "st_msgCur ?s = word_of_nat (length (h @ [m]))"
    using rep core(4) by (simp add: stream_rep_def add.commute)
  moreover have "ar_cursor (st_arena ?s) = word_of_nat (small_count (ar_slot (st_arena ?s)) (h @ [m]))"
    using rep core(2) f(2,5) by (simp add: stream_rep_def small_count_snoc m_def)
  moreover have "slab_holds ?s (h @ [m]) i"
    if i: "i < length (h @ [m])" "length (h @ [m]) - i \<le> length (st_msgs ?s)" for i
  proof (cases "i = length h")
    case True
    have "sl = frame_slice a (h @ [m]) i"
      using True f(2,3,6) b(4) by (simp add: frame_slice_def m_def slot_slice_def)
    then show ?thesis using True b(1) core(2,3) f(4) lenm
      by (simp add: slab_holds_def idx m_def)
  next
    case False
    with i lenm have i': "i < length h" "Suc (length h) - i \<le> ?n" by auto
    have "i mod ?n \<noteq> length h mod ?n" using i' by (intro mod_distinct_window) auto
    moreover have "slab_holds s h i" using rep i' by (simp add: stream_rep_def)
    ultimately show ?thesis
      using frame_slice_survives [OF rep fill i'] i'(1) core(2,3) lenm frame_slice_cong [OF f(2,3)]
      by (simp add: slab_holds_def idx frame_slice_append nth_append)
  qed
  ultimately show ?thesis unfolding stream_rep_def by blast
qed

section \<open>Construction\<close>

lemma pow2_loop_exp:
  assumes "k < LENGTH('a)" shows "pow2_loop 1 (2 ^ k :: 'a::len word) = Some (2 ^ k)"
proof -
  have c: "unat (2 ^ k :: 'a word) = 2 ^ k" using assms by (rule unat_exp)
  have "unat (2 ^ k :: 'a word) \<le> 2 ^ (LENGTH('a) - 1)" using assms by (simp add: c)
  then obtain i where i: "pow2_loop 1 (2 ^ k :: 'a word) = Some (2 ^ i)"
    "unat (2 ^ k :: 'a word) \<le> 2 ^ i" "i = 0 \<or> 2 ^ i < 2 * unat (2 ^ k :: 'a word)"
    by (rule pow2_loop_Some)
  then have "(2::nat) ^ k \<le> 2 ^ i" "i = 0 \<or> (2::nat) ^ i < 2 ^ Suc k" unfolding c by auto
  then have "k \<le> i" "i = 0 \<or> i < Suc k" by (auto simp del: power_Suc)
  then have "i = k" by auto
  with i show ?thesis by simp
qed

lemma NewStreamWithCapacity_rep:
  assumes "1 < logSize" "logSize < 2 ^ 32" "2 * logSize \<le> arenaSlots" "arenaSlots \<le> 2 ^ 63"
  shows "\<exists>s. NewStreamWithCapacity key logSize arenaSlots slotSize = Some s \<and> stream_rep s []"
proof -
  have c: "unat (word_of_nat logSize :: u32) = logSize" using assms(2) by (simp add: unat_of_nat)
  obtain l :: "msg_ptr SharedLog" where l: "NewSharedLog (word_of_nat logSize) = Some l" "log_rep l []"
    "unat (sl_size l) < 2 * logSize"
    using NewSharedLog_total [of "word_of_nat logSize"] assms(1) unfolding c by auto
  obtain a where a: "NewArena arenaSlots slotSize = Some a" "arena_inv a" "arenaSlots \<le> arena_slots a"
    "ar_cursor a = 0"
    using NewArena_total [OF assms(4)] by blast
  show ?thesis using l a assms(3)
    by (auto simp: NewStreamWithCapacity_def stream_rep_def slab_ptrs_def small_count_def)
qed

lemma NewStream_rep:
  shows "stream_rep (NewStream key) []" "unat (sl_size (st_log (NewStream key))) = 1024"
  "st_key (NewStream key) = key" "st_publisher (NewStream key) = None" "st_subscribers (NewStream key) = []"
  "st_initMeta (NewStream key) = None" "st_initVideo (NewStream key) = None" "st_initAudio (NewStream key) = None"
  "st_nextSubID (NewStream key) = 1"
  and NewStream_slab: "length (st_msgs (NewStream key)) = defaultArenaSlots"
proof -
  obtain s where s: "NewStreamWithCapacity key defaultLogSize defaultArenaSlots defaultArenaSlotSize = Some s"
    "stream_rep s []"
    using NewStreamWithCapacity_rep [of defaultLogSize defaultArenaSlots key defaultArenaSlotSize] by auto
  then have "NewStream key = s" by (simp add: NewStream_def)
  with s show "stream_rep (NewStream key) []" by simp
  have "pow2_loop 1 (1024 :: u64) = Some 1024" using pow2_loop_exp [where ?'a = 64, of 10] by simp
  with s obtain a where "s = \<lparr>st_key = key, st_publisher = None, st_subscribers = [], st_nextSubID = 1,
      st_initVideo = None, st_initAudio = None, st_initMeta = None,
      st_log = \<lparr>sl_buf = replicate 1024 None, sl_mask = 1023, sl_size = 1024, sl_nextSeq = 0\<rparr>,
      st_arena = a, st_msgs = replicate defaultArenaSlots zero_message, st_msgCur = 0, st_notify = 0\<rparr>"
    by (auto simp: NewStreamWithCapacity_def NewSharedLog_def split: option.splits)
  with \<open>NewStream key = s\<close> show "unat (sl_size (st_log (NewStream key))) = 1024"
    "st_key (NewStream key) = key" "st_publisher (NewStream key) = None" "st_subscribers (NewStream key) = []"
    "st_initMeta (NewStream key) = None" "st_initVideo (NewStream key) = None" "st_initAudio (NewStream key) = None"
    "st_nextSubID (NewStream key) = 1" "length (st_msgs (NewStream key)) = defaultArenaSlots"
    by simp_all
qed

section \<open>Subscribers read the history\<close>

text \<open>\<open>Read\<close> followed by looking at the message it returned.\<close>

definition stream_read :: "Stream \<Rightarrow> Subscriber \<Rightarrow> (Subscriber \<times> bytes MediaMessage) option" where
  "stream_read s sub =
     (case Subscriber_Read (st_log s) sub of
        (sub', Some p, True) \<Rightarrow> Some (sub', msg_load s p)
      | _ \<Rightarrow> None)"

definition sub_live :: "Subscriber \<Rightarrow> bool" where
  "sub_live sub \<longleftrightarrow> length (sub_pending sub) \<le> sub_pendIdx sub"

lemma msg_load_slab: "slab_holds s h i \<Longrightarrow> msg_load s (SlabMsg (i mod length (st_msgs s))) = h ! i"
  by (simp add: slab_holds_def msg_load_def)

interpretation sread: message_log stream_rep "\<lambda>s. unat (sl_size (st_log s))" stream_read
  "\<lambda>sub. unat (sub_cursor sub)" sub_dropped sub_live
proof
  fix s h and c :: Subscriber
  assume rep: "stream_rep s h"
  then have log: "log_rep (st_log s) (slab_ptrs s (length h))" by (simp add: stream_rep_def)
  then show "0 < unat (sl_size (st_log s))" by (simp add: log_rep_def log_shape_size)
  assume live: "sub_live c"
  show "stream_read s c = None" if "unat (sub_cursor c) = length h"
    using that live readAt_caught_up [OF log] by (simp add: stream_read_def Subscriber_Read_def sub_live_def)
  let ?p = "read_pos (unat (sl_size (st_log s))) (length h) (unat (sub_cursor c))"
  assume "unat (sub_cursor c) < length h"
  then have lt: "unat (sub_cursor c) < length (slab_ptrs s (length h))" by simp
  note r = readAt_behind [OF log lt, unfolded length_slab_ptrs]
  have "Suc ?p < 2 ^ 64" using r(3) stream_rep_bounds(2) [OF rep] by simp
  moreover have "slab_holds s h ?p"
    using rep r(3) by (auto simp: stream_rep_def read_pos_def)
  moreover have "slab_ptrs s (length h) ! ?p = SlabMsg (?p mod length (st_msgs s))"
    using r(3) by (simp add: slab_ptrs_def)
  ultimately show "\<exists>c'. stream_read s c = Some (c', h ! ?p) \<and> sub_live c' \<and>
      unat (sub_cursor c') = Suc ?p \<and> sub_dropped c' = sub_dropped c + word_of_nat (?p - unat (sub_cursor c))"
    using live r(1)
    by (auto simp: stream_read_def Subscriber_Read_def sub_live_def msg_load_slab unat_of_nat word_gt_0 simp del: of_nat_Suc of_nat_diff)
qed

text \<open>The init replay comes first, message by message, and leaves the cursor alone.\<close>

lemma drain_pending:
  assumes "sub_pendIdx sub + n = length (sub_pending sub)"
  shows "drain (stream_read s) (n + fuel) sub =
    (case drain (stream_read s) fuel (sub\<lparr>sub_pendIdx := length (sub_pending sub)\<rparr>) of
       (ms, sub') \<Rightarrow> (drop (sub_pendIdx sub) (sub_pending sub) @ ms, sub'))"
  using assms
proof (induction n arbitrary: sub)
  case 0
  then have eq: "sub\<lparr>sub_pendIdx := length (sub_pending sub)\<rparr> = sub" by (cases sub) simp
  show ?case using 0 unfolding eq by simp
next
  case (Suc n)
  then have lt: "sub_pendIdx sub < length (sub_pending sub)" by simp
  let ?sub = "sub\<lparr>sub_pendIdx := Suc (sub_pendIdx sub)\<rparr>"
  have "stream_read s sub = Some (?sub, sub_pending sub ! sub_pendIdx sub)"
    using lt by (simp add: stream_read_def Subscriber_Read_def msg_load_def)
  moreover have "drain (stream_read s) (n + fuel) ?sub =
    (case drain (stream_read s) fuel (?sub\<lparr>sub_pendIdx := length (sub_pending ?sub)\<rparr>) of
       (ms, sub') \<Rightarrow> (drop (sub_pendIdx ?sub) (sub_pending ?sub) @ ms, sub'))"
    using Suc lt by (intro Suc.IH) auto
  ultimately show ?case using lt by (auto simp: Cons_nth_drop_Suc [symmetric] split: prod.splits)
qed

section \<open>Late joiners\<close>

definition publish_frames :: "bytes MediaMessage list \<Rightarrow> Stream \<Rightarrow> Stream" where
  "publish_frames g s =
     foldl (\<lambda>s m. publish_frame (mm_Type m) (mm_Timestamp m) (mm_IsInit m) (mm_Payload m) s) s g"

lemma publish_frame_frame:
  "st_subscribers (publish_frame t ts b p s) = st_subscribers s"
  "st_publisher (publish_frame t ts b p s) = st_publisher s"
  "st_nextSubID (publish_frame t ts b p s) = st_nextSubID s"
  "st_key (publish_frame t ts b p s) = st_key s"
  "sl_size (st_log (publish_frame t ts b p s)) = sl_size (st_log s)"
  "st_notify (publish_frame t ts b p s) = Suc (st_notify s)"
proof -
  obtain a sl where "fill_payload p (st_arena s) = (a, sl)" by fastforce
  note core = publish_frame_core [OF this, of t ts b]
  then show "st_subscribers (publish_frame t ts b p s) = st_subscribers s"
    "st_publisher (publish_frame t ts b p s) = st_publisher s"
    "st_nextSubID (publish_frame t ts b p s) = st_nextSubID s"
    "st_key (publish_frame t ts b p s) = st_key s"
    "sl_size (st_log (publish_frame t ts b p s)) = sl_size (st_log s)"
    "st_notify (publish_frame t ts b p s) = Suc (st_notify s)"
    by (simp_all add: SharedLog_Publish_def Let_def)
qed

lemma publish_frames_rep:
  assumes "stream_rep s h" "length h + length g < 2 ^ 64"
  shows "stream_rep (publish_frames g s) (h @ g)"
    and "st_subscribers (publish_frames g s) = st_subscribers s"
    and "sl_size (st_log (publish_frames g s)) = sl_size (st_log s)"
proof -
  have "stream_rep (publish_frames g s) (h @ g) \<and> st_subscribers (publish_frames g s) = st_subscribers s \<and>
      sl_size (st_log (publish_frames g s)) = sl_size (st_log s)"
    using assms
  proof (induction g arbitrary: s h)
    case Nil
    then show ?case by (simp add: publish_frames_def)
  next
    case (Cons m g)
    let ?s = "publish_frame (mm_Type m) (mm_Timestamp m) (mm_IsInit m) (mm_Payload m) s"
    have "stream_rep ?s (h @ [m])"
      using publish_frame_rep [OF Cons.prems(1)] Cons.prems(2) by (cases m) simp
    with Cons.IH [of ?s "h @ [m]"] Cons.prems show ?case
      by (simp add: publish_frames_def publish_frame_frame)
  qed
  then show "stream_rep (publish_frames g s) (h @ g)"
    "st_subscribers (publish_frames g s) = st_subscribers s"
    "sl_size (st_log (publish_frames g s)) = sl_size (st_log s)" by blast+
qed

text \<open>Operations that leave the log and the memory alone keep the history.\<close>

lemma stream_rep_cong:
  "st_log s' = st_log s \<Longrightarrow> st_arena s' = st_arena s \<Longrightarrow> st_msgs s' = st_msgs s \<Longrightarrow>
    st_msgCur s' = st_msgCur s \<Longrightarrow> stream_rep s' h = stream_rep s h"
  by (simp add: stream_rep_def slab_ptrs_def slab_holds_def)

lemma stream_rep_keeps [simp]:
  "stream_rep (fst (Stream_AttachPublisher pid s)) h = stream_rep s h"
  "stream_rep (Stream_DetachPublisher s) h = stream_rep s h"
  "stream_rep (fst (Stream_AttachSubscriber s)) h = stream_rep s h"
  "stream_rep (Stream_DetachSubscriber i s) h = stream_rep s h"
  "stream_rep (s\<lparr>st_subscribers := subs\<rparr>) h = stream_rep s h"
  by (rule stream_rep_cong; simp add: stream_defs Let_def)+

lemma subscribers_keeps [simp]:
  "st_subscribers (fst (Stream_AttachPublisher pid s)) = st_subscribers s"
  "st_subscribers (Stream_DetachPublisher s) = st_subscribers s"
  by (simp_all add: stream_defs)

definition init_replay :: "Stream \<Rightarrow> bytes MediaMessage list" where
  "init_replay s =
     option_to_list (st_initMeta s) @ option_to_list (st_initVideo s) @ option_to_list (st_initAudio s)"

lemma init_replay_length: "length (init_replay s) \<le> 3"
  by (simp add: init_replay_def option_to_list_def split: option.splits)

lemma AttachSubscriber_sub:
  assumes "Stream_AttachSubscriber s = (s', i)"
  shows "gomap_get (st_subscribers s') i =
      Some \<lparr>sub_id = i, sub_cursor = sl_nextSeq (st_log s), sub_pending = init_replay s, sub_pendIdx = 0, sub_dropped = 0\<rparr>"
    and "i = st_nextSubID s" "sl_size (st_log s') = sl_size (st_log s)"
    and "\<And>j. j \<noteq> i \<Longrightarrow> gomap_get (st_subscribers s') j = gomap_get (st_subscribers s) j"
  using assms by (auto simp: stream_defs init_replay_def Let_def SharedLog_LatestSeq_def)

text \<open>
  A subscriber that attaches and then reads after the frames \<open>g\<close> were published.
\<close>

lemma late_joiner:
  assumes rep: "stream_rep s h" and len: "length h + length g < 2 ^ 64"
    and att: "Stream_AttachSubscriber s = (s', i)"
    and sub: "gomap_get (st_subscribers (publish_frames g s')) i = Some sub"
    and fuel: "3 + length g \<le> fuel"
  defines "k \<equiv> length g - unat (sl_size (st_log s))"
  shows "fst (drain (stream_read (publish_frames g s')) fuel sub) = init_replay s @ drop k g"
    and "sub_dropped (snd (drain (stream_read (publish_frames g s')) fuel sub)) = word_of_nat k"
proof -
  let ?s = "publish_frames g s'" and ?h = "h @ g"
  have rep': "stream_rep s' h" using rep stream_rep_keeps(3) [of s h] by (simp add: att)
  note p = publish_frames_rep [OF rep' len] and a = AttachSubscriber_sub [OF att]
  have subv: "sub = \<lparr>sub_id = i, sub_cursor = sl_nextSeq (st_log s), sub_pending = init_replay s,
      sub_pendIdx = 0, sub_dropped = 0\<rparr>" using sub p(2) a(1) by simp
  have "unat (sl_nextSeq (st_log s)) = length h"
    using rep unat_latest by (fastforce simp: stream_rep_def)
  then have cur: "unat (sub_cursor sub) = length h" by (simp add: subv)
  define n where "n = length (init_replay s)"
  let ?sub = "sub\<lparr>sub_pendIdx := n\<rparr>" and ?p = "read_pos (unat (sl_size (st_log s))) (length ?h) (length h)"
  have pd: "?p = length h + k" using sread.cap_pos [OF rep] by (auto simp: read_pos_def k_def)
  define f where "f = fuel - n"
  have f: "fuel = n + f" "length g \<le> f"
    using fuel init_replay_length [of s] unfolding n_def f_def by linarith+
  have d: "drain (stream_read ?s) fuel sub =
      (case drain (stream_read ?s) f ?sub of (ms, sub') \<Rightarrow> (init_replay s @ ms, sub'))"
    using drain_pending [of sub n ?s f] by (simp add: subv n_def f)
  have "sub_live ?sub" "unat (sub_cursor ?sub) \<le> length ?h" using cur by (simp_all add: sub_live_def subv n_def)
  note fin = sread.drain_suffix [OF p(1) this(1,2), of f]
  have "drop ?p ?h = drop k g" "?p - length h = k" using pd by auto
  then show "fst (drain (stream_read ?s) fuel sub) = init_replay s @ drop k g"
    "sub_dropped (snd (drain (stream_read ?s) fuel sub)) = word_of_nat k"
    using fin(1,2) f(2) pd p(3) a(3) cur unfolding d by (simp_all add: subv case_prod_unfold)
qed

section \<open>Interleavings\<close>

text \<open>
  Any interleaving of the stream's operations, with the history of the published frames and,
  per subscriber, the position it attached at and the live messages it has been given.
\<close>

record stream_run =
  sr_stream :: Stream
  sr_hist :: "bytes MediaMessage list"
  sr_from :: "u64 \<Rightarrow> nat"
  sr_given :: "u64 \<Rightarrow> bytes MediaMessage list"

definition given_live :: "Subscriber \<Rightarrow> bytes MediaMessage \<Rightarrow> bytes MediaMessage list" where
  "given_live sub m = (if sub_live sub then [m] else [])"

inductive stream_step :: "stream_run \<Rightarrow> stream_run \<Rightarrow> bool" where
  step_publish: "length (sr_hist r) + 1 < 2 ^ 64 \<Longrightarrow>
    stream_step r (r\<lparr>sr_stream := publish_frame t ts b p (sr_stream r),
      sr_hist := sr_hist r @ [\<lparr>mm_Type = t, mm_Timestamp = ts, mm_Payload = p, mm_IsInit = b\<rparr>]\<rparr>)"
| step_attach_publisher:
    "stream_step r (r\<lparr>sr_stream := fst (Stream_AttachPublisher pid (sr_stream r))\<rparr>)"
| step_detach_publisher: "stream_step r (r\<lparr>sr_stream := Stream_DetachPublisher (sr_stream r)\<rparr>)"
| step_attach_subscriber: "Stream_AttachSubscriber (sr_stream r) = (s', i) \<Longrightarrow>
    stream_step r (r\<lparr>sr_stream := s', sr_from := (sr_from r)(i := length (sr_hist r)),
      sr_given := (sr_given r)(i := [])\<rparr>)"
| step_detach_subscriber: "stream_step r (r\<lparr>sr_stream := Stream_DetachSubscriber i (sr_stream r)\<rparr>)"
| step_read: "gomap_get (st_subscribers (sr_stream r)) i = Some sub \<Longrightarrow>
    stream_read (sr_stream r) sub = Some (sub', m) \<Longrightarrow>
    stream_step r (r\<lparr>sr_stream := (sr_stream r)\<lparr>st_subscribers :=
        gomap_set i sub' (st_subscribers (sr_stream r))\<rparr>,
      sr_given := (sr_given r)(i := sr_given r i @ given_live sub m)\<rparr>)"

definition stream_start :: "stream_run \<Rightarrow> bool" where
  "stream_start r \<longleftrightarrow> (\<exists>key. sr_stream r = NewStream key) \<and> sr_hist r = []"

text \<open>
  What a subscriber was given is a subsequence of what was published since it attached, and
  its cursor accounts for every frame: given or counted as dropped.
\<close>

definition sub_ok :: "bytes MediaMessage list \<Rightarrow> nat \<Rightarrow> bytes MediaMessage list \<Rightarrow> Subscriber \<Rightarrow> bool" where
  "sub_ok h from given sub \<longleftrightarrow>
     unat (sub_cursor sub) \<le> length h \<and> sub_pendIdx sub \<le> length (sub_pending sub) \<and>
     from + length given + unat (sub_dropped sub) = unat (sub_cursor sub) \<and>
     subseq given (drop from (take (unat (sub_cursor sub)) h))"

definition stream_run_inv :: "stream_run \<Rightarrow> bool" where
  "stream_run_inv r \<longleftrightarrow>
     stream_rep (sr_stream r) (sr_hist r) \<and> gomap_wf (st_subscribers (sr_stream r)) \<and>
     (\<forall>i sub. gomap_get (st_subscribers (sr_stream r)) i = Some sub \<longrightarrow>
        sub_ok (sr_hist r) (sr_from r i) (sr_given r i) sub)"

lemma sub_ok_publish: "sub_ok h from given sub \<Longrightarrow> sub_ok (h @ [m]) from given sub"
  by (auto simp: sub_ok_def)

lemma sub_ok_attach:
  assumes "stream_rep s h" "Stream_AttachSubscriber s = (s', i)" "gomap_get (st_subscribers s') i = Some sub"
  shows "sub_ok h (length h) [] sub"
proof -
  have "unat (sl_nextSeq (st_log s)) = length h"
    using assms(1) unat_latest by (fastforce simp: stream_rep_def)
  then show ?thesis using AttachSubscriber_sub(1) [OF assms(2)] assms(3) by (auto simp: sub_ok_def)
qed

lemma sub_ok_read:
  assumes rep: "stream_rep s h" and ok: "sub_ok h from given sub" and rd: "stream_read s sub = Some (sub', m)"
  shows "sub_ok h from (given @ given_live sub m) sub'"
proof (cases "sub_live sub")
  case False
  then have "sub_pendIdx sub < length (sub_pending sub)" by (simp add: sub_live_def)
  then have "sub' = sub\<lparr>sub_pendIdx := sub_pendIdx sub + 1\<rparr>" using rd
    by (simp add: stream_read_def Subscriber_Read_def)
  then show ?thesis using ok False \<open>sub_pendIdx sub < _\<close> by (simp add: sub_ok_def given_live_def)
next
  case True
  let ?c = "unat (sub_cursor sub)"
  let ?p = "read_pos (unat (sl_size (st_log s))) (length h) ?c"
  have lt: "?c < length h"
    using sread.read_caught_up [OF rep True] rd ok by (fastforce simp: sub_ok_def le_eq_less_or_eq)
  with sread.read_behind [OF rep True] rd obtain
    m: "m = h ! ?p" and c': "unat (sub_cursor sub') = Suc ?p" and live: "sub_live sub'" and
    dr: "sub_dropped sub' = sub_dropped sub + word_of_nat (?p - ?c)" by auto
  have p: "?c \<le> ?p" "?p < length h" "?p - ?c \<le> length h" "length h < 2 ^ 64"
    using lt sread.cap_pos [OF rep] stream_rep_bounds(2) [OF rep] by (auto simp: read_pos_def)
  have from_le: "from + length given + unat (sub_dropped sub) = ?c" using ok by (simp add: sub_ok_def)
  have "unat (word_of_nat (?p - ?c) :: u64) = ?p - ?c" using p by (intro of_nat_inverse) auto
  then have "unat (sub_dropped sub') = unat (sub_dropped sub) + (?p - ?c)"
    using p from_le unfolding dr by (subst unat_word_ariths) simp
  moreover have "subseq (given @ [m]) (drop from (take (Suc ?p) h))"
  proof -
    have "take ?c h @ drop ?c (take ?p h) = take ?p h"
      using append_take_drop_id [of ?c "take ?p h"] p(1) by (simp add: min_absorb1)
    then have "take (Suc ?p) h = take ?c h @ drop ?c (take ?p h) @ [m]"
      using p(2) m by (simp only: take_Suc_conv_app_nth append_assoc [symmetric])
    then have "drop from (take (Suc ?p) h) = drop from (take ?c h) @ drop ?c (take ?p h) @ [m]"
      using from_le lt by simp
    moreover have "subseq given (drop from (take ?c h))" using ok by (simp add: sub_ok_def)
    ultimately show ?thesis by (simp add: list_emb_append_mono list_emb_append2)
  qed
  moreover have "sub_pendIdx sub' = sub_pendIdx sub \<and> sub_pending sub' = sub_pending sub"
    using rd True by (auto simp: stream_read_def Subscriber_Read_def sub_live_def split: prod.splits bool.splits option.splits)
  ultimately show ?thesis using ok True c' p from_le by (auto simp: sub_ok_def given_live_def)
qed

interpretation srun: inductive_invariant stream_start stream_step stream_run_inv
proof
  fix r assume "stream_start r"
  then show "stream_run_inv r" by (auto simp: stream_start_def stream_run_inv_def NewStream_rep)
next
  fix r r' assume inv: "stream_run_inv r" and st: "stream_step r r'"
  from st show "stream_run_inv r'"
  proof cases
    case (step_publish t ts b p)
    then show ?thesis using inv publish_frame_rep [of "sr_stream r" "sr_hist r" t ts p b]
      by (auto simp: stream_run_inv_def publish_frame_frame intro: sub_ok_publish)
  next
    case (step_attach_publisher pid)
    then show ?thesis using inv by (auto simp: stream_run_inv_def)
  next
    case step_detach_publisher
    then show ?thesis using inv by (auto simp: stream_run_inv_def)
  next
    case (step_attach_subscriber s' i)
    have "stream_rep s' (sr_hist r)" "gomap_wf (st_subscribers s')"
      using inv step_attach_subscriber(2) stream_rep_keeps(3) [of "sr_stream r"]
      by (auto simp: stream_run_inv_def Stream_AttachSubscriber_def Let_def)
    then show ?thesis
      using inv step_attach_subscriber sub_ok_attach [OF _ step_attach_subscriber(2)]
        AttachSubscriber_sub(4) [OF step_attach_subscriber(2)]
      by (auto simp: stream_run_inv_def)
  next
    case (step_detach_subscriber i)
    then show ?thesis using inv by (auto simp: stream_run_inv_def Stream_DetachSubscriber_def split: if_splits)
  next
    case (step_read i sub sub' m)
    then show ?thesis using inv sub_ok_read [of "sr_stream r" "sr_hist r"]
      by (auto simp: stream_run_inv_def)
  qed
qed

lemma publish_frames_slab: "length (st_msgs (publish_frames g (NewStream key))) = defaultArenaSlots"
proof -
  have step: "length (st_msgs (publish_frame t ts b p s)) = length (st_msgs s)" for t ts b p s
  proof -
    obtain a sl where "fill_payload p (st_arena s) = (a, sl)" by fastforce
    from publish_frame_core(3) [OF this, of t ts b] show ?thesis by simp
  qed
  have "length (st_msgs (publish_frames g s)) = length (st_msgs s)" for s
    unfolding publish_frames_def by (induction g arbitrary: s) (simp_all add: step)
  then show ?thesis by (simp add: NewStream_slab)
qed

section \<open>Properties\<close>

text \<open>
  C4. What a subscriber receives that attaches to a stream, after which the frames \<open>g\<close> are
  published, and that then reads until nothing is left: first the cached init messages in
  the order metadata, video, audio, then the frames of \<open>g\<close> byte for byte in order, all of
  them if they fit the log and otherwise the newest ones; \<open>Dropped\<close> is the number of frames
  that are missing. This holds although messages and payloads are recycled memory.
\<close>

theorem late_joiner_delivery:
  assumes "stream_rep s h" "length h + length g < 2 ^ 64"
  defines "s' \<equiv> publish_frames g (fst (Stream_AttachSubscriber s))"
    and "i \<equiv> snd (Stream_AttachSubscriber s)"
    and "k \<equiv> length g - unat (sl_size (st_log s))"
  shows "\<exists>sub sub'. gomap_get (st_subscribers s') i = Some sub \<and>
    drain (stream_read s') (3 + length g) sub =
      (option_to_list (st_initMeta s) @ option_to_list (st_initVideo s) @
       option_to_list (st_initAudio s) @ drop k g, sub') \<and>
    sub_dropped sub' = word_of_nat k"
proof -
  have att: "Stream_AttachSubscriber s = (fst (Stream_AttachSubscriber s), i)" by (simp add: i_def)
  have rep: "stream_rep (fst (Stream_AttachSubscriber s)) h" using assms(1) by simp
  have "st_subscribers s' = st_subscribers (fst (Stream_AttachSubscriber s))"
    unfolding s'_def by (rule publish_frames_rep(2) [OF rep assms(2)])
  then obtain sub where "gomap_get (st_subscribers s') i = Some sub"
    using AttachSubscriber_sub(1) [OF att] by simp
  with late_joiner [OF assms(1,2) att, of sub "3 + length g"] show ?thesis
    by (simp add: s'_def k_def init_replay_def prod_eq_iff)
qed

abbreviation example_key :: StreamKey where
  "example_key \<equiv> \<lparr>sk_App = ''live'', sk_Name = ''cam''\<rparr>"

abbreviation example_frame :: "bytes MediaMessage" where
  "example_frame \<equiv> \<lparr>mm_Type = 1, mm_Timestamp = 40, mm_Payload = [0x17, 1, 0], mm_IsInit = False\<rparr>"

theorem late_joiner_delivery_witness:
  "\<exists>sub sub'. gomap_get (st_subscribers (publish_frames [example_frame]
        (fst (Stream_AttachSubscriber (NewStream example_key)))))
      (snd (Stream_AttachSubscriber (NewStream example_key))) = Some sub \<and>
    drain (stream_read (publish_frames [example_frame]
        (fst (Stream_AttachSubscriber (NewStream example_key))))) 4 sub = ([example_frame], sub') \<and>
    sub_dropped sub' = 0"
  using late_joiner_delivery [OF NewStream_rep(1) [of example_key], of "[example_frame]"]
  by (simp add: NewStream_rep option_to_list_def)

text \<open>
  C18. Recycled memory is safe well beyond the log: after any frames on a fresh stream, the
  pointer under which frame \<open>i\<close> was published still loads that frame's type, timestamp, init
  flag and bytes as long as fewer than 4096 frames were published after it, four times what
  the log keeps.
\<close>

theorem recycled_memory_intact:
  assumes "length g < 2 ^ 64" "i < length g" "length g - i \<le> defaultArenaSlots"
  shows "msg_load (publish_frames g (NewStream key)) (SlabMsg (i mod defaultArenaSlots)) = g ! i"
proof -
  let ?s = "publish_frames g (NewStream key)"
  have rep: "stream_rep ?s g" using publish_frames_rep(1) [OF NewStream_rep(1), of g key] assms(1) by simp
  have len: "length (st_msgs ?s) = defaultArenaSlots" by (rule publish_frames_slab)
  have "slab_holds ?s g i" using rep assms len by (simp add: stream_rep_def)
  from msg_load_slab [OF this] show ?thesis by (simp only: len)
qed

theorem recycled_memory_intact_witness:
  "msg_load (publish_frames [example_frame] (NewStream example_key)) (SlabMsg 0) = example_frame"
  using recycled_memory_intact [of "[example_frame]" 0 example_key] by simp



text \<open>
  One publisher at a time: \<open>AttachPublisher\<close> succeeds exactly when the stream has no
  publisher, a refused attempt changes nothing, and after \<open>DetachPublisher\<close> the stream
  takes a new publisher and no init message of the old one is replayed to a new subscriber.
\<close>

lemma publisher_exclusive:
  "(snd (Stream_AttachPublisher pid s) \<longleftrightarrow> \<not> Stream_HasPublisher s) \<and>
   Stream_HasPublisher (fst (Stream_AttachPublisher pid s)) \<and>
   (if Stream_HasPublisher s then fst (Stream_AttachPublisher pid s) = s
    else st_publisher (fst (Stream_AttachPublisher pid s)) = Some pid) \<and>
   snd (Stream_AttachPublisher pid (Stream_DetachPublisher s)) \<and>
   init_replay (Stream_DetachPublisher s) = []"
  by (simp add: stream_defs init_replay_def option_to_list_def)

end
