(* ===== verification/Registry.thy ===== *)
theory Registry
  imports Bus_Stream
begin

text \<open>
  The stream registry (\<open>internal/core/bus/registry.go\<close>). A \<open>*Stream\<close> is an address into
  the heap of streams: a stream that was removed from the map is still reachable through
  the pointers its sessions hold, so the map and the heap are kept apart. The lemmas show
  that every key is registered at most once and under its own stream, that lookups return
  the stream that was created, and that only empty streams are ever removed.
\<close>

section \<open>Definitions\<close>

record Bus =
  bus_streams :: "(StreamKey, nat) gomap"
  bus_heap :: "Stream list"

definition NewRegistry :: Bus where
  "NewRegistry = \<lparr>bus_streams = [], bus_heap = []\<rparr>"

definition stream_at :: "Bus \<Rightarrow> nat \<Rightarrow> Stream" where
  "stream_at b p = bus_heap b ! p"

definition with_stream :: "nat \<Rightarrow> (Stream \<Rightarrow> Stream) \<Rightarrow> Bus \<Rightarrow> Bus" where
  "with_stream p f b = b\<lparr>bus_heap := (bus_heap b)[p := f (stream_at b p)]\<rparr>"

definition Registry_GetOrCreate :: "StreamKey \<Rightarrow> Bus \<Rightarrow> Bus \<times> nat \<times> bool" where
  "Registry_GetOrCreate key b =
     (case gomap_get (bus_streams b) key of
        Some p \<Rightarrow> (b, p, False)
      | None \<Rightarrow>
          let p = length (bus_heap b) in
          (b\<lparr>bus_heap := bus_heap b @ [NewStream key], bus_streams := gomap_set key p (bus_streams b)\<rparr>, p, True))"

definition Registry_Get :: "StreamKey \<Rightarrow> Bus \<Rightarrow> nat option" where
  "Registry_Get key b = gomap_get (bus_streams b) key"

definition Registry_Remove :: "StreamKey \<Rightarrow> Bus \<Rightarrow> Bus \<times> bool" where
  "Registry_Remove key b =
     (case gomap_get (bus_streams b) key of
        None \<Rightarrow> (b, False)
      | Some p \<Rightarrow>
          if \<not> Stream_IsEmpty (stream_at b p) then (b, False)
          else (b\<lparr>bus_streams := gomap_delete key (bus_streams b)\<rparr>, True))"

definition Registry_RemoveIfEmpty :: "StreamKey \<Rightarrow> Bus \<Rightarrow> Bus \<times> bool" where
  "Registry_RemoveIfEmpty key b = Registry_Remove key b"

definition Registry_Count :: "Bus \<Rightarrow> nat" where
  "Registry_Count b = length (gomap_keys (bus_streams b))"

definition Registry_List :: "Bus \<Rightarrow> StreamKey list" where
  "Registry_List b = gomap_keys (bus_streams b)"

lemmas registry_defs [bus_defs] =
  Registry_GetOrCreate_def Registry_Get_def Registry_Remove_def Registry_RemoveIfEmpty_def
  Registry_Count_def Registry_List_def stream_at_def with_stream_def

section \<open>Invariant\<close>

definition bus_inv :: "Bus \<Rightarrow> bool" where
  "bus_inv b \<longleftrightarrow> gomap_wf (bus_streams b) \<and>
     (\<forall>k p. gomap_get (bus_streams b) k = Some p \<longrightarrow> p < length (bus_heap b) \<and> st_key (stream_at b p) = k)"

lemma bus_inv_New: "bus_inv NewRegistry"
  by (simp add: bus_inv_def NewRegistry_def)

lemma bus_inv_GetOrCreate:
  assumes "bus_inv b" "Registry_GetOrCreate key b = (b', p, fresh)"
  shows "bus_inv b'" "p < length (bus_heap b')" "st_key (stream_at b' p) = key"
    and "Registry_Get key b' = Some p" "fresh \<longleftrightarrow> Registry_Get key b = None"
    and "\<And>q. q < length (bus_heap b) \<Longrightarrow> q < length (bus_heap b') \<and> stream_at b' q = stream_at b q"
    and "fresh \<Longrightarrow> stream_at b' p = NewStream key"
    and "\<And>k. k \<noteq> key \<Longrightarrow> Registry_Get k b' = Registry_Get k b"
  using assms by (auto simp: bus_inv_def registry_defs nth_append Let_def NewStream_rep less_Suc_eq
      split: option.splits if_splits)

lemma bus_inv_Remove: "bus_inv b \<Longrightarrow> bus_inv (fst (Registry_Remove key b))"
  by (auto simp: bus_inv_def registry_defs split: option.splits if_splits)

lemma bus_inv_with_stream:
  assumes "bus_inv b" "\<And>s. st_key (f s) = st_key s"
  shows "bus_inv (with_stream p f b)"
  using assms by (cases "p < length (bus_heap b)") (auto simp: bus_inv_def registry_defs nth_list_update list_update_beyond)

lemma Remove_spec:
  "snd (Registry_Remove key b) \<longleftrightarrow> (\<exists>p. Registry_Get key b = Some p \<and> Stream_IsEmpty (stream_at b p))"
  "bus_heap (fst (Registry_Remove key b)) = bus_heap b"
  "Registry_Get k (fst (Registry_Remove key b)) =
     (if k = key \<and> snd (Registry_Remove key b) then None else Registry_Get k b)"
  by (auto simp: registry_defs split: option.splits)

lemma with_stream_heap:
  "length (bus_heap (with_stream p f b)) = length (bus_heap b)"
  "p < length (bus_heap b) \<Longrightarrow> stream_at (with_stream p f b) p = f (stream_at b p)"
  "q \<noteq> p \<Longrightarrow> stream_at (with_stream p f b) q = stream_at b q"
  "Registry_Get k (with_stream p f b) = Registry_Get k b"
  by (simp_all add: with_stream_def stream_at_def Registry_Get_def)

lemma with_stream_key:
  "(\<And>s. st_key (f s) = st_key s) \<Longrightarrow> q < length (bus_heap b) \<Longrightarrow> st_key (stream_at (with_stream p f b) q) = st_key (stream_at b q)"
  by (cases "q = p") (simp_all add: with_stream_heap)

lemma Remove_heap: "bus_heap (fst (Registry_Remove k b)) = bus_heap b"
  "stream_at (fst (Registry_Remove k b)) q = stream_at b q"
  by (simp_all add: Remove_spec(2) stream_at_def)

lemma Count_GetOrCreate:
  assumes "bus_inv b" "Registry_GetOrCreate key b = (b', p, fresh)"
  shows "Registry_Count b' = (if fresh then Suc (Registry_Count b) else Registry_Count b)"
  using assms gm.len_set_new [of "bus_streams b" key "length (bus_heap b)"]
  by (auto simp: bus_inv_def registry_defs Let_def split: option.splits)

lemma List_iff: "k \<in> set (Registry_List b) \<longleftrightarrow> Registry_Get k b \<noteq> None"
  by (simp add: Registry_List_def Registry_Get_def gm.keys_get)

lemma IsEmpty_iff: "Stream_IsEmpty s \<longleftrightarrow> \<not> Stream_HasPublisher s \<and> Stream_SubscriberCount s = 0"
  by (auto simp: stream_defs)

section \<open>Interleavings of the sessions\<close>

text \<open>
  The steps any session may take on the shared bus, in any order. The invariant also keeps
  what the registered stream of a key goes through: while it has a publisher or subscribers
  it stays registered.
\<close>

inductive bus_step :: "Bus \<Rightarrow> Bus \<Rightarrow> bool" where
  bus_get_or_create: "Registry_GetOrCreate key b = (b', p, fresh) \<Longrightarrow> bus_step b b'"
| bus_remove: "bus_step b (fst (Registry_Remove key b))"
| bus_attach_publisher: "bus_step b (with_stream p (\<lambda>s. fst (Stream_AttachPublisher pid s)) b)"
| bus_detach_publisher: "bus_step b (with_stream p Stream_DetachPublisher b)"
| bus_attach_subscriber: "bus_step b (with_stream p (\<lambda>s. fst (Stream_AttachSubscriber s)) b)"
| bus_detach_subscriber: "bus_step b (with_stream p (Stream_DetachSubscriber i) b)"
| bus_publish: "bus_step b (with_stream p (publish_frame t ts isInit payload) b)"

lemma stream_ops_key [simp]:
  "st_key (fst (Stream_AttachPublisher pid s)) = st_key s"
  "st_key (Stream_DetachPublisher s) = st_key s"
  "st_key (fst (Stream_AttachSubscriber s)) = st_key s"
  "st_key (Stream_DetachSubscriber i s) = st_key s"
  by (simp_all add: stream_defs Let_def)

interpretation brun: inductive_invariant "\<lambda>b. b = NewRegistry" bus_step bus_inv
proof
  fix b :: Bus assume "b = NewRegistry"
  then show "bus_inv b" by (simp add: bus_inv_New)
next
  fix b b' assume inv: "bus_inv b" and "bus_step b b'"
  from this(2) show "bus_inv b'"
    by cases (use inv in \<open>auto intro: bus_inv_GetOrCreate(1) bus_inv_Remove bus_inv_with_stream
        simp: publish_frame_frame\<close>)
qed

lemma bus_step_keeps_busy:
  assumes "bus_inv b" "bus_step b b'" "Registry_Get k b = Some p" "\<not> Stream_IsEmpty (stream_at b p)"
  shows "Registry_Get k b' = Some p"
  using assms(2)
proof cases
  case (bus_get_or_create key q fresh)
  then show ?thesis using assms bus_inv_GetOrCreate(4,5,8) [OF assms(1), of key b' q fresh]
    by (cases "k = key") (auto simp: registry_defs)
next
  case (bus_remove key)
  then show ?thesis using assms(3,4) by (auto simp: Remove_spec(1,3))
qed (use assms(3) in \<open>simp_all add: registry_defs\<close>)

section \<open>Properties\<close>



text \<open>
  \<open>GetOrCreate\<close>, \<open>Get\<close> and \<open>Remove\<close> as a map: \<open>GetOrCreate\<close> returns the registered
  stream if there is one and otherwise registers a fresh empty one, leaving every other key
  and stream alone; \<open>Remove\<close> reports success exactly when the key's stream is empty, then
  unregisters that key and nothing else; it never touches a stream.
\<close>

lemma registry_is_a_map:
  assumes "bus_inv b" "Registry_GetOrCreate key b = (b', p, fresh)"
  shows "Registry_Get key b' = Some p \<and> (fresh \<longleftrightarrow> Registry_Get key b = None) \<and>
    (\<not> fresh \<longrightarrow> b' = b) \<and> (fresh \<longrightarrow> stream_at b' p = NewStream key \<and> Registry_Count b' = Suc (Registry_Count b)) \<and>
    (\<forall>k. k \<noteq> key \<longrightarrow> Registry_Get k b' = Registry_Get k b) \<and>
    (\<forall>q < length (bus_heap b). stream_at b' q = stream_at b q) \<and>
    (snd (Registry_Remove key b') \<longleftrightarrow> Stream_IsEmpty (stream_at b' p)) \<and>
    bus_heap (fst (Registry_Remove key b')) = bus_heap b' \<and>
    (\<forall>k. Registry_Get k (fst (Registry_Remove key b')) =
       (if k = key \<and> Stream_IsEmpty (stream_at b' p) then None else Registry_Get k b'))"
proof -
  note g = bus_inv_GetOrCreate [OF assms]
  have "\<not> fresh \<longrightarrow> b' = b"
    using assms(2) by (auto simp: Registry_GetOrCreate_def Let_def split: option.splits)
  then show ?thesis using g(4-8) Count_GetOrCreate [OF assms] by (auto simp: Remove_spec)
qed

lemma registry_is_a_map_witness:
  "let b = fst (Registry_GetOrCreate example_key NewRegistry)
   in snd (Registry_Remove example_key b) \<and> Registry_Get example_key (fst (Registry_Remove example_key b)) = None"
proof -
  define b where "b = fst (Registry_GetOrCreate example_key NewRegistry)"
  have b: "Registry_GetOrCreate example_key NewRegistry = (b, 0, True)"
    by (simp add: b_def Registry_GetOrCreate_def NewRegistry_def Let_def)
  have "Stream_IsEmpty (NewStream example_key)" by (simp add: stream_defs NewStream_rep gomap_keys_def)
  then show ?thesis using registry_is_a_map [OF bus_inv_New b] unfolding b_def [symmetric] Let_def by simp
qed

end
