(* ===== verification/Bus_Concurrency.thy ===== *)
theory Bus_Concurrency
  imports Registry
begin

text \<open>
  The bus between the atomic steps. The publisher and its readers share no lock on the hot
  path, so an operation of \<open>stream.go\<close> or \<open>sharedlog.go\<close> is a sequence of atomic actions
  that others may interleave with: the two halves of \<open>SharedLog.Publish\<close>, the read and the
  park of a waiting subscriber (\<open>ProcessMessages\<close>), the lookup and the attach of a session.
\<close>

section \<open>The two halves of a publication\<close>

text \<open>\<open>seq := l.nextSeq.Add(1)\<close>, then \<open>l.buf[(seq-1)&l.mask].Store(msg)\<close>.\<close>

definition Publish_claim :: "'m SharedLog \<Rightarrow> 'm SharedLog \<times> u64" where
  "Publish_claim l = (let sq = sl_nextSeq l + 1 in (l\<lparr>sl_nextSeq := sq\<rparr>, sq))"

definition Publish_store :: "u64 \<Rightarrow> 'm \<Rightarrow> 'm SharedLog \<Rightarrow> 'm SharedLog" where
  "Publish_store sq m l = l\<lparr>sl_buf := (sl_buf l)[unat ((sq - 1) AND sl_mask l) := Some m]\<rparr>"

lemma Publish_halves:
  "SharedLog_Publish (Some m) l = (case Publish_claim l of (l', sq) \<Rightarrow> (Publish_store sq m l', sq))"
  by (simp add: SharedLog_Publish_def Publish_claim_def Publish_store_def Let_def)

lemma readAt_claimed:
  assumes rep: "log_rep l h" and len: "length h + 1 < 2 ^ 64"
  shows "SharedLog_readAt (word_of_nat (length h)) (fst (Publish_claim l)) =
    (word_of_nat (Suc (length h)),
     \<lparr>rr_msg = sl_buf l ! (length h mod unat (sl_size l)), rr_skipped = 0\<rparr>, True)"
proof -
  let ?c = "word_of_nat (length h) :: u64"
  from rep have shape: "log_shape l" and seq: "sl_nextSeq l = ?c" by (auto simp: log_rep_def)
  have c: "unat ?c = length h" using len by (simp add: unat_of_nat)
  have n: "unat (?c + 1) = Suc (length h)" using len by (simp add: unat_word_ariths c)
  have "\<not> ?c + 1 \<le> ?c" using c n by (simp add: word_le_nat_alt)
  moreover have "\<not> sl_size l < 1" using log_shape_size [OF shape] by (simp add: word_less_nat_alt)
  ultimately show ?thesis
    using log_shape_mask [OF shape, of ?c] c
    by (simp add: SharedLog_readAt_def Publish_claim_def Let_def seq add.commute)
qed

section \<open>Waiting for data\<close>

text \<open>
  The reader of \<open>ProcessMessages\<close> in its atomic actions: \<open>Read\<close>; when that found nothing,
  \<open>WaitChan\<close>; then parked on the channel it got until that channel is closed.
\<close>

datatype reader_pc = Reading | FoundNothing | Parked nat

record reader_run =
  rd_stream :: Stream
  rd_hist :: "bytes MediaMessage list"
  rd_sub :: Subscriber
  rd_pc :: reader_pc

inductive reader_step :: "reader_run \<Rightarrow> reader_run \<Rightarrow> bool" where
  reader_got: "rd_pc r = Reading \<Longrightarrow> stream_read (rd_stream r) (rd_sub r) = Some (sub', m) \<Longrightarrow>
    reader_step r (r\<lparr>rd_sub := sub'\<rparr>)"
| reader_empty: "rd_pc r = Reading \<Longrightarrow> stream_read (rd_stream r) (rd_sub r) = None \<Longrightarrow>
    reader_step r (r\<lparr>rd_pc := FoundNothing\<rparr>)"
| reader_park: "rd_pc r = FoundNothing \<Longrightarrow>
    reader_step r (r\<lparr>rd_pc := Parked (Stream_WaitChan (rd_stream r))\<rparr>)"
| reader_wake: "rd_pc r = Parked c \<Longrightarrow> chan_closed (rd_stream r) c \<Longrightarrow> reader_step r (r\<lparr>rd_pc := Reading\<rparr>)"
| other_publish: "length (rd_hist r) + 1 < 2 ^ 64 \<Longrightarrow>
    reader_step r (r\<lparr>rd_stream := publish_frame t ts b p (rd_stream r),
      rd_hist := rd_hist r @ [\<lparr>mm_Type = t, mm_Timestamp = ts, mm_Payload = p, mm_IsInit = b\<rparr>]\<rparr>)"

inductive_cases reader_stepE: "reader_step r r'"

text \<open>A parked reader that has an unread message and whose channel is open: it sleeps.\<close>

definition sleeps_on_data :: "reader_run \<Rightarrow> bool" where
  "sleeps_on_data r \<longleftrightarrow>
     (\<exists>c. rd_pc r = Parked c \<and> \<not> chan_closed (rd_stream r) c) \<and>
     stream_read (rd_stream r) (rd_sub r) \<noteq> None"

definition reader_inv :: "reader_run \<Rightarrow> bool" where
  "reader_inv r \<longleftrightarrow> stream_rep (rd_stream r) (rd_hist r) \<and>
     sub_live (rd_sub r) \<and> unat (sub_cursor (rd_sub r)) \<le> length (rd_hist r) \<and>
     (\<forall>c. rd_pc r = Parked c \<longrightarrow> c \<le> st_notify (rd_stream r))"

definition reader_start :: "reader_run \<Rightarrow> bool" where
  "reader_start r \<longleftrightarrow> (\<exists>key. rd_stream r = NewStream key) \<and> rd_hist r = [] \<and>
     sub_live (rd_sub r) \<and> sub_cursor (rd_sub r) = 0 \<and> rd_pc r = Reading"

lemma stream_read_live:
  assumes "stream_rep s h" "sub_live sub" "unat (sub_cursor sub) \<le> length h"
  shows "stream_read s sub = None \<longleftrightarrow> unat (sub_cursor sub) = length h"
    and "stream_read s sub = Some (sub', m) \<Longrightarrow> sub_live sub' \<and> unat (sub_cursor sub') \<le> length h"
proof -
  note [dest] = sread.read_behind [OF assms(1,2)]
  show "stream_read s sub = None \<longleftrightarrow> unat (sub_cursor sub) = length h"
    using sread.read_caught_up [OF assms(1,2)] assms(3) by (auto simp: le_less)
  show "sub_live sub' \<and> unat (sub_cursor sub') \<le> length h" if "stream_read s sub = Some (sub', m)"
  proof -
    have lt: "unat (sub_cursor sub) < length h"
      using that sread.read_caught_up [OF assms(1,2)] assms(3) by (auto simp: le_less)
    then have "read_pos (unat (sl_size (st_log s))) (length h) (unat (sub_cursor sub)) < length h"
      using sread.cap_pos [OF assms(1)] by (auto simp: read_pos_def)
    with that lt show ?thesis by (auto simp: Suc_le_eq)
  qed
qed

interpretation rrun: inductive_invariant reader_start reader_step reader_inv
proof
  fix r assume "reader_start r"
  then show "reader_inv r" by (auto simp: reader_start_def reader_inv_def NewStream_rep)
next
  fix r r' assume inv: "reader_inv r" and "reader_step r r'"
  from this(2) show "reader_inv r'"
  proof cases
    case (other_publish t ts b p)
    then show ?thesis using inv publish_frame_rep [of "rd_stream r" "rd_hist r" t ts p b]
      by (auto simp: reader_inv_def publish_frame_frame)
  next
    case (reader_got sub' m)
    then show ?thesis using inv stream_read_live(2) [of "rd_stream r" "rd_hist r" "rd_sub r" sub' m]
      by (auto simp: reader_inv_def)
  qed (use inv in \<open>auto simp: reader_inv_def Stream_WaitChan_def\<close>)
qed

text \<open>A parked reader is awake after the next publication, whatever happened before.\<close>

lemma publish_wakes:
  assumes "reader_inv r" "rd_pc r = Parked c"
  shows "chan_closed (publish_frame t ts b p (rd_stream r)) c"
  using assms by (auto simp: reader_inv_def chan_closed_def publish_frame_frame)

lemma park_after_publish:
  assumes inv: "reader_inv r" and pc: "rd_pc r = FoundNothing"
    and behind: "unat (sub_cursor (rd_sub r)) < length (rd_hist r)"
  shows "\<exists>r'. reader_step r r' \<and> sleeps_on_data r'"
proof -
  let ?r = "r\<lparr>rd_pc := Parked (Stream_WaitChan (rd_stream r))\<rparr>"
  have "reader_step r ?r" by (rule reader_park) (rule pc)
  moreover have "sleeps_on_data ?r"
    using inv behind stream_read_live(1) [of "rd_stream r" "rd_hist r" "rd_sub r"]
    by (auto simp: sleeps_on_data_def reader_inv_def chan_closed_def Stream_WaitChan_def)
  ultimately show ?thesis by blast
qed

text \<open>
  Taking the channel before the read closes the window: when nothing was there at a moment
  at or after the channel was taken, the first publication after that moment closes it.
\<close>

lemma wait_before_read:
  assumes "c \<le> st_notify s"
  shows "chan_closed (publish_frame t ts b p s) c"
  using assms by (simp add: chan_closed_def publish_frame_frame)

section \<open>Lookup and attach\<close>

text \<open>
  A session looks a stream up and attaches to it in two steps. In between, the last
  publisher may leave and its cleanup removes the stream, so the session ends up on a
  stream that no publisher can reach any more.
\<close>

definition orphan_subscriber :: "StreamKey \<Rightarrow> Bus \<Rightarrow> nat \<Rightarrow> bool" where
  "orphan_subscriber key b p \<longleftrightarrow>
     Stream_SubscriberCount (stream_at b p) > 0 \<and> Registry_Get key b \<noteq> Some p"

definition leave_and_return :: "StreamKey \<Rightarrow> nat \<Rightarrow> u64 \<Rightarrow> Bus \<Rightarrow> Bus" where
  "leave_and_return key p pid b =
     (let b1 = with_stream p Stream_DetachPublisher b;
          b2 = fst (Registry_RemoveIfEmpty key b1);
          (b3, q, _) = Registry_GetOrCreate key b2
      in with_stream q (\<lambda>s. fst (Stream_AttachPublisher pid s)) b3)"

lemma orphan_after_return:
  fixes pid
  assumes inv: "bus_inv b" and get: "Registry_Get key b = Some p"
    and only: "Stream_SubscriberCount (stream_at b p) = 0"
  defines "b' \<equiv> with_stream p (\<lambda>s. fst (Stream_AttachSubscriber s)) (leave_and_return key p pid b)"
  shows "orphan_subscriber key b' p" "\<exists>q. Registry_Get key b' = Some q \<and> q \<noteq> p \<and> Stream_HasPublisher (stream_at b' q)"
proof -
  have p: "p < length (bus_heap b)" and e: "gomap_get (bus_streams b) key = Some p"
    using inv get by (auto simp: bus_inv_def registry_defs)
  define s1 where "s1 = Stream_DetachPublisher (bus_heap b ! p)"
  have em: "Stream_IsEmpty s1" "st_subscribers s1 = []"
    using only by (auto simp: s1_def stream_defs registry_defs gomap_keys_def)
  let ?n = "length (bus_heap b)"
  have pub: "fst (Stream_AttachPublisher pid (NewStream key)) = (NewStream key)\<lparr>st_publisher := Some pid\<rparr>"
    by (simp add: Stream_AttachPublisher_def NewStream_rep)
  have lr: "leave_and_return key p pid b =
      \<lparr>bus_streams = gomap_set key ?n (gomap_delete key (bus_streams b)),
       bus_heap = (bus_heap b)[p := s1] @ [(NewStream key)\<lparr>st_publisher := Some pid\<rparr>]\<rparr>"
    using p e em(1) pub unfolding s1_def
    by (cases b) (simp add: leave_and_return_def registry_defs Let_def nth_append list_update_append)
  let ?s = "fst (Stream_AttachSubscriber s1)"
  have sub: "Stream_SubscriberCount ?s = 1"
    using em(2) by (simp add: Stream_AttachSubscriber_def Stream_SubscriberCount_def Let_def
        gomap_set_def gomap_keys_def)
  have heap: "bus_heap b' = (bus_heap b)[p := ?s] @ [(NewStream key)\<lparr>st_publisher := Some pid\<rparr>]"
    and reg: "bus_streams b' = gomap_set key ?n (gomap_delete key (bus_streams b))"
    using p by (simp_all add: b'_def lr with_stream_def stream_at_def nth_append list_update_append)
  have "Registry_Get key b' = Some ?n" by (simp add: Registry_Get_def reg)
  moreover have "stream_at b' p = ?s" "stream_at b' ?n = (NewStream key)\<lparr>st_publisher := Some pid\<rparr>"
    using p by (simp_all add: stream_at_def heap nth_append)
  ultimately show "orphan_subscriber key b' p"
    "\<exists>q. Registry_Get key b' = Some q \<and> q \<noteq> p \<and> Stream_HasPublisher (stream_at b' q)"
    using p sub by (simp_all add: orphan_subscriber_def Stream_HasPublisher_def)
qed

section \<open>Properties\<close>

text \<open>
  \<open>SharedLog.Publish\<close> raises the sequence number before it stores the message. A reader
  that runs in between is told that the new message is there and is handed what the slot
  held before: on a log that has already gone round, the message of one lap ago, on a fresh
  one the nil pointer that \<open>ProcessMessages\<close> dereferences; the message being published is
  then skipped for good, because the cursor has moved past it.
\<close>

theorem torn_publish:
  assumes "log_rep l h" "length h + 1 < 2 ^ 64"
  defines "old \<equiv> SharedLog_readAt (word_of_nat (length h)) (fst (Publish_claim l))"
  shows "snd (snd old) \<and>
    rr_msg (fst (snd old)) = sl_buf l ! (length h mod unat (sl_size l)) \<and>
    (unat (sl_size l) \<le> length h \<longrightarrow> rr_msg (fst (snd old)) = Some (h ! (length h - unat (sl_size l)))) \<and>
    snd (snd (SharedLog_readAt (fst old) (fst (SharedLog_Publish (Some m) l)))) = False"
proof -
  let ?s = "unat (sl_size l)"
  have sz: "0 < ?s" using assms(1) by (simp add: log_rep_def log_shape_size)
  have "sl_buf l ! (length h mod ?s) = Some (h ! (length h - ?s))" if "?s \<le> length h"
    using assms(1) that sz by (auto simp: log_rep_def le_mod_geq dest!: spec [of _ "length h - ?s"])
  moreover have "unat (fst old) = Suc (length h)"
    using assms(2) unfolding old_def readAt_claimed [OF assms(1,2)] by (simp add: unat_of_nat del: of_nat_Suc)
  ultimately show ?thesis
    using readAt_caught_up [OF Publish_rep(1) [OF assms(1,2), of m], of "fst old"]
      readAt_claimed [OF assms(1,2)] by (simp add: old_def)
qed

theorem torn_publish_witness:
  "\<exists>l :: nat SharedLog. NewSharedLog 1 = Some l \<and>
     rr_msg (fst (snd (SharedLog_readAt 0 (fst (Publish_claim l))))) = None \<and>
     snd (snd (SharedLog_readAt 0 (fst (Publish_claim l))))"
proof -
  let ?l = "\<lparr>sl_buf = [None], sl_mask = 0, sl_size = 1, sl_nextSeq = 0\<rparr> :: nat SharedLog"
  have "NewSharedLog 1 = Some ?l" by (simp add: NewSharedLog_def pow2_loop.simps)
  moreover have "log_rep ?l []" by (auto simp: log_rep_def log_shape_def intro!: exI [of _ 0])
  ultimately show ?thesis using torn_publish [of ?l "[]"] by simp
qed

text \<open>
  C39. \<open>ProcessMessages\<close> takes the wait channel after the read that found nothing. When a
  frame is published in between, the reader parks on the fresh channel with an unread frame
  and sleeps; the next publication wakes it, so a frame can be delayed until the next one,
  and the last frame of a burst until the stream goes on.
\<close>

theorem wakeup_lost_until_next_publish:
  assumes "reachable_from reader_start reader_step r" "rd_pc r = FoundNothing"
    and "unat (sub_cursor (rd_sub r)) < length (rd_hist r)"
  shows "\<exists>r'. reader_step r r' \<and> sleeps_on_data r' \<and>
    (\<forall>t ts b p c. rd_pc r' = Parked c \<longrightarrow> chan_closed (publish_frame t ts b p (rd_stream r')) c)"
proof -
  have inv: "reader_inv r" using assms(1) by (rule rrun.inv_reachable)
  from park_after_publish [OF this assms(2,3)] obtain r' where r': "reader_step r r'" "sleeps_on_data r'"
    by blast
  with inv have "reader_inv r'" by (blast intro: rrun.inv_step)
  with r' show ?thesis using publish_wakes by blast
qed

theorem wakeup_lost_until_next_publish_witness: "\<exists>r. sleeps_on_data r"
proof -
  let ?sub = "\<lparr>sub_id = 1, sub_cursor = 0, sub_pending = [], sub_pendIdx = 0, sub_dropped = 0\<rparr>"
  let ?r0 = "\<lparr>rd_stream = NewStream example_key, rd_hist = [], rd_sub = ?sub, rd_pc = Reading\<rparr>"
  have live: "sub_live ?sub" by (simp add: sub_live_def)
  have start: "reader_start ?r0" using live by (auto simp: reader_start_def)
  have none: "stream_read (NewStream example_key) ?sub = None"
    using sread.read_caught_up [OF NewStream_rep(1) live] by simp
  let ?r1 = "?r0\<lparr>rd_pc := FoundNothing\<rparr>"
  have "reachable_from reader_start reader_step ?r0" using start by (rule reach_start)
  moreover have "reader_step ?r0 ?r1" by (rule reader_empty) (simp_all add: none)
  ultimately have r1: "reachable_from reader_start reader_step ?r1" by (rule reach_step)
  let ?r2 = "?r1\<lparr>rd_stream := publish_frame 1 0 False [1] (rd_stream ?r1),
      rd_hist := rd_hist ?r1 @ [\<lparr>mm_Type = 1, mm_Timestamp = 0, mm_Payload = [1], mm_IsInit = False\<rparr>]\<rparr>"
  have "reader_step ?r1 ?r2" by (rule other_publish) simp
  with r1 have "reachable_from reader_start reader_step ?r2" by (rule reach_step)
  from wakeup_lost_until_next_publish [OF this]
  show ?thesis by auto
qed

text \<open>
  Looking a stream up and attaching to it are two steps. When in between the publisher
  of a stream without subscribers leaves, its cleanup unregisters the stream and the
  publisher comes back, then the subscriber sits on a stream that is no longer registered
  while the publisher feeds another one: it never receives a frame of the new session.
\<close>

theorem attach_to_removed_stream:
  assumes "bus_inv b" "Registry_Get key b = Some p" "Stream_SubscriberCount (stream_at b p) = 0"
  shows "orphan_subscriber key
      (with_stream p (\<lambda>s. fst (Stream_AttachSubscriber s)) (leave_and_return key p pid b)) p"
  using orphan_after_return(1) [OF assms] .

theorem attach_to_removed_stream_witness:
  "let b = fst (Registry_GetOrCreate example_key NewRegistry)
   in orphan_subscriber example_key
        (with_stream 0 (\<lambda>s. fst (Stream_AttachSubscriber s)) (leave_and_return example_key 0 7 b)) 0"
proof -
  define b where "b = fst (Registry_GetOrCreate example_key NewRegistry)"
  have b: "Registry_GetOrCreate example_key NewRegistry = (b, 0, True)"
    by (simp add: b_def Registry_GetOrCreate_def NewRegistry_def Let_def)
  note g = bus_inv_GetOrCreate [OF bus_inv_New b]
  have "Stream_SubscriberCount (stream_at b 0) = 0"
    using g(7) by (simp add: Stream_SubscriberCount_def NewStream_rep gomap_keys_def)
  from attach_to_removed_stream [OF g(1,4) this] show ?thesis by (simp add: b_def [symmetric])
qed

end
