(* ===== verification/RTMP_Service.thy ===== *)
theory RTMP_Service
  imports RTMP_Session AMF0 Auth Bus_Concurrency
begin

text \<open>
  The RTMP service (\<open>internal/svc/rtmp\<close>): the publishing side of the bus, the session's
  command handlers and the message loop of a connection. A session holds a pointer to the
  stream it publishes on; the registry and the streams are the shared \<open>Bus\<close>.
\<close>

section \<open>Publisher\<close>

record Publisher =
  pb_stream :: nat
  pb_streamKey :: StreamKey
  pb_publisherID :: u64

definition NewPublisher :: "nat \<Rightarrow> Bus \<Rightarrow> u64 \<Rightarrow> Publisher" where
  "NewPublisher p b i = \<lparr>pb_stream = p, pb_streamKey = st_key (stream_at b p), pb_publisherID = i\<rparr>"

definition isAVCSequenceHeader :: "bytes \<Rightarrow> bool" where
  "isAVCSequenceHeader payload \<longleftrightarrow>
     length payload \<ge> 2 \<and> payload ! 0 AND 0x0F = 7 \<and> payload ! 1 = 0"

definition isAACSequenceHeader :: "bytes \<Rightarrow> bool" where
  "isAACSequenceHeader payload \<longleftrightarrow>
     length payload \<ge> 2 \<and> drop_bit 4 (payload ! 0) = 10 \<and> payload ! 1 = 0"

definition stripSetDataFrame :: "bytes \<Rightarrow> bytes" where
  "stripSetDataFrame payload =
     (if length payload < 3 then payload
      else if payload ! 0 \<noteq> 0x02 then payload
      else
        (let strLen = unat (payload ! 1) * 256 + unat (payload ! 2);
             total = 3 + strLen
         in if length payload < total then payload
            else if bytes_str (take strLen (drop 3 payload)) = ''@setDataFrame'' then drop total payload
            else payload))"

definition PublishAudio :: "u32 \<Rightarrow> bytes \<Rightarrow> Publisher \<Rightarrow> Bus \<Rightarrow> Bus" where
  "PublishAudio timestamp payload p b =
     with_stream (pb_stream p)
       (publish_frame MessageTypeAudio timestamp (isAACSequenceHeader payload) payload) b"

definition PublishVideo :: "u32 \<Rightarrow> bytes \<Rightarrow> Publisher \<Rightarrow> Bus \<Rightarrow> Bus" where
  "PublishVideo timestamp payload p b =
     with_stream (pb_stream p)
       (publish_frame MessageTypeVideo timestamp (isAVCSequenceHeader payload) payload) b"

definition PublishMetadata :: "u32 \<Rightarrow> bytes \<Rightarrow> Publisher \<Rightarrow> Bus \<Rightarrow> Bus" where
  "PublishMetadata timestamp payload p b =
     with_stream (pb_stream p)
       (publish_frame MessageTypeMetadata timestamp True (stripSetDataFrame payload)) b"

definition Publisher_Detach :: "Publisher \<Rightarrow> Bus \<Rightarrow> Bus" where
  "Publisher_Detach p b = with_stream (pb_stream p) Stream_DetachPublisher b"

section \<open>Session\<close>

record ServiceSession =
  sv_session :: Session
  sv_auth :: "KeySet option"
  sv_publisher :: "Publisher option"
  sv_nextStreamID :: u32

definition NewServiceSession :: "Conn \<Rightarrow> KeySet option \<Rightarrow> ServiceSession" where
  "NewServiceSession conn auth =
     \<lparr>sv_session = NewSession conn, sv_auth = auth, sv_publisher = None, sv_nextStreamID = 1\<rparr>"

text \<open>A call on the embedded protocol session that may fail.\<close>

definition sv_write :: "u32 \<Rightarrow> byte \<Rightarrow> u32 \<Rightarrow> u32 \<Rightarrow> bytes \<Rightarrow> ServiceSession \<Rightarrow> ServiceSession \<times> go_error option" where
  "sv_write csID mt ts sid body s =
     (case Session_WriteMessage csID mt ts sid body (sv_session s) of (ss, e) \<Rightarrow> (s\<lparr>sv_session := ss\<rparr>, e))"

definition toObject :: "Value \<Rightarrow> Object option" where
  "toObject v = (case v of AmfObject obj \<Rightarrow> Some obj | _ \<Rightarrow> None)"

text \<open>
  \<open>toFloat64\<close>: the decoder returns numbers as \<open>float64\<close> only, so the cases of Go integers do
  not arise; the fallback is 1.0. \<open>float64_of_u32\<close> is the conversion of an unsigned integer.
\<close>

definition toFloat64 :: "Value \<Rightarrow> u64" where
  "toFloat64 v = (case v of AmfNumber n \<Rightarrow> n | _ \<Rightarrow> 0x3FF0000000000000)"

fun bit_length :: "nat \<Rightarrow> nat" where
  "bit_length n = (if n = 0 then 0 else Suc (bit_length (n div 2)))"

declare bit_length.simps [simp del]

definition float64_of_u32 :: "u32 \<Rightarrow> u64" where
  "float64_of_u32 w =
     (let n = unat w in
      if n = 0 then 0
      else (let e = bit_length n - 1
            in push_bit 52 (of_nat (1023 + e)) + push_bit (52 - e) (of_nat (n - 2 ^ e))))"

definition sendConnectResult :: "Value \<Rightarrow> u64 \<Rightarrow> ServiceSession \<Rightarrow> ServiceSession \<times> go_error option" where
  "sendConnectResult transID objectEncoding s =
     (let transIDFloat = toFloat64 transID;
          cmdObj = AmfObject [(''fmsVer'', AmfString ''FMS/3,0,1,123''), (''capabilities'', AmfNumber (float64_of_u32 31))];
          info = AmfObject [(''level'', AmfString ''status''),
            (''code'', AmfString ''NetConnection.Connect.Success''),
            (''description'', AmfString ''Connection succeeded.''),
            (''objectEncoding'', AmfNumber objectEncoding)]
      in (case EncodeCommand [AmfString ''_result'', AmfNumber transIDFloat, cmdObj, info] of
            Inl e \<Rightarrow> (s, Some e)
          | Inr body \<Rightarrow> sv_write 3 MsgCommandAMF0 0 0 body s))"

text \<open>\<open>if err := ...; err != nil { return fmt.Errorf(msg + ": %w", err) }\<close>; the wrapped text is left out.\<close>

definition sv_try :: "string \<Rightarrow> ServiceSession \<times> go_error option \<Rightarrow>
    (ServiceSession \<Rightarrow> ServiceSession \<times> go_error option) \<Rightarrow> ServiceSession \<times> go_error option" where
  "sv_try msg r f = (case r of (s, Some e) \<Rightarrow> (s, Some (Errorf msg)) | (s, None) \<Rightarrow> f s)"

definition HandleConnect :: "Value list \<Rightarrow> ServiceSession \<Rightarrow> ServiceSession \<times> go_error option" where
  "HandleConnect command s =
     (if length command < 2 then (s, Some (Errorf ''invalid connect command: need at least 2 elements''))
      else
        (let cmdObj = (if length command \<ge> 3 \<and> command ! 2 \<noteq> AmfNull then toObject (command ! 2) else None);
             app = (case cmdObj of
                      None \<Rightarrow> ''live''
                    | Some obj \<Rightarrow> (case gomap_get obj ''app'' of Some (AmfString a) \<Rightarrow> a | _ \<Rightarrow> ''live''));
             objectEncoding = (case cmdObj of
                      None \<Rightarrow> 0
                    | Some obj \<Rightarrow> (case gomap_get obj ''objectEncoding'' of Some (AmfNumber n) \<Rightarrow> n | _ \<Rightarrow> 0));
             s = s\<lparr>sv_session := Session_SetApp app (sv_session s)\<rparr>
         in sv_try ''send window ack size'' (sv_write 2 MsgWinAckSize 0 0 (CreateWindowAckSize 5000000) s) (\<lambda>s.
            let s = s\<lparr>sv_session := Session_SetAckSize 5000000 (sv_session s)\<rparr>
            in sv_try ''send peer bandwidth'' (sv_write 2 MsgSetPeerBandwidth 0 0 (CreateSetPeerBandwidth 5000000 2) s) (\<lambda>s.
            sv_try ''send chunk size'' (sv_write 2 MsgSetChunkSize 0 0 (CreateSetChunkSize 4096) s) (\<lambda>s.
            let s = s\<lparr>sv_session := Session_SetWriteChunkSize 4096 (sv_session s)\<rparr>
            in sv_try ''send connect result'' (sendConnectResult (command ! 1) objectEncoding s) (\<lambda>s.
               (s, None)))))))"

definition HandleReleaseStream :: "Value list \<Rightarrow> ServiceSession \<Rightarrow> ServiceSession \<times> go_error option" where
  "HandleReleaseStream command s =
     (if length command < 2 then (s, None)
      else (case EncodeCommand [AmfString ''_result'', AmfNumber (toFloat64 (command ! 1)), AmfNull] of
              Inl e \<Rightarrow> (s, Some e)
            | Inr body \<Rightarrow> sv_write 3 MsgCommandAMF0 0 0 body s))"

definition HandleFCPublish :: "Value list \<Rightarrow> ServiceSession \<Rightarrow> ServiceSession \<times> go_error option" where
  "HandleFCPublish command s =
     (if length command < 2 then (s, None)
      else (case EncodeCommand [AmfString ''_result'', AmfNumber (toFloat64 (command ! 1)), AmfNull] of
              Inl e \<Rightarrow> (s, Some e)
            | Inr body \<Rightarrow> sv_write 3 MsgCommandAMF0 0 0 body s))"

definition HandleCreateStream :: "Value list \<Rightarrow> ServiceSession \<Rightarrow> ServiceSession \<times> go_error option" where
  "HandleCreateStream command s =
     (if length command < 2 then (s, Some (Errorf ''invalid createStream command''))
      else
        (let streamID = sv_nextStreamID s;
             s = s\<lparr>sv_nextStreamID := streamID + 1\<rparr>
         in (case EncodeCommand [AmfString ''_result'', AmfNumber (toFloat64 (command ! 1)), AmfNull,
                                 AmfNumber (float64_of_u32 streamID)] of
               Inl e \<Rightarrow> (s, Some e)
             | Inr body \<Rightarrow> sv_write 3 MsgCommandAMF0 0 0 body s)))"

definition sendOnStatus :: "u32 \<Rightarrow> string \<Rightarrow> string \<Rightarrow> string \<Rightarrow> ServiceSession \<Rightarrow> ServiceSession \<times> go_error option" where
  "sendOnStatus streamID level code description s =
     (let status = AmfObject [(''level'', AmfString level), (''code'', AmfString code),
            (''description'', AmfString description)]
      in (case EncodeCommand [AmfString ''onStatus'', AmfNumber 0, AmfNull, status] of
            Inl e \<Rightarrow> (s, Some e)
          | Inr body \<Rightarrow> sv_write 5 MsgCommandAMF0 0 streamID body s))"

definition extractStreamName :: "Value list \<Rightarrow> string" where
  "extractStreamName command =
     (case (if length command \<ge> 4 then command ! 3 else AmfNull) of
        AmfString name \<Rightarrow> name
      | _ \<Rightarrow> (case (if length command \<ge> 3 then command ! 2 else AmfNull) of
                AmfString name \<Rightarrow> name
              | _ \<Rightarrow> ''''))"

definition HandlePublish ::
    "Value list \<Rightarrow> u32 \<Rightarrow> ServiceSession \<times> Bus \<Rightarrow> (ServiceSession \<times> Bus) \<times> go_error option" where
  "HandlePublish command streamID st =
     (case st of (s, b) \<Rightarrow>
      let rawName = extractStreamName command in
      if rawName = '''' then ((s, b), Some (Errorf ''stream name not found in publish command''))
      else
        (case ParseStreamName rawName of (streamName, key) \<Rightarrow>
         if streamName = '''' then ((s, b), Some (Errorf ''empty stream name''))
         else if \<not> KeySet_Allow (sv_auth s) key then
           ((fst (sendOnStatus streamID ''error'' ''NetStream.Publish.Failed'' ''Authentication failed'' s), b),
            Some (Errorf ''auth failed''))
         else
           (let app = Session_GetApp (sv_session s) in
            if app = '''' then ((s, b), Some (Errorf ''app not set''))
            else
              (case Registry_GetOrCreate (NewStreamKey app streamName) b of (b1, p, created) \<Rightarrow>
               (case Stream_AttachPublisher 1 (stream_at b1 p) of
                  (_, False) \<Rightarrow> ((s, b1), Some (Errorf ''stream already has a publisher''))
                | (stream, True) \<Rightarrow>
                    let b2 = with_stream p (\<lambda>_. stream) b1;
                        s1 = s\<lparr>sv_publisher := Some (NewPublisher p b2 1),
                               sv_session := Session_SetState StatePublishing
                                 (Session_SetStreamName streamName (sv_session s))\<rparr>;
                        s2 = fst (sv_write 2 MsgUserCtrl 0 0 (CreateStreamBegin streamID) s1)
                    in (case sendOnStatus streamID ''status'' ''NetStream.Publish.Start'' ''Start publishing'' s2 of
                          (s3, e) \<Rightarrow> ((s3, b2), e)))))))"

definition HandleMediaMessage :: "byte \<Rightarrow> u32 \<Rightarrow> bytes \<Rightarrow> ServiceSession \<Rightarrow> Bus \<Rightarrow> Bus" where
  "HandleMediaMessage msgType timestamp body s b =
     (case sv_publisher s of
        None \<Rightarrow> b
      | Some p \<Rightarrow>
          if msgType = MsgAudio then PublishAudio timestamp body p b
          else if msgType = MsgVideo then PublishVideo timestamp body p b
          else if msgType = MsgDataAMF0 then PublishMetadata timestamp body p b
          else b)"

definition ServiceSession_Close :: "ServiceSession \<times> Bus \<Rightarrow> ServiceSession \<times> Bus" where
  "ServiceSession_Close st =
     (case st of (s, b) \<Rightarrow>
      let b1 = (case sv_publisher s of
                  None \<Rightarrow> b
                | Some p \<Rightarrow> fst (Registry_RemoveIfEmpty (pb_streamKey p) (Publisher_Detach p b)))
      in (s\<lparr>sv_session := Session_Close (sv_session s)\<rparr>, b1))"

section \<open>Connection\<close>

definition handleCommand :: "bytes \<Rightarrow> u32 \<Rightarrow> ServiceSession \<times> Bus \<Rightarrow> (ServiceSession \<times> Bus) \<times> go_error option" where
  "handleCommand body streamID st =
     (case DecodeCommand body of
        Inl e \<Rightarrow> (st, Some e)
      | Inr command \<Rightarrow>
          if length command = 0 then (st, None)
          else
            (case command ! 0 of
               AmfString cmdName \<Rightarrow>
                 (let on_session = (\<lambda>f. case f (fst st) of (s, e) \<Rightarrow> ((s, snd st), e)) in
                  if cmdName = ''connect'' then on_session (HandleConnect command)
                  else if cmdName = ''releaseStream'' then on_session (HandleReleaseStream command)
                  else if cmdName = ''FCPublish'' then on_session (HandleFCPublish command)
                  else if cmdName = ''createStream'' then on_session (HandleCreateStream command)
                  else if cmdName = ''publish'' then HandlePublish command streamID st
                  else if cmdName = ''deleteStream'' \<or> cmdName = ''closeStream'' then (ServiceSession_Close st, None)
                  else (st, None))
             | _ \<Rightarrow> (st, None)))"

text \<open>What a complete message does; the error ends the connection.\<close>

definition handle_message :: "RtmpMessage \<Rightarrow> ServiceSession \<times> Bus \<Rightarrow> (ServiceSession \<times> Bus) \<times> go_error option" where
  "handle_message m st =
     (case st of (s, b) \<Rightarrow>
      if rm_Type m = MsgSetChunkSize then
        (case ParseSetChunkSize (rm_Body m) of
           Inl e \<Rightarrow> (st, None)
         | Inr sz \<Rightarrow> ((s\<lparr>sv_session := Session_SetReadChunkSize sz (sv_session s)\<rparr>, b), None))
      else if rm_Type m = MsgWinAckSize then (st, None)
      else if rm_Type m = MsgUserCtrl then (st, None)
      else if rm_Type m = MsgCommandAMF0 then handleCommand (rm_Body m) (rm_StreamID m) st
      else if rm_Type m = MsgAudio \<or> rm_Type m = MsgVideo \<or> rm_Type m = MsgDataAMF0 then
        ((s, HandleMediaMessage (rm_Type m) (rm_Timestamp m) (rm_Body m) s b), None)
      else (st, None))"

text \<open>One turn of the message loop: \<open>Inl\<close> ends the connection with this state.\<close>

definition handle_chunk :: "ServiceSession \<times> Bus \<Rightarrow> (ServiceSession \<times> Bus) + (ServiceSession \<times> Bus)" where
  "handle_chunk st =
     (case st of (s, b) \<Rightarrow>
      (case Session_ReadChunk (sv_session s) of
         Inl e \<Rightarrow> Inl (s, b)
       | Inr (csID, ss) \<Rightarrow>
           let bytesRead = Session_GetBytesReadForChunk csID ss;
               ss = (if bytesRead > 0 then fst (Session_RecordBytesReceived bytesRead ss) else ss)
           in (case Session_GetCompleteMessage csID ss of
                 (ss, None) \<Rightarrow> Inr (s\<lparr>sv_session := ss\<rparr>, b)
               | (ss, Some m) \<Rightarrow>
                   (case handle_message m (s\<lparr>sv_session := ss\<rparr>, b) of
                      (st, Some e) \<Rightarrow> Inl st
                    | (st, None) \<Rightarrow> Inr st))))"

lemmas service_defs = HandleConnect_def HandleReleaseStream_def HandleFCPublish_def HandleCreateStream_def
  sendConnectResult_def sendOnStatus_def EncodeCommand_def

section \<open>What the handlers keep\<close>

lemma conn_writes_in: "conn_writes ws c = (c', e) \<Longrightarrow> cn_in c' = cn_in c \<and> cn_closed c' = cn_closed c"
proof (induction ws arbitrary: c)
  case (Cons w ws)
  then show ?case by (fastforce simp: conn_Write_def split: if_splits prod.splits option.splits)
qed simp

lemma WriteChunk_in:
  assumes "WriteChunk csID mt ts sid body sz c = Some x"
  shows "cn_in (fst x) = cn_in c \<and> cn_closed (fst x) = cn_closed c"
proof -
  have "WriteChunk_loop csID mt ts sid body sz 0 c = Some x" using assms by (simp add: WriteChunk_def)
  then show ?thesis
  proof (rule WriteChunk_loop.raw_induct
      [where P = "\<lambda>_ _ _ _ _ _ _ c x. cn_in (fst x) = cn_in c \<and> cn_closed (fst x) = cn_closed c", rotated])
    fix f csID mt ts sid body sz off c x
    assume ih: "\<And>csID mt ts sid body sz off c x. f csID mt ts sid body sz off c = Some x \<Longrightarrow>
        cn_in (fst x) = cn_in c \<and> cn_closed (fst x) = cn_closed c"
      and eq: "(if off < of_nat (length body) then
        (case chunk_writes csID mt ts sid body sz off of
           (ws, chunkLen) \<Rightarrow> (case conn_writes ws c of (c', Some e) \<Rightarrow> Some (c', Some e)
              | (c', None) \<Rightarrow> f csID mt ts sid body sz (off + chunkLen) c'))
        else Some (c, None)) = Some x"
    obtain ws n c' e where w: "chunk_writes csID mt ts sid body sz off = (ws, n)" "conn_writes ws c = (c', e)"
      by (metis surj_pair)
    show "cn_in (fst x) = cn_in c \<and> cn_closed (fst x) = cn_closed c"
      using eq ih [of csID mt ts sid body sz "off + n" c' x] conn_writes_in [OF w(2)] w
      by (cases "off < of_nat (length body)"; cases e) auto
  qed
qed

definition sv_in :: "ServiceSession \<Rightarrow> bytes" where
  "sv_in s = cn_in (ss_conn (sv_session s))"

definition sv_keeps :: "ServiceSession \<Rightarrow> ServiceSession \<Rightarrow> bool" where
  "sv_keeps s s' \<longleftrightarrow> sv_in s' = sv_in s \<and> (session_inv (sv_session s) \<longrightarrow> session_inv (sv_session s')) \<and>
     sv_publisher s' = sv_publisher s \<and> sv_auth s' = sv_auth s"

lemma sv_keeps_refl [simp]: "sv_keeps s s"
  by (simp add: sv_keeps_def)

lemma sv_keeps_trans: "sv_keeps s s' \<Longrightarrow> sv_keeps s' s'' \<Longrightarrow> sv_keeps s s''"
  by (simp add: sv_keeps_def)

lemma sv_write_keeps: "sv_keeps s (fst (sv_write csID mt ts sid body s))"
proof -
  have "session_inv (sv_session s) \<longrightarrow> session_inv (fst (Session_WriteMessage csID mt ts sid body (sv_session s)))"
    by (simp add: WriteMessage_inv)
  then show ?thesis
    by (auto simp: sv_write_def sv_keeps_def sv_in_def Session_WriteMessage_def dest!: WriteChunk_in
        split: prod.splits option.splits)
qed

lemma sv_keeps_set:
  "sv_keeps t s \<Longrightarrow> sv_keeps t (s\<lparr>sv_session := Session_SetApp a (sv_session s)\<rparr>)"
  "sv_keeps t s \<Longrightarrow> sv_keeps t (s\<lparr>sv_session := Session_SetAckSize n (sv_session s)\<rparr>)"
  "sv_keeps t s \<Longrightarrow> sv_keeps t (s\<lparr>sv_session := Session_SetWriteChunkSize 4096 (sv_session s)\<rparr>)"
  "sv_keeps t s \<Longrightarrow> sv_keeps t (s\<lparr>sv_nextStreamID := i\<rparr>)"
  by (auto simp: sv_keeps_def sv_in_def session_defs session_inv_def word_le_nat_alt)

lemma sv_write_keeps': "sv_keeps t s \<Longrightarrow> sv_keeps t (fst (sv_write csID mt ts sid body s))"
  by (rule sv_keeps_trans [OF _ sv_write_keeps])

lemma sv_try_keeps:
  "sv_keeps t (fst r) \<Longrightarrow> (\<And>s. sv_keeps t s \<Longrightarrow> sv_keeps t (fst (f s))) \<Longrightarrow> sv_keeps t (fst (sv_try msg r f))"
  by (auto simp: sv_try_def split: prod.splits option.splits)

lemma session_handlers_keep:
  "sv_keeps t s \<Longrightarrow> sv_keeps t (fst (sendConnectResult v enc s))"
  "sv_keeps t s \<Longrightarrow> sv_keeps t (fst (sendOnStatus i l c d s))"
  "sv_keeps t s \<Longrightarrow> sv_keeps t (fst (HandleReleaseStream cmd s))"
  "sv_keeps t s \<Longrightarrow> sv_keeps t (fst (HandleFCPublish cmd s))"
  "sv_keeps t s \<Longrightarrow> sv_keeps t (fst (HandleCreateStream cmd s))"
  by (auto simp: sendConnectResult_def sendOnStatus_def HandleReleaseStream_def HandleFCPublish_def HandleCreateStream_def
      EncodeCommand_def Let_def intro!: sv_write_keeps' sv_keeps_set)

lemma HandleConnect_keeps: "sv_keeps s (fst (HandleConnect cmd s))"
  unfolding HandleConnect_def Let_def
  by (auto intro!: sv_try_keeps sv_write_keeps' sv_keeps_set session_handlers_keep)

section \<open>Publishing and closing\<close>

lemma HandlePublish_refused:
  assumes "HandlePublish cmd sid (s, b) = ((s', b'), e)" "ParseStreamName (extractStreamName cmd) = (name, key)"
    and "extractStreamName cmd = '''' \<or> name = '''' \<or> \<not> KeySet_Allow (sv_auth s) key \<or> ss_app (sv_session s) = ''''"
  shows "b' = b \<and> sv_keeps s s' \<and> e \<noteq> None"
proof -
  have "sv_keeps s (fst (sendOnStatus sid ''error'' ''NetStream.Publish.Failed'' ''Authentication failed'' s))"
    by (intro session_handlers_keep) simp
  then show ?thesis using assms by (auto simp: HandlePublish_def Let_def Session_GetApp_def split: if_splits)
qed

lemma HandlePublish_attaches:
  assumes "HandlePublish cmd sid (s, b) = ((s', b'), e)" "ParseStreamName (extractStreamName cmd) = (name, key)"
    and "extractStreamName cmd \<noteq> ''''" "name \<noteq> ''''" "KeySet_Allow (sv_auth s) key" "ss_app (sv_session s) \<noteq> ''''"
    and "Registry_GetOrCreate (NewStreamKey (ss_app (sv_session s)) name) b = (b1, p, fresh)" "\<not> Stream_HasPublisher (stream_at b1 p)"
  shows "b' = with_stream p (\<lambda>s. fst (Stream_AttachPublisher 1 s)) b1 \<and>
    sv_publisher s' = Some (NewPublisher p b' 1) \<and> sv_auth s' = sv_auth s \<and> sv_in s' = sv_in s \<and>
    (session_inv (sv_session s) \<longrightarrow> session_inv (sv_session s'))"
proof -
  define stream where "stream = fst (Stream_AttachPublisher 1 (stream_at b1 p))"
  have att: "Stream_AttachPublisher 1 (stream_at b1 p) = (stream, True)"
    using assms(8) by (simp add: stream_def Stream_AttachPublisher_def Stream_HasPublisher_def)
  define s1 where "s1 = s\<lparr>sv_publisher := Some (NewPublisher p (with_stream p (\<lambda>_. stream) b1) 1),
      sv_session := Session_SetState StatePublishing (Session_SetStreamName name (sv_session s))\<rparr>"
  have b': "b' = with_stream p (\<lambda>_. stream) b1" and
    s': "s' = fst (sendOnStatus sid ''status'' ''NetStream.Publish.Start'' ''Start publishing''
        (fst (sv_write 2 MsgUserCtrl 0 0 (CreateStreamBegin sid) s1)))"
    using assms(1-7) att
    by (auto simp: HandlePublish_def Let_def Session_GetApp_def s1_def [symmetric] split: prod.splits)
  have "sv_keeps s1 s'" unfolding s' by (intro session_handlers_keep sv_write_keeps)
  moreover have "sv_in s1 = sv_in s" "session_inv (sv_session s) \<longrightarrow> session_inv (sv_session s1)"
    "sv_auth s1 = sv_auth s" "sv_publisher s1 = Some (NewPublisher p b' 1)"
    by (auto simp: s1_def sv_in_def session_defs session_inv_def b')
  moreover have "b' = with_stream p (\<lambda>s. fst (Stream_AttachPublisher 1 s)) b1"
    by (simp add: b' with_stream_def stream_def)
  ultimately show ?thesis by (simp add: sv_keeps_def)
qed

text \<open>How a publish command ends: refused, on a stream that is taken, or publishing.\<close>

lemma HandlePublish_cases:
  assumes "HandlePublish cmd sid (s, b) = ((s', b'), e)"
  obtains (refused) "b' = b" "sv_keeps s s'" "e \<noteq> None"
  | (taken) name key p fresh where
      "ParseStreamName (extractStreamName cmd) = (name, key)" "name \<noteq> ''''" "KeySet_Allow (sv_auth s) key"
      "Registry_GetOrCreate (NewStreamKey (ss_app (sv_session s)) name) b = (b', p, fresh)"
      "Stream_HasPublisher (stream_at b' p)" "s' = s" "e \<noteq> None"
  | (publishing) name key b1 p fresh where
      "ParseStreamName (extractStreamName cmd) = (name, key)" "name \<noteq> ''''" "KeySet_Allow (sv_auth s) key"
      "Registry_GetOrCreate (NewStreamKey (ss_app (sv_session s)) name) b = (b1, p, fresh)"
      "\<not> Stream_HasPublisher (stream_at b1 p)"
      "b' = with_stream p (\<lambda>s. fst (Stream_AttachPublisher 1 s)) b1"
      "sv_publisher s' = Some (NewPublisher p b' 1)" "sv_auth s' = sv_auth s" "sv_in s' = sv_in s"
      "session_inv (sv_session s) \<longrightarrow> session_inv (sv_session s')"
proof -
  obtain name key where nk: "ParseStreamName (extractStreamName cmd) = (name, key)" by (metis surj_pair)
  let ?app = "ss_app (sv_session s)"
  obtain b1 p fresh where gc: "Registry_GetOrCreate (NewStreamKey ?app name) b = (b1, p, fresh)" by (metis surj_pair)
  let ?bad = "extractStreamName cmd = '''' \<or> name = '''' \<or> \<not> KeySet_Allow (sv_auth s) key \<or> ?app = ''''"
  consider ?bad | "\<not> ?bad" "Stream_HasPublisher (stream_at b1 p)" | "\<not> ?bad" "\<not> Stream_HasPublisher (stream_at b1 p)" by blast
  then show thesis
  proof cases
    case 1
    then show thesis using HandlePublish_refused [OF assms nk] refused by blast
  next
    case 2
    then have "Stream_AttachPublisher 1 (stream_at b1 p) = (stream_at b1 p, False)"
      by (simp add: Stream_AttachPublisher_def Stream_HasPublisher_def)
    then have "b' = b1" "s' = s" "e \<noteq> None"
      using 2 assms nk gc by (auto simp: HandlePublish_def Let_def Session_GetApp_def)
    then show thesis using taken [OF nk] 2 gc by simp
  next
    case 3
    then show thesis using HandlePublish_attaches [OF assms nk _ _ _ _ gc] publishing [OF nk _ _ gc] by simp
  qed
qed

lemma Close_effect:
  "sv_publisher s = None \<Longrightarrow> snd (ServiceSession_Close (s, b)) = b"
  "sv_publisher s = Some p \<Longrightarrow> snd (ServiceSession_Close (s, b)) =
     fst (Registry_Remove (pb_streamKey p) (with_stream (pb_stream p) Stream_DetachPublisher b))"
  "fst (ServiceSession_Close (s, b)) = s\<lparr>sv_session := Session_Close (sv_session s)\<rparr>"
  by (simp_all add: ServiceSession_Close_def Publisher_Detach_def Registry_RemoveIfEmpty_def Let_def)

section \<open>The invariant of a connection\<close>

text \<open>The stream a session publishes on exists and is the stream of the session's key.\<close>

definition svc_inv :: "ServiceSession \<times> Bus \<Rightarrow> bool" where
  "svc_inv st \<longleftrightarrow> session_inv (sv_session (fst st)) \<and> bus_inv (snd st) \<and>
     (\<forall>p. sv_publisher (fst st) = Some p \<longrightarrow> pb_stream p < length (bus_heap (snd st)) \<and>
        pb_streamKey p = st_key (stream_at (snd st) (pb_stream p)))"

lemma Close_inv: "svc_inv st \<Longrightarrow> svc_inv (ServiceSession_Close st)"
proof -
  assume inv: "svc_inv st"
  obtain s b where st: "st = (s, b)" by (cases st)
  have "session_inv (Session_Close (sv_session s))"
    using inv by (simp add: st svc_inv_def session_inv_def Session_Close_def)
  moreover have "bus_inv (with_stream q Stream_DetachPublisher b)" for q
    using inv by (intro bus_inv_with_stream) (auto simp: st svc_inv_def)
  ultimately show ?thesis using inv
    by (cases "sv_publisher s")
      (auto simp: st svc_inv_def Close_effect bus_inv_Remove Remove_heap with_stream_heap with_stream_key)
qed

lemma svc_inv_keeps: "svc_inv (s, b) \<Longrightarrow> sv_keeps s s' \<Longrightarrow> svc_inv (s', b)"
  by (auto simp: svc_inv_def sv_keeps_def)

lemma HandlePublish_in:
  assumes "HandlePublish cmd sid (s, b) = ((s', b'), e)"
  shows "sv_in s' = sv_in s"
  using assms by (cases rule: HandlePublish_cases) (auto simp: sv_keeps_def)

lemma HandlePublish_inv:
  assumes inv: "svc_inv (s, b)" and eq: "HandlePublish cmd sid (s, b) = ((s', b'), e)"
  shows "svc_inv (s', b')"
proof -
  have bi: "bus_inv b" using inv by (simp add: svc_inv_def)
  have grow: "svc_inv (s, b1)" if "Registry_GetOrCreate k b = (b1, p, fresh)" for k b1 p fresh
    using inv bus_inv_GetOrCreate(1,6) [OF bi that] by (fastforce simp: svc_inv_def)
  from eq show ?thesis
  proof (cases rule: HandlePublish_cases)
    case refused
    then show ?thesis using inv svc_inv_keeps by (auto simp: sv_keeps_def)
  next
    case (taken name key p fresh)
    then show ?thesis using grow by auto
  next
    case (publishing name key b1 p fresh)
    note g = bus_inv_GetOrCreate(1-3) [OF bi publishing(4)]
    have "bus_inv b'" unfolding publishing(6) using g(1) by (intro bus_inv_with_stream) auto
    then show ?thesis using inv publishing g(2)
      by (auto simp: svc_inv_def NewPublisher_def with_stream_heap)
  qed
qed

lemma HandleMediaMessage_inv: "svc_inv (s, b) \<Longrightarrow> svc_inv (s, HandleMediaMessage mt ts body s b)"
  by (auto simp: svc_inv_def HandleMediaMessage_def PublishAudio_def PublishVideo_def PublishMetadata_def
      publish_frame_frame with_stream_heap with_stream_key intro!: bus_inv_with_stream split: option.splits)

lemma handleCommand_inv:
  "sv_in (fst (fst (handleCommand body sid st))) = sv_in (fst st)"
  "svc_inv st \<Longrightarrow> svc_inv (fst (handleCommand body sid st))"
proof -
  obtain s b where st: "st = (s, b)" by (cases st)
  have on: "sv_in (fst (fst (case r of (s, e) \<Rightarrow> ((s, b), e)))) = sv_in s"
    "svc_inv (s, b) \<Longrightarrow> svc_inv (fst (case r of (s, e) \<Rightarrow> ((s, b), e)))"
    if "sv_keeps s (fst r)" for r :: "ServiceSession \<times> go_error option"
    using svc_inv_keeps [of s b "fst r"] that by (auto simp: sv_keeps_def split: prod.splits)
  have pub: "sv_in (fst (fst (HandlePublish cmd sid (s, b)))) = sv_in s"
    "svc_inv (s, b) \<Longrightarrow> svc_inv (fst (HandlePublish cmd sid (s, b)))" for cmd
    using HandlePublish_inv [of s b cmd sid] HandlePublish_in [of cmd sid s b] by (metis fst_conv prod.collapse)+
  have cl: "sv_in (fst (ServiceSession_Close (s, b))) = sv_in s"
    by (simp add: Close_effect sv_in_def Session_Close_def conn_Close_def)
  note h = HandleConnect_keeps [THEN on(1)] session_handlers_keep [OF sv_keeps_refl, THEN on(1)]
    HandleConnect_keeps [THEN on(2)] session_handlers_keep [OF sv_keeps_refl, THEN on(2)]
  show "sv_in (fst (fst (handleCommand body sid st))) = sv_in (fst st)"
    by (auto simp: handleCommand_def st h pub cl split: sum.splits Value.splits)
  show "svc_inv st \<Longrightarrow> svc_inv (fst (handleCommand body sid st))"
    using Close_inv [of st] by (auto simp: handleCommand_def st h pub split: sum.splits Value.splits)
qed

lemma handle_message_inv:
  "sv_in (fst (fst (handle_message m st))) = sv_in (fst st)"
  "svc_inv st \<Longrightarrow> svc_inv (fst (handle_message m st))"
proof -
  obtain s b where st: "st = (s, b)" by (cases st)
  have sz: "svc_inv (s, b) \<Longrightarrow> ParseSetChunkSize body = Inr n \<Longrightarrow>
      svc_inv (s\<lparr>sv_session := Session_SetReadChunkSize n (sv_session s)\<rparr>, b)" for body n
    using parser_inv_SetChunkSize by (auto simp: svc_inv_def session_inv_def session_defs)
  have i: "sv_in (s\<lparr>sv_session := Session_SetReadChunkSize n (sv_session s)\<rparr>) = sv_in s" for n
    by (simp add: sv_in_def session_defs)
  show "sv_in (fst (fst (handle_message m st))) = sv_in (fst st)"
    using handleCommand_inv(1) [of "rm_Body m" "rm_StreamID m" st]
    by (auto simp: handle_message_def st i split: sum.splits)
  show "svc_inv st \<Longrightarrow> svc_inv (fst (handle_message m st))"
    using handleCommand_inv(2) [of st "rm_Body m" "rm_StreamID m"] HandleMediaMessage_inv [of s b]
    by (auto simp: handle_message_def st sz split: sum.splits)
qed

text \<open>The loop reads at least a byte each time round.\<close>

lemma RecordBytesReceived_in:
  "cn_in (ss_conn (fst (Session_RecordBytesReceived n s))) = cn_in (ss_conn s)"
  by (auto simp: Session_RecordBytesReceived_def Session_SendACK_def Session_WriteMessage_def Let_def
      split: prod.splits option.splits dest!: WriteChunk_in)

lemma GetCompleteMessage_in: "ss_conn (fst (Session_GetCompleteMessage csID s)) = ss_conn s"
  by (simp add: Session_GetCompleteMessage_def split: prod.splits)

text \<open>The session after a chunk was read and counted, and the message it completed.\<close>

definition after_chunk :: "ServiceSession \<Rightarrow> u32 \<Rightarrow> Session \<Rightarrow> ServiceSession \<times> RtmpMessage option" where
  "after_chunk s csID ss =
     (let n = Session_GetBytesReadForChunk csID ss;
          ss1 = (if n > 0 then fst (Session_RecordBytesReceived n ss) else ss)
      in case Session_GetCompleteMessage csID ss1 of (ss2, m) \<Rightarrow> (s\<lparr>sv_session := ss2\<rparr>, m))"

lemma handle_chunk_after:
  "handle_chunk (s, b) =
     (case Session_ReadChunk (sv_session s) of
        Inl e \<Rightarrow> Inl (s, b)
      | Inr (csID, ss) \<Rightarrow>
          (case after_chunk s csID ss of
             (s1, None) \<Rightarrow> Inr (s1, b)
           | (s1, Some m) \<Rightarrow>
               (case handle_message m (s1, b) of (st, Some e) \<Rightarrow> Inl st | (st, None) \<Rightarrow> Inr st)))"
  by (auto simp: handle_chunk_def after_chunk_def Let_def split: sum.splits prod.splits option.splits)

lemma Session_ReadChunk_in:
  "Session_ReadChunk s = Inr (csID, s') \<Longrightarrow> length (cn_in (ss_conn s')) < length (cn_in (ss_conn s))"
  by (auto simp: Session_ReadChunk_def bind_result_Inr_iff split: if_splits dest: ReadChunk_length)

lemma after_chunk_keeps:
  assumes "after_chunk s csID ss = (s1, m)"
  shows "sv_in s1 = cn_in (ss_conn ss)" "sv_publisher s1 = sv_publisher s" "sv_auth s1 = sv_auth s"
proof -
  define ss1 where "ss1 = (if Session_GetBytesReadForChunk csID ss > 0
      then fst (Session_RecordBytesReceived (Session_GetBytesReadForChunk csID ss) ss) else ss)"
  have "s1 = s\<lparr>sv_session := fst (Session_GetCompleteMessage csID ss1)\<rparr>"
    using assms by (auto simp: after_chunk_def Let_def ss1_def [symmetric] split: prod.splits)
  then show "sv_in s1 = cn_in (ss_conn ss)" "sv_publisher s1 = sv_publisher s" "sv_auth s1 = sv_auth s"
    by (simp_all add: sv_in_def GetCompleteMessage_in ss1_def RecordBytesReceived_in)
qed

lemma after_chunk_inv:
  assumes "svc_inv (s, b)" "Session_ReadChunk (sv_session s) = Inr (csID, ss)" "after_chunk s csID ss = (s1, m)"
  shows "svc_inv (s1, b)"
proof -
  have "session_inv (sv_session s)" using assms(1) by (simp add: svc_inv_def)
  note rd = ReadChunk_session_inv [OF this assms(2)]
  define ss1 where "ss1 = (if Session_GetBytesReadForChunk csID ss > 0
      then fst (Session_RecordBytesReceived (Session_GetBytesReadForChunk csID ss) ss) else ss)"
  have "session_inv ss1" using rd(1,3) by (auto simp: ss1_def RecordBytesReceived_inv)
  moreover have "s1 = s\<lparr>sv_session := fst (Session_GetCompleteMessage csID ss1)\<rparr>"
    using assms(3) by (auto simp: after_chunk_def Let_def ss1_def [symmetric] split: prod.splits)
  ultimately show ?thesis using assms(1) GetCompleteMessage_inv [of ss1] by (simp add: svc_inv_def)
qed

text \<open>How a turn of the loop ends.\<close>

lemma handle_chunk_cases:
  obtains (ended) e where "Session_ReadChunk (sv_session s) = Inl e" "handle_chunk (s, b) = Inl (s, b)"
  | (partial) csID ss s1 where "Session_ReadChunk (sv_session s) = Inr (csID, ss)"
      "after_chunk s csID ss = (s1, None)" "handle_chunk (s, b) = Inr (s1, b)"
  | (failed) csID ss s1 m st e where "Session_ReadChunk (sv_session s) = Inr (csID, ss)"
      "after_chunk s csID ss = (s1, Some m)" "handle_message m (s1, b) = (st, Some e)" "handle_chunk (s, b) = Inl st"
  | (handled) csID ss s1 m st where "Session_ReadChunk (sv_session s) = Inr (csID, ss)"
      "after_chunk s csID ss = (s1, Some m)" "handle_message m (s1, b) = (st, None)" "handle_chunk (s, b) = Inr st"
proof (cases "Session_ReadChunk (sv_session s)")
  case (Inl e)
  then show thesis using ended by (simp add: handle_chunk_after)
next
  case (Inr x)
  obtain csID ss where x: "x = (csID, ss)" by (cases x)
  obtain s1 o' where a: "after_chunk s csID ss = (s1, o')" by (cases "after_chunk s csID ss")
  show thesis
  proof (cases o')
    case None
    then show thesis using partial Inr x a by (simp add: handle_chunk_after)
  next
    case (Some m)
    obtain st e where h: "handle_message m (s1, b) = (st, e)" by (cases "handle_message m (s1, b)")
    show thesis using failed handled Inr x a Some h by (cases e) (simp_all add: handle_chunk_after)
  qed
qed

lemma handle_chunk_shrinks:
  assumes "handle_chunk st = Inr st'"
  shows "length (sv_in (fst st')) < length (sv_in (fst st))"
proof -
  obtain s b where st: "st = (s, b)" by (cases st)
  show ?thesis
  proof (cases rule: handle_chunk_cases [of s b])
    case (partial csID ss s1)
    then show ?thesis using assms after_chunk_keeps(1) [OF partial(2)] Session_ReadChunk_in [OF partial(1)]
      by (auto simp: st sv_in_def)
  next
    case (handled csID ss s1 m st1)
    have "sv_in (fst st1) = sv_in s1" using handle_message_inv(1) [of m "(s1, b)"] handled(3) by simp
    then show ?thesis using assms handled after_chunk_keeps(1) [OF handled(2)] Session_ReadChunk_in [OF handled(1)]
      by (auto simp: st sv_in_def)
  qed (use assms in \<open>simp_all add: st\<close>)
qed

lemma handle_chunk_inv:
  assumes "svc_inv st" "handle_chunk st = Inl st' \<or> handle_chunk st = Inr st'"
  shows "svc_inv st'"
proof -
  obtain s b where st: "st = (s, b)" by (cases st)
  have msg: "svc_inv st1" if "Session_ReadChunk (sv_session s) = Inr (csID, ss)" "after_chunk s csID ss = (s1, x)"
    "handle_message m (s1, b) = (st1, e)" for csID ss s1 x m st1 e
    using after_chunk_inv [OF _ that(1,2), of b] assms(1) handle_message_inv(2) [of "(s1, b)" m] that(3) by (simp add: st)
  show ?thesis
  proof (cases rule: handle_chunk_cases [of s b])
    case ended
    then show ?thesis using assms by (auto simp: st)
  next
    case (partial csID ss s1)
    then show ?thesis using assms after_chunk_inv [OF _ partial(1,2), of b] by (auto simp: st)
  next
    case (failed csID ss s1 m st1 e)
    then show ?thesis using assms(2) msg [OF failed(1-3)] by (auto simp: st)
  next
    case (handled csID ss s1 m st1)
    then show ?thesis using assms(2) msg [OF handled(1-3)] by (auto simp: st)
  qed
qed

section \<open>The connection, from accept to close\<close>

function handle_loop :: "ServiceSession \<times> Bus \<Rightarrow> ServiceSession \<times> Bus" where
  "handle_loop st =
     (case handle_chunk st of
        Inl st' \<Rightarrow> st'
      | Inr st' \<Rightarrow> handle_loop st')"
  by pat_completeness auto
termination
  by (relation "measure (length \<circ> sv_in \<circ> fst)") (auto dest: handle_chunk_shrinks)

declare handle_loop.simps [simp del]

definition handleConnection :: "hs_env \<Rightarrow> KeySet option \<Rightarrow> Conn \<Rightarrow> Bus \<Rightarrow> ServiceSession \<times> Bus" where
  "handleConnection env auth conn b =
     (let s = NewServiceSession conn auth in
      case Session_PerformHandshake env (sv_session s) of
        (ss, Some e) \<Rightarrow> ServiceSession_Close (s\<lparr>sv_session := ss\<rparr>, b)
      | (ss, None) \<Rightarrow> ServiceSession_Close (handle_loop (s\<lparr>sv_session := ss\<rparr>, b)))"

lemma handle_loop_inv: "svc_inv st \<Longrightarrow> svc_inv (handle_loop st)"
proof (induction st rule: handle_loop.induct)
  case (1 st)
  show ?case
  proof (cases "handle_chunk st")
    case (Inl st')
    then show ?thesis using handle_chunk_inv [OF 1(2)] by (subst handle_loop.simps) simp
  next
    case (Inr st')
    then show ?thesis using 1(1) [OF Inr] handle_chunk_inv [OF 1(2)] by (subst handle_loop.simps) simp
  qed
qed

section \<open>Media\<close>

text \<open>The frame a media message becomes on the bus.\<close>

definition frame_of :: "RtmpMessage \<Rightarrow> bytes MediaMessage" where
  "frame_of m =
     (if rm_Type m = MsgAudio
      then \<lparr>mm_Type = MessageTypeAudio, mm_Timestamp = rm_Timestamp m, mm_Payload = rm_Body m,
            mm_IsInit = isAACSequenceHeader (rm_Body m)\<rparr>
      else if rm_Type m = MsgVideo
      then \<lparr>mm_Type = MessageTypeVideo, mm_Timestamp = rm_Timestamp m, mm_Payload = rm_Body m,
            mm_IsInit = isAVCSequenceHeader (rm_Body m)\<rparr>
      else \<lparr>mm_Type = MessageTypeMetadata, mm_Timestamp = rm_Timestamp m,
            mm_Payload = stripSetDataFrame (rm_Body m), mm_IsInit = True\<rparr>)"

definition is_media :: "RtmpMessage \<Rightarrow> bool" where
  "is_media m \<longleftrightarrow> rm_Type m = MsgAudio \<or> rm_Type m = MsgVideo \<or> rm_Type m = MsgDataAMF0"

lemma handle_message_media:
  assumes "is_media m" "sv_publisher s = Some p"
  shows "handle_message m (s, b) =
    ((s, with_stream (pb_stream p) (publish_frame (mm_Type (frame_of m)) (mm_Timestamp (frame_of m))
        (mm_IsInit (frame_of m)) (mm_Payload (frame_of m))) b), None)"
  using assms by (auto simp: is_media_def handle_message_def HandleMediaMessage_def frame_of_def
      PublishAudio_def PublishVideo_def PublishMetadata_def)

lemma strip_prefix:
  assumes "length s < 2 ^ 16"
  shows "stripSetDataFrame (encodeString s @ rest) = (if s = ''@setDataFrame'' then rest else encodeString s @ rest)"
proof -
  let ?n = "of_nat (length s) :: u16"
  have n: "unat ?n = length s" using assms by (simp add: unat_of_nat)
  have "unat (ucast (drop_bit 8 ?n) :: byte) * 256 + unat (ucast ?n :: byte) = length s"
  proof -
    have "unat (drop_bit 8 ?n) = length s div 256"
      using assms by (simp add: unsigned_drop_bit_eq n drop_bit_eq_div [where ?'a = nat] take_bit_nat_eq_self)
    then have "unat (ucast (drop_bit 8 ?n) :: byte) = length s div 256"
      using assms by (simp add: unsigned_ucast_eq unsigned_take_bit_eq take_bit_eq_mod [where ?'a = nat])
    moreover have "unat (ucast ?n :: byte) = length s mod 256"
      using n by (simp add: unsigned_ucast_eq unsigned_take_bit_eq take_bit_eq_mod [where ?'a = nat])
    ultimately show ?thesis by simp
  qed
  then show ?thesis
    by (auto simp: stripSetDataFrame_def encodeString_def put_be16_def Let_def)
qed

lemma sv_write_app: "ss_app (sv_session (fst (sv_write i mt ts j body s))) = ss_app (sv_session s)"
  by (auto simp: sv_write_def Session_WriteMessage_def split: prod.splits option.splits)

lemma sendOnStatus_app: "ss_app (sv_session (fst (sendOnStatus i l c d s))) = ss_app (sv_session s)"
  by (simp add: sendOnStatus_def EncodeCommand_def sv_write_app Let_def)

lemma HandlePublish_free:
  assumes "extractStreamName cmd \<noteq> ''''" "ParseStreamName (extractStreamName cmd) = (name, key)" "name \<noteq> ''''"
    and "KeySet_Allow (sv_auth s) key" "ss_app (sv_session s) \<noteq> ''''"
    and "Registry_GetOrCreate (NewStreamKey (ss_app (sv_session s)) name) b = (b1, p, fresh)"
    and "\<not> Stream_HasPublisher (stream_at b1 p)"
  shows "\<exists>s' e. HandlePublish cmd sid (s, b) = ((s', with_stream p (\<lambda>s. fst (Stream_AttachPublisher 1 s)) b1), e) \<and>
    sv_publisher s' = Some (NewPublisher p (with_stream p (\<lambda>s. fst (Stream_AttachPublisher 1 s)) b1) 1) \<and>
    ss_app (sv_session s') = ss_app (sv_session s) \<and> sv_auth s' = sv_auth s"
proof -
  define stream where "stream = fst (Stream_AttachPublisher 1 (stream_at b1 p))"
  have att: "Stream_AttachPublisher 1 (stream_at b1 p) = (stream, True)"
    using assms(7) by (simp add: stream_def Stream_AttachPublisher_def Stream_HasPublisher_def)
  have b2: "with_stream p (\<lambda>_. stream) b1 = with_stream p (\<lambda>s. fst (Stream_AttachPublisher 1 s)) b1"
    by (simp add: with_stream_def stream_def)
  have keeps: "sv_publisher (fst (sendOnStatus sid l c d (fst (sv_write i mt ts j body s0)))) = sv_publisher s0"
    "sv_auth (fst (sendOnStatus sid l c d (fst (sv_write i mt ts j body s0)))) = sv_auth s0" for l c d i mt ts j body s0
    using session_handlers_keep(2) [OF sv_write_keeps, of s0] unfolding sv_keeps_def by blast+
  show ?thesis
    using assms att by (auto simp: HandlePublish_def Session_GetApp_def Let_def b2 keeps case_prod_unfold
        sendOnStatus_app sv_write_app session_defs)
qed

section \<open>An example session\<close>

definition example_session :: ServiceSession where
  "example_session = (NewServiceSession example_conn None)\<lparr>sv_session := Session_SetApp ''live'' (NewSession example_conn)\<rparr>"

definition publish_command :: "string \<Rightarrow> Value list" where
  "publish_command name = [AmfString ''publish'', AmfNumber 0, AmfNull, AmfString name]"

lemma example_publish:
  "\<exists>s1 b1 e p. HandlePublish (publish_command ''cam'') 1 (example_session, NewRegistry) = ((s1, b1), e) \<and>
     sv_publisher s1 = Some p \<and> pb_stream p = 0 \<and> pb_streamKey p = example_key \<and> svc_inv (s1, b1) \<and>
     stream_at b1 0 = (NewStream example_key)\<lparr>st_publisher := Some 1\<rparr> \<and> ss_app (sv_session s1) = ''live'' \<and>
     bus_streams b1 = [(example_key, 0)] \<and> sv_auth s1 = None"
proof -
  define b0 where "b0 = fst (Registry_GetOrCreate example_key NewRegistry)"
  have key: "NewStreamKey (ss_app (sv_session example_session)) ''cam'' = example_key"
    by (simp add: NewStreamKey_def example_session_def session_defs)
  have app: "ss_app (sv_session example_session) = ''live''" "sv_auth example_session = None"
    by (simp_all add: example_session_def NewServiceSession_def session_defs)
  have gc: "Registry_GetOrCreate example_key NewRegistry = (b0, 0, True)"
    by (simp add: b0_def Registry_GetOrCreate_def NewRegistry_def Let_def)
  have heap: "bus_heap b0 = [NewStream example_key]" "bus_streams b0 = [(example_key, 0)]"
    by (auto simp: b0_def Registry_GetOrCreate_def NewRegistry_def Let_def gomap_set_def)
  have nm: "extractStreamName (publish_command ''cam'') = ''cam''" "ParseStreamName ''cam'' = (''cam'', '''')"
    by (simp_all add: publish_command_def extractStreamName_def ParseStreamName_def IndexByte_def)
  have free: "\<not> Stream_HasPublisher (stream_at b0 0)"
    by (simp add: stream_at_def heap Stream_HasPublisher_def NewStream_rep)
  obtain s1 e where pub: "HandlePublish (publish_command ''cam'') 1 (example_session, NewRegistry) =
      ((s1, with_stream 0 (\<lambda>s. fst (Stream_AttachPublisher 1 s)) b0), e)"
    "sv_publisher s1 = Some (NewPublisher 0 (with_stream 0 (\<lambda>s. fst (Stream_AttachPublisher 1 s)) b0) 1)"
    "ss_app (sv_session s1) = ''live''" "sv_auth s1 = None"
    using HandlePublish_free [of "publish_command ''cam''" "''cam''" "''''" example_session NewRegistry b0 0 True 1]
    by (auto simp: nm key [unfolded app] gc free KeySet_Allow_def app)
  have inv0: "svc_inv (example_session, NewRegistry)"
    using session_inv_New [of example_conn] bus_inv_New
    by (simp add: svc_inv_def example_session_def NewServiceSession_def session_defs session_inv_def)
  have "svc_inv (s1, with_stream 0 (\<lambda>s. fst (Stream_AttachPublisher 1 s)) b0)"
    by (rule HandlePublish_inv [OF inv0 pub(1)])
  moreover have "stream_at (with_stream 0 (\<lambda>s. fst (Stream_AttachPublisher 1 s)) b0) 0 = (NewStream example_key)\<lparr>st_publisher := Some 1\<rparr>"
    by (simp add: stream_at_def with_stream_def heap Stream_AttachPublisher_def NewStream_rep)
  ultimately show ?thesis using pub
    by (auto simp: NewPublisher_def with_stream_def heap NewStream_rep)
qed

lemma Close_releases:
  assumes "svc_inv (s, b)" "sv_publisher s = Some p"
  defines "b' \<equiv> snd (ServiceSession_Close (s, b))"
  shows "\<not> Stream_HasPublisher (stream_at b' (pb_stream p))"
    and "Stream_SubscriberCount (stream_at b' (pb_stream p)) = 0 \<Longrightarrow> Registry_Get (pb_streamKey p) b' \<noteq> Some (pb_stream p)"
    and "\<And>q. q \<noteq> pb_stream p \<Longrightarrow> stream_at b' q = stream_at b q"
proof -
  let ?b1 = "with_stream (pb_stream p) Stream_DetachPublisher b"
  have b': "b' = fst (Registry_Remove (pb_streamKey p) ?b1)" using assms(2) by (simp add: b'_def Close_effect)
  have lt: "pb_stream p < length (bus_heap b)" using assms(1,2) by (simp add: svc_inv_def)
  have at: "stream_at b' (pb_stream p) = Stream_DetachPublisher (stream_at b (pb_stream p))"
    "stream_at ?b1 (pb_stream p) = Stream_DetachPublisher (stream_at b (pb_stream p))"
    using lt by (simp_all add: b' Remove_heap with_stream_heap)
  show free: "\<not> Stream_HasPublisher (stream_at b' (pb_stream p))"
    by (simp add: at Stream_HasPublisher_def Stream_DetachPublisher_def)
  show "Registry_Get (pb_streamKey p) b' \<noteq> Some (pb_stream p)" if "Stream_SubscriberCount (stream_at b' (pb_stream p)) = 0"
  proof -
    have "Stream_IsEmpty (stream_at ?b1 (pb_stream p))" using that free by (simp add: at IsEmpty_iff)
    then show ?thesis by (auto simp: b' Remove_spec)
  qed
  show "\<And>q. q \<noteq> pb_stream p \<Longrightarrow> stream_at b' q = stream_at b q"
    by (simp add: b' Remove_heap with_stream_heap)
qed

text \<open>How a command ends.\<close>

lemma handleCommand_cases:
  assumes "handleCommand body sid (s, b) = ((s', b'), e)"
  obtains (quiet) "b' = b" "sv_keeps s s'"
  | (publish) command where "DecodeCommand body = Inr command" "command ! 0 = AmfString ''publish''"
      "HandlePublish command sid (s, b) = ((s', b'), e)"
  | (close) "ServiceSession_Close (s, b) = (s', b')" "e = None"
proof -
  have on: "b' = b \<and> sv_keeps s s'" if "sv_keeps s (fst r)" "(case r of (s, e) \<Rightarrow> ((s, b), e)) = ((s', b'), e)"
    for r :: "ServiceSession \<times> go_error option"
    using that by (auto split: prod.splits)
  have same: "b' = b \<and> sv_keeps s s'" if "((s, b), e0) = ((s', b'), e)" for e0 using that by simp
  note h = session_handlers_keep [OF sv_keeps_refl]
  show thesis
  proof (cases "\<exists>command name. DecodeCommand body = Inr command \<and> length command \<noteq> 0 \<and> command ! 0 = AmfString name")
    case False
    then have "b' = b \<and> sv_keeps s s'" using assms
      by (auto simp: handleCommand_def split: sum.splits if_splits Value.splits)
    then show thesis using quiet by blast
  next
    case True
    then obtain command name where c: "DecodeCommand body = Inr command" "length command \<noteq> 0" "command ! 0 = AmfString name" by blast
    show thesis
    proof (cases "name = ''publish'' \<or> name = ''deleteStream'' \<or> name = ''closeStream''")
      case True
      then show thesis using assms c publish close by (auto simp: handleCommand_def)
    next
      case False
      then have "b' = b \<and> sv_keeps s s'"
        using assms c on [OF HandleConnect_keeps, of command] on [OF h(3), of command] on [OF h(4), of command] on [OF h(5), of command] same
        by (simp add: handleCommand_def split: if_splits)
      then show thesis using quiet by blast
    qed
  qed
qed

text \<open>A session that has received a publish command and not yet read it.\<close>

definition example_body :: bytes where
  "example_body = encodeItems (publish_command ''cam'')"

definition example_waiting :: ServiceSession where
  "example_waiting = example_session\<lparr>sv_session := (sv_session example_session)\<lparr>
     ss_conn := example_conn\<lparr>cn_in := [3, 0, 0, 0, 0, 0, 26, 20, 1, 0, 0, 0] @ example_body\<rparr>\<rparr>\<rparr>"

lemma example_body_facts:
  "length example_body = 26" "DecodeCommand example_body = Inr (publish_command ''cam'')"
proof -
  show "length example_body = 26"
    by (simp add: example_body_def publish_command_def encodeString_def encodeNumber_def encodeNull_def put_be16_def put_be64_def)
  show "DecodeCommand example_body = Inr (publish_command ''cam'')"
    using DecodeCommand_loop_items [of "publish_command ''cam''" "[]"]
    by (simp add: publish_command_def DecodeCommand_def example_body_def)
qed

lemma example_read:
  obtains ss s1 where "Session_ReadChunk (sv_session example_waiting) = Inr (3, ss)"
    "after_chunk example_waiting 3 ss =
       (s1, Some \<lparr>rm_Body = example_body, rm_Type = 20, rm_Timestamp = 0, rm_StreamID = 1\<rparr>)"
    "ss_app (sv_session s1) = ''live''" "sv_auth s1 = None"
proof -
  note init = example_waiting_def example_session_def NewServiceSession_def NewSession_def example_conn_def session_defs
  have ne: "example_body \<noteq> []" using example_body_facts(1) by auto
  show thesis
    apply (rule that)
    apply (simp add: Session_ReadChunk_def init ne example_body_facts wire io_ReadFull_def ReadChunk_def NewChunkParser_def
        gomap_get_def gomap_set_def new_chunk_stream_def Let_def)
    apply (simp add: after_chunk_def Session_GetBytesReadForChunk_def ChunkParser_GetBytesReadForChunk_def
        gomap_get_def gomap_set_def Session_RecordBytesReceived_def Session_GetCompleteMessage_def GetCompleteMessage_def)
    by (simp_all add: init)
qed

lemma example_waiting_publisher: "sv_publisher example_waiting = None" "sv_auth example_waiting = None"
  by (simp_all add: example_waiting_def example_session_def NewServiceSession_def)

section \<open>Properties\<close>



text \<open>
  C7. A session that is not publishing cannot touch the bus without a key: when a turn of
  its message loop changes the registry or a stream or makes the session a publisher, then
  the chunk completed a publish command whose stream name carries a key that the configured
  key set allows.
\<close>

theorem bus_changes_only_with_key:
  assumes "sv_publisher s = None" "handle_chunk (s, b) = Inl (s', b') \<or> handle_chunk (s, b) = Inr (s', b')"
    and "b' \<noteq> b \<or> sv_publisher s' \<noteq> None"
  shows "\<exists>csID ss s1 m command name key.
    Session_ReadChunk (sv_session s) = Inr (csID, ss) \<and> after_chunk s csID ss = (s1, Some m) \<and>
    DecodeCommand (rm_Body m) = Inr command \<and> command ! 0 = AmfString ''publish'' \<and>
    ParseStreamName (extractStreamName command) = (name, key) \<and> name \<noteq> '''' \<and> KeySet_Allow (sv_auth s) key"
proof -
  have cmd: "\<exists>command name key. DecodeCommand body = Inr command \<and> command ! 0 = AmfString ''publish'' \<and>
      ParseStreamName (extractStreamName command) = (name, key) \<and> name \<noteq> '''' \<and> KeySet_Allow (sv_auth s1) key"
    if h: "handleCommand body sid (s1, b) = ((s', b'), e)" and none: "sv_publisher s1 = None" for body sid s1 e
    using h
  proof (cases rule: handleCommand_cases)
    case (publish command)
    from publish(3) show ?thesis
      by (cases rule: HandlePublish_cases) (use publish assms(3) none in \<open>auto simp: sv_keeps_def\<close>)
  qed (use assms(3) none in \<open>auto simp: sv_keeps_def ServiceSession_Close_def\<close>)
  have msg: "\<exists>command name key. DecodeCommand (rm_Body m) = Inr command \<and> command ! 0 = AmfString ''publish'' \<and>
      ParseStreamName (extractStreamName command) = (name, key) \<and> name \<noteq> '''' \<and> KeySet_Allow (sv_auth s1) key"
    if h: "handle_message m (s1, b) = ((s', b'), e)" and none: "sv_publisher s1 = None" for m s1 e
    using h assms(3) none cmd [OF _ none]
    by (auto simp: handle_message_def HandleMediaMessage_def split: if_splits sum.splits)
  show ?thesis
  proof (cases rule: handle_chunk_cases [of s b])
    case (failed csID ss s1 m st e)
    then show ?thesis using assms(1,2) msg [of m s1 "Some e"] after_chunk_keeps [OF failed(2)] by auto
  next
    case (handled csID ss s1 m st)
    then show ?thesis using assms(1,2) msg [of m s1 None] after_chunk_keeps [OF handled(2)] by auto
  next
    case (partial csID ss s1)
    then show ?thesis using assms after_chunk_keeps [OF partial(2)] by auto
  qed (use assms in auto)
qed

theorem bus_changes_only_with_key_witness:
  "\<exists>key. ParseStreamName (extractStreamName (publish_command ''cam'')) = (''cam'', key) \<and>
     KeySet_Allow (sv_auth example_waiting) key"
proof -
  obtain ss s1 where rd: "Session_ReadChunk (sv_session example_waiting) = Inr (3, ss)"
    "after_chunk example_waiting 3 ss =
       (s1, Some \<lparr>rm_Body = example_body, rm_Type = 20, rm_Timestamp = 0, rm_StreamID = 1\<rparr>)"
    "ss_app (sv_session s1) = ''live''" "sv_auth s1 = None" by (rule example_read)
  have nm: "extractStreamName (publish_command ''cam'') = ''cam''" "ParseStreamName ''cam'' = (''cam'', '''')"
    by (simp_all add: publish_command_def extractStreamName_def ParseStreamName_def IndexByte_def)
  obtain b1 p fresh where gc: "Registry_GetOrCreate example_key NewRegistry = (b1, p, fresh)" by (metis surj_pair)
  then have b1: "p = 0" "bus_heap b1 = [NewStream example_key]"
    by (auto simp: Registry_GetOrCreate_def NewRegistry_def Let_def gomap_set_def gomap_get_def)
  have free: "\<not> Stream_HasPublisher (stream_at b1 p)"
    by (simp add: stream_at_def b1 Stream_HasPublisher_def NewStream_rep)
  obtain s' b' e where h: "HandlePublish (publish_command ''cam'') 1 (s1, NewRegistry) = ((s', b'), e)" "sv_publisher s' \<noteq> None"
    using HandlePublish_free [of "publish_command ''cam''" "''cam''" "''''" s1 NewRegistry b1 p fresh 1] free gc
    by (auto simp: nm rd(3,4) KeySet_Allow_def NewStreamKey_def)
  have "handleCommand example_body 1 (s1, NewRegistry) = ((s', b'), e)"
    using h(1) by (simp add: handleCommand_def example_body_facts) (simp add: publish_command_def)
  then have "handle_chunk (example_waiting, NewRegistry) = Inl (s', b') \<or> handle_chunk (example_waiting, NewRegistry) = Inr (s', b')"
    by (cases e) (simp_all add: handle_chunk_after rd handle_message_def)
  from bus_changes_only_with_key [OF _ this disjI2 [OF h(2)]] show ?thesis
    using rd(1,2) by (auto simp: example_waiting_publisher nm example_body_facts)
qed

text \<open>
  Media of a publishing session goes to its stream and nowhere else: an audio, video or
  data message extends the history of the session's stream by exactly one frame with the
  message's timestamp and bytes (for data without the \<open>@setDataFrame\<close> prefix), and leaves
  the session and every other stream as they were.
\<close>

theorem media_extends_history:
  assumes "svc_inv (s, b)" "sv_publisher s = Some p" "is_media m"
    and "stream_rep (stream_at b (pb_stream p)) h" "length h + 1 < 2 ^ 64"
  shows "\<exists>b'. handle_message m (s, b) = ((s, b'), None) \<and>
    stream_rep (stream_at b' (pb_stream p)) (h @ [frame_of m]) \<and>
    (\<forall>q. q \<noteq> pb_stream p \<longrightarrow> stream_at b' q = stream_at b q)"
proof -
  have lt: "pb_stream p < length (bus_heap b)" using assms(1,2) by (simp add: svc_inv_def)
  have eta: "\<lparr>mm_Type = mm_Type f, mm_Timestamp = mm_Timestamp f, mm_Payload = mm_Payload f, mm_IsInit = mm_IsInit f\<rparr> = f"
    for f :: "bytes MediaMessage" by (cases f) simp
  show ?thesis
    using publish_frame_rep [OF assms(4,5), where t = "mm_Type (frame_of m)" and ts = "mm_Timestamp (frame_of m)" and
        p = "mm_Payload (frame_of m)" and isInit = "mm_IsInit (frame_of m)"]
      lt by (simp add: handle_message_media [OF assms(3,2)] with_stream_heap eta)
qed

theorem media_extends_history_witness:
  "\<exists>s b b'. handle_message \<lparr>rm_Body = [0x17, 1], rm_Type = 9, rm_Timestamp = 40, rm_StreamID = 1\<rparr> (s, b) = ((s, b'), None) \<and>
     stream_rep (stream_at b' 0) [\<lparr>mm_Type = 1, mm_Timestamp = 40, mm_Payload = [0x17, 1], mm_IsInit = False\<rparr>]"
proof -
  let ?m = "\<lparr>rm_Body = [0x17, 1], rm_Type = 9, rm_Timestamp = 40, rm_StreamID = 1\<rparr> :: RtmpMessage"
  obtain s b p where s: "sv_publisher s = Some p" "pb_stream p = 0" "svc_inv (s, b)"
    "stream_at b 0 = (NewStream example_key)\<lparr>st_publisher := Some 1\<rparr>" using example_publish by blast
  have "stream_rep (stream_at b (pb_stream p)) []"
    using NewStream_rep(1) [of example_key] unfolding s(2,4) by (subst stream_rep_cong [of _ "NewStream example_key"]) auto
  from media_extends_history [OF s(3,1) _ this, of ?m] show ?thesis
    by (auto simp: is_media_def frame_of_def isAVCSequenceHeader_def s(2))
qed

text \<open>
  Metadata: the \<open>@setDataFrame\<close> string that RTMP puts in front is cut off, and any
  other leading AMF0 string is left where it is.
\<close>

theorem stripSetDataFrame_spec:
  assumes "length s < 2 ^ 16"
  shows "stripSetDataFrame (Encode (AmfString s) @ rest) =
    (if s = ''@setDataFrame'' then rest else Encode (AmfString s) @ rest)"
  using strip_prefix [OF assms] by simp

theorem stripSetDataFrame_spec_witness:
  "stripSetDataFrame (Encode (AmfString ''@setDataFrame'') @ Encode (AmfString ''onMetaData'')) = Encode (AmfString ''onMetaData'')"
  using stripSetDataFrame_spec [of "''@setDataFrame''" "Encode (AmfString ''onMetaData'')"] by simp

text \<open>
  A publish command on a stream that has a publisher is refused: it returns an error
  (which ends the connection), the bus is unchanged and the session does not become that
  stream's publisher.
\<close>

lemma second_publisher_refused:
  assumes "HandlePublish command sid (s, b) = ((s', b'), e)"
    and "ParseStreamName (extractStreamName command) = (name, key)"
    and "Registry_Get (NewStreamKey (ss_app (sv_session s)) name) b = Some p" "Stream_HasPublisher (stream_at b p)"
  shows "e \<noteq> None \<and> b' = b \<and> sv_publisher s' = sv_publisher s"
  using assms(1)
proof (cases rule: HandlePublish_cases)
  case (taken name' key' p' fresh)
  then show ?thesis using assms(2,3) by (auto simp: Registry_GetOrCreate_def Registry_Get_def)
next
  case (publishing name' key' b1 p' fresh)
  then show ?thesis using assms(2-4) by (auto simp: Registry_GetOrCreate_def Registry_Get_def)
qed (auto simp: sv_keeps_def)

lemma second_publisher_refused_witness:
  "\<exists>s b s' b' e. HandlePublish (publish_command ''cam'') 1 (s, b) = ((s', b'), e) \<and> e \<noteq> None \<and> b' = b"
proof -
  obtain s1 b1 p1 where s1: "stream_at b1 0 = (NewStream example_key)\<lparr>st_publisher := Some 1\<rparr>"
    "ss_app (sv_session s1) = ''live''" "bus_streams b1 = [(example_key, 0)]" "sv_publisher s1 = Some p1" "svc_inv (s1, b1)"
    using example_publish by blast
  obtain s' b' e where h: "HandlePublish (publish_command ''cam'') 1 (s1, b1) = ((s', b'), e)" by (metis surj_pair)
  have "ParseStreamName (extractStreamName (publish_command ''cam'')) = (''cam'', '''')"
    by (simp add: publish_command_def extractStreamName_def ParseStreamName_def IndexByte_def)
  moreover have "Registry_Get (NewStreamKey (ss_app (sv_session s1)) ''cam'') b1 = Some 0"
    by (simp add: s1 NewStreamKey_def Registry_Get_def gomap_get_def)
  moreover have "Stream_HasPublisher (stream_at b1 0)" by (simp add: s1 Stream_HasPublisher_def)
  ultimately have "e \<noteq> None \<and> b' = b1" using second_publisher_refused [OF h, of "''cam''"] by simp
  with h show ?thesis by (intro exI conjI) auto
qed

text \<open>
  A session that is publishing and sends a second publish command for another free
  stream forgets the first one: after the session is closed the first stream still has its
  publisher attached, so nobody can ever publish on it again.
\<close>

theorem second_publish_leaks_first:
  assumes "svc_inv (s, b)" "sv_publisher s = Some p" "Stream_HasPublisher (stream_at b (pb_stream p))"
    and "HandlePublish command sid (s, b) = ((s', b'), e)" "sv_publisher s' \<noteq> sv_publisher s"
  shows "Stream_HasPublisher (stream_at (snd (ServiceSession_Close (s', b'))) (pb_stream p))"
  using assms(4)
proof (cases rule: HandlePublish_cases)
  case (publishing name key b1 q fresh)
  have lt: "pb_stream p < length (bus_heap b)" "bus_inv b" using assms(1,2) by (auto simp: svc_inv_def)
  have same: "stream_at b1 (pb_stream p) = stream_at b (pb_stream p)"
    using bus_inv_GetOrCreate(6) [OF lt(2) publishing(4) lt(1)] by simp
  then have ne: "pb_stream p \<noteq> q" using publishing(5) assms(3) by auto
  have "svc_inv (s', b')" by (rule HandlePublish_inv [OF assms(1,4)])
  from Close_releases(3) [OF this publishing(7), of "pb_stream p"] ne assms(3) same show ?thesis
    by (simp add: NewPublisher_def publishing(6) with_stream_heap)
qed (use assms in \<open>auto simp: sv_keeps_def\<close>)

theorem second_publish_leaks_first_witness:
  "\<exists>s' b'. sv_publisher s' \<noteq> None \<and> Stream_HasPublisher (stream_at (snd (ServiceSession_Close (s', b'))) 0)"
proof -
  obtain s b p where s: "sv_publisher s = Some p" "pb_stream p = 0" "svc_inv (s, b)" "pb_streamKey p = example_key"
    "stream_at b 0 = (NewStream example_key)\<lparr>st_publisher := Some 1\<rparr>" "ss_app (sv_session s) = ''live''"
    "bus_streams b = [(example_key, 0)]" "sv_auth s = None"
    using example_publish by blast
  let ?cmd = "publish_command ''two''" and ?key = "NewStreamKey ''live'' ''two''"
  have nm: "extractStreamName ?cmd = ''two''" "ParseStreamName ''two'' = (''two'', '''')"
    by (simp_all add: publish_command_def extractStreamName_def ParseStreamName_def IndexByte_def)
  obtain b1 q fresh where gc: "Registry_GetOrCreate ?key b = (b1, q, fresh)" by (metis surj_pair)
  have bi: "bus_inv b" using s(3) by (simp add: svc_inv_def)
  note g = bus_inv_GetOrCreate [OF bi gc]
  have "Registry_Get ?key b = None" by (simp add: Registry_Get_def s(7) gomap_get_def NewStreamKey_def)
  then have new: "stream_at b1 q = NewStream ?key" using g(5,7) by simp
  then have "\<not> Stream_HasPublisher (stream_at b1 q)" by (simp add: Stream_HasPublisher_def NewStream_rep)
  then obtain s' e where h: "HandlePublish ?cmd 1 (s, b) = ((s', with_stream q (\<lambda>s. fst (Stream_AttachPublisher 1 s)) b1), e)"
    "sv_publisher s' = Some (NewPublisher q (with_stream q (\<lambda>s. fst (Stream_AttachPublisher 1 s)) b1) 1)"
    using HandlePublish_free [of ?cmd "''two''" "''''" s b b1 q fresh 1] gc by (auto simp: nm s KeySet_Allow_def)
  have "st_key (stream_at b1 q) \<noteq> example_key" using g(3) by (simp add: NewStreamKey_def)
  then have "sv_publisher s' \<noteq> sv_publisher s"
    using h(2) s(1,4) g(2) by (auto simp: NewPublisher_def with_stream_heap)
  from second_publish_leaks_first [OF s(3,1) _ h(1) this] h(2) show ?thesis
    unfolding s(2) by (auto simp: s(5) Stream_HasPublisher_def)
qed

text \<open>
  \<open>deleteStream\<close> closes the session, and the end of the connection closes it again. The
  session still remembers its stream, so a publisher that attached to it in between is
  detached although it is still sending.
\<close>

theorem second_close_detaches_successor:
  assumes "svc_inv (s, b)" "sv_publisher s = Some p"
    and "ServiceSession_Close (s, b) = (s1, b1)"
    and "b2 = with_stream (pb_stream p) (\<lambda>s. fst (Stream_AttachPublisher pid s)) b1"
  shows "Stream_HasPublisher (stream_at b2 (pb_stream p)) \<and>
    \<not> Stream_HasPublisher (stream_at (snd (ServiceSession_Close (s1, b2))) (pb_stream p))"
proof -
  have inv1: "svc_inv (s1, b1)" using Close_inv [OF assms(1)] assms(3) by simp
  have s1: "sv_publisher s1 = Some p" using Close_effect(3) [of s b] assms(2,3) by simp
  have lt: "pb_stream p < length (bus_heap b1)" using inv1 s1 by (simp add: svc_inv_def)
  have "svc_inv (s1, b2)" using inv1 s1 lt
    by (auto simp: svc_inv_def assms(4) with_stream_heap with_stream_key intro!: bus_inv_with_stream)
  from Close_releases(1) [OF this s1] lt show ?thesis
    by (simp add: assms(4) with_stream_heap Stream_HasPublisher_def Stream_AttachPublisher_def)
qed

theorem second_close_detaches_successor_witness:
  "\<exists>s1 b2. Stream_HasPublisher (stream_at b2 0) \<and>
     \<not> Stream_HasPublisher (stream_at (snd (ServiceSession_Close (s1, b2))) 0)"
proof -
  obtain s b p where s: "sv_publisher s = Some p" "pb_stream p = 0" "svc_inv (s, b)" using example_publish by blast
  obtain s1 b1 where "ServiceSession_Close (s, b) = (s1, b1)" by (metis surj_pair)
  from second_close_detaches_successor [OF s(3,1) this refl] show ?thesis unfolding s(2) by blast
qed

end
