(* ===== verification/RTMP_Connection.thy ===== *)
theory RTMP_Connection
  imports RTMP_Service
begin

text \<open>
  RTMP connections from their first byte to their last (\<open>internal/svc/rtmp/server.go\<close>): how the
  message loop takes apart what a client of this protocol sends, from the handshake over the
  commands to the media, and what that does to the bus.
\<close>

section \<open>A session whose peer listens\<close>

text \<open>As long as writes succeed no handler fails, and none touches what was read.\<close>

definition sv_ready :: "ServiceSession \<Rightarrow> bool" where
  "sv_ready s \<longleftrightarrow> session_inv (sv_session s) \<and> conn_open (ss_conn (sv_session s))"

definition sv_alike :: "ServiceSession \<Rightarrow> ServiceSession \<Rightarrow> bool" where
  "sv_alike s s' \<longleftrightarrow> sv_ready s' \<and> sv_in s' = sv_in s \<and> ss_parser (sv_session s') = ss_parser (sv_session s) \<and>
     sv_publisher s' = sv_publisher s \<and> sv_auth s' = sv_auth s"

lemma sv_alike_trans: "sv_alike s s' \<Longrightarrow> sv_alike s' s'' \<Longrightarrow> sv_alike s s''"
  by (simp add: sv_alike_def)

lemma sv_alike_refl: "sv_ready s \<Longrightarrow> sv_alike s s"
  by (simp add: sv_alike_def)

lemma WriteMessage_open:
  assumes "session_inv s" "conn_open (ss_conn s)" "csID_ok csID" "body \<noteq> []" "length body < 2 ^ 24"
  shows "\<exists>c. Session_WriteMessage csID mt ts sid body s = (s\<lparr>ss_conn := c\<rparr>, None) \<and> conn_open c \<and> cn_in c = cn_in (ss_conn s)"
proof -
  let ?m = "\<lparr>rm_Body = body, rm_Type = mt, rm_Timestamp = ts, rm_StreamID = sid\<rparr>"
  have "WriteChunk csID mt ts sid body (ss_writeChunkSize s) (ss_conn s) =
      Some ((ss_conn s)\<lparr>cn_out := cn_out (ss_conn s) @ chunk_tail csID ?m (unat (ss_writeChunkSize s)) 0\<rparr>, None)"
    using WriteChunk_open [of csID ?m "ss_writeChunkSize s" "ss_conn s"] assms by (simp add: msg_wire_ok_def session_inv_def)
  then show ?thesis using assms(2) by (auto simp: Session_WriteMessage_def conn_open_def)
qed

lemma sv_write_ready:
  assumes "sv_ready s" "csID_ok csID" "body \<noteq> []" "length body < 2 ^ 24"
  obtains s' where "sv_write csID mt ts sid body s = (s', None)" "sv_alike s s'" "ss_app (sv_session s') = ss_app (sv_session s)"
proof -
  obtain c where c: "Session_WriteMessage csID mt ts sid body (sv_session s) = ((sv_session s)\<lparr>ss_conn := c\<rparr>, None)"
    "conn_open c" "cn_in c = cn_in (ss_conn (sv_session s))"
    using WriteMessage_open [of "sv_session s" csID body mt ts sid] assms by (auto simp: sv_ready_def)
  then have "sv_write csID mt ts sid body s = (s\<lparr>sv_session := (sv_session s)\<lparr>ss_conn := c\<rparr>\<rparr>, None)"
    by (simp add: sv_write_def)
  then show thesis by (rule that) (use assms(1) c in \<open>auto simp: sv_alike_def sv_ready_def sv_in_def session_inv_def\<close>)
qed

text \<open>The answers to commands are small.\<close>

lemma length_encodeString: "length (encodeString t) = 3 + length t"
  by (simp add: encodeString_def)

lemmas answer_size = length_encodeString encodeNumber_def encodeNull_def

lemma csID_ok_small: "csID_ok 2" "csID_ok 3" "csID_ok 5"
  by (simp_all add: csID_ok_def word_le_nat_alt word_less_nat_alt)

lemma sendConnectResult_ready:
  assumes "sv_ready s"
  obtains s' where "sendConnectResult v enc s = (s', None)" "sv_alike s s'" "ss_app (sv_session s') = ss_app (sv_session s)"
proof -
  have sz: "length (encodeItems [AmfString ''_result'', AmfNumber (toFloat64 v),
      AmfObject [(''fmsVer'', AmfString ''FMS/3,0,1,123''), (''capabilities'', AmfNumber (float64_of_u32 31))],
      AmfObject [(''level'', AmfString ''status''), (''code'', AmfString ''NetConnection.Connect.Success''),
        (''description'', AmfString ''Connection succeeded.''), (''objectEncoding'', AmfNumber enc)]]) < 2 ^ 24"
    by (simp add: answer_size)
  show thesis
    by (rule sv_write_ready [OF assms csID_ok_small(2) _ sz, of MsgCommandAMF0 0 0])
      (auto simp: sendConnectResult_def EncodeCommand_def Let_def encodeString_def intro: that)
qed

lemma result_ready:
  assumes "sv_ready s" "length rest < 100" "2 \<le> length command"
  obtains s' where "sv_write 3 MsgCommandAMF0 0 0 (encodeItems [AmfString ''_result'', AmfNumber n, AmfNull] @ rest) s = (s', None)"
    "sv_alike s s'" "ss_app (sv_session s') = ss_app (sv_session s)"
proof -
  have "length (encodeItems [AmfString ''_result'', AmfNumber n, AmfNull] @ rest) < 2 ^ 24"
    using assms(2) by (simp add: answer_size)
  from sv_write_ready [OF assms(1) csID_ok_small(2) _ this] that show thesis
    by (metis append_is_Nil_conv encodeItems.simps(2) Encode.simps(3) encodeString_def list.distinct(1))
qed

lemma onStatus_ready:
  assumes "sv_ready s" "length l < 1000" "length c < 1000" "length d < 1000"
  obtains s' where "sendOnStatus sid l c d s = (s', None)" "sv_alike s s'" "ss_app (sv_session s') = ss_app (sv_session s)"
proof -
  have sz: "length (encodeItems [AmfString ''onStatus'', AmfNumber 0, AmfNull,
      AmfObject [(''level'', AmfString l), (''code'', AmfString c), (''description'', AmfString d)]]) < 2 ^ 24"
    using assms(2-4) by (simp add: answer_size)
  show thesis
    by (rule sv_write_ready [OF assms(1) csID_ok_small(3) _ sz, of MsgCommandAMF0 0 sid])
      (auto simp: sendOnStatus_def EncodeCommand_def Let_def encodeString_def intro: that)
qed

text \<open>The application a connect command names.\<close>

definition connect_app :: "Value list \<Rightarrow> string" where
  "connect_app command =
     (case (if length command \<ge> 3 \<and> command ! 2 \<noteq> AmfNull then toObject (command ! 2) else None) of
        None \<Rightarrow> ''live''
      | Some obj \<Rightarrow> (case gomap_get obj ''app'' of Some (AmfString a) \<Rightarrow> a | _ \<Rightarrow> ''live''))"

lemma sv_set_ready:
  "sv_ready s \<Longrightarrow> sv_alike s (s\<lparr>sv_session := Session_SetApp a (sv_session s)\<rparr>)"
  "sv_ready s \<Longrightarrow> sv_alike s (s\<lparr>sv_session := Session_SetAckSize n (sv_session s)\<rparr>)"
  "sv_ready s \<Longrightarrow> sv_alike s (s\<lparr>sv_session := Session_SetWriteChunkSize 4096 (sv_session s)\<rparr>)"
  "sv_ready s \<Longrightarrow> sv_alike s (s\<lparr>sv_nextStreamID := i\<rparr>)"
  by (auto simp: sv_alike_def sv_ready_def sv_in_def session_defs session_inv_def word_le_nat_alt)

lemma control_sizes:
  "CreateWindowAckSize n \<noteq> []" "length (CreateWindowAckSize n) < 2 ^ 24"
  "CreateSetPeerBandwidth n t \<noteq> []" "length (CreateSetPeerBandwidth n t) < 2 ^ 24"
  "CreateSetChunkSize n \<noteq> []" "length (CreateSetChunkSize n) < 2 ^ 24"
  "CreateStreamBegin n \<noteq> []" "length (CreateStreamBegin n) < 2 ^ 24"
  by (simp_all add: CreateWindowAckSize_def CreateSetPeerBandwidth_def CreateSetChunkSize_def CreateStreamBegin_def put_be32_def)

lemma HandleConnect_ready:
  assumes "sv_ready s" "2 \<le> length command"
  obtains s' where "HandleConnect command s = (s', None)" "sv_alike s s'" "ss_app (sv_session s') = connect_app command"
proof -
  define s0 where "s0 = s\<lparr>sv_session := Session_SetApp (connect_app command) (sv_session s)\<rparr>"
  have s0: "sv_alike s s0" "ss_app (sv_session s0) = connect_app command"
    using sv_set_ready(1) [OF assms(1)] by (simp_all add: s0_def session_defs)
  note rd = sv_alike_def [THEN iffD1, THEN conjunct1]
  note w = sv_write_ready [OF _ csID_ok_small(1)]
  obtain s1 where s1: "sv_write 2 MsgWinAckSize 0 0 (CreateWindowAckSize 5000000) s0 = (s1, None)" "sv_alike s0 s1"
    "ss_app (sv_session s1) = connect_app command"
    using w [OF rd [OF s0(1)] control_sizes(1,2), of MsgWinAckSize 0 0] s0(2) by metis
  define s2 where "s2 = s1\<lparr>sv_session := Session_SetAckSize 5000000 (sv_session s1)\<rparr>"
  have s2: "sv_alike s1 s2" "ss_app (sv_session s2) = connect_app command"
    using sv_set_ready(2) [OF rd [OF s1(2)]] s1(3) by (simp_all add: s2_def session_defs)
  obtain s3 where s3: "sv_write 2 MsgSetPeerBandwidth 0 0 (CreateSetPeerBandwidth 5000000 2) s2 = (s3, None)" "sv_alike s2 s3"
    "ss_app (sv_session s3) = connect_app command"
    using w [OF rd [OF s2(1)] control_sizes(3,4), of MsgSetPeerBandwidth 0 0] s2(2) by metis
  obtain s4 where s4: "sv_write 2 MsgSetChunkSize 0 0 (CreateSetChunkSize 4096) s3 = (s4, None)" "sv_alike s3 s4"
    "ss_app (sv_session s4) = connect_app command"
    using w [OF rd [OF s3(2)] control_sizes(5,6), of MsgSetChunkSize 0 0] s3(3) by metis
  define s5 where "s5 = s4\<lparr>sv_session := Session_SetWriteChunkSize 4096 (sv_session s4)\<rparr>"
  have s5: "sv_alike s4 s5" "ss_app (sv_session s5) = connect_app command"
    using sv_set_ready(3) [OF rd [OF s4(2)]] s4(3) by (simp_all add: s5_def session_defs)
  let ?enc = "case (if length command \<ge> 3 \<and> command ! 2 \<noteq> AmfNull then toObject (command ! 2) else None) of
      None \<Rightarrow> 0 | Some obj \<Rightarrow> (case gomap_get obj ''objectEncoding'' of Some (AmfNumber n) \<Rightarrow> n | _ \<Rightarrow> 0)"
  obtain s6 where s6: "sendConnectResult (command ! 1) ?enc s5 = (s6, None)" "sv_alike s5 s6"
    "ss_app (sv_session s6) = connect_app command"
    using sendConnectResult_ready [OF rd [OF s5(1)], of "command ! 1" ?enc] s5(2) by metis
  have eq: "HandleConnect command s = (s6, None)"
    using assms(2) s1(1) s3(1) s4(1) s6(1)
    by (simp add: HandleConnect_def Let_def sv_try_def s0_def [symmetric] connect_app_def [symmetric] s2_def [symmetric] s5_def [symmetric]
        del: not_less)
  have "sv_alike s s6" by (meson sv_alike_trans s0(1) s1(2) s2(1) s3(2) s4(2) s5(1) s6(2))
  with eq s6(3) show thesis using that by blast
qed

section \<open>What a client sends\<close>

text \<open>
  A client cuts its messages with its current chunk size, which it changes after announcing
  a new one.
\<close>

definition next_size :: "u32 \<Rightarrow> RtmpMessage \<Rightarrow> u32" where
  "next_size sz m =
     (if rm_Type m = MsgSetChunkSize
      then (case ParseSetChunkSize (rm_Body m) of Inl _ \<Rightarrow> sz | Inr n \<Rightarrow> n) else sz)"

fun client_wire :: "u32 \<Rightarrow> (u32 \<times> RtmpMessage) list \<Rightarrow> bytes" where
  "client_wire sz [] = []"
| "client_wire sz ((csID, m) # ms) = chunk_tail csID m (unat sz) 0 @ client_wire (next_size sz m) ms"

text \<open>
  A chunk size of 0 cannot carry anything, and extended timestamps are only read back from
  messages of a single chunk (theorem \<open>extended_timestamp_unreadable\<close>).
\<close>

fun client_ok :: "u32 \<Rightarrow> (u32 \<times> RtmpMessage) list \<Rightarrow> bool" where
  "client_ok sz [] \<longleftrightarrow> True"
| "client_ok sz ((csID, m) # ms) \<longleftrightarrow>
     0 < unat sz \<and> msg_wire_ok csID m \<and> (rm_Timestamp m < 0xFFFFFF \<or> length (rm_Body m) \<le> unat sz) \<and>
     client_ok (next_size sz m) ms"

text \<open>Messages of a list that keeps the chunk size are what the chunk writer writes.\<close>

lemma write_messages_wire:
  assumes "client_ok sz ms" "\<forall>(csID, m) \<in> set ms. rm_Type m \<noteq> MsgSetChunkSize" "sz \<le> MaxChunkSize" "conn_open c"
  shows "write_messages sz ms c = Some (c\<lparr>cn_out := cn_out c @ client_wire sz ms\<rparr>, None)"
  using assms(1,2,4)
proof (induction ms arbitrary: c)
  case (Cons x ms)
  obtain csID m where x: "x = (csID, m)" by (cases x)
  have "next_size sz m = sz" using Cons.prems(2) by (simp add: x next_size_def)
  moreover have "conn_open (c\<lparr>cn_out := cn_out c @ chunk_tail csID m (unat sz) 0\<rparr>)" using Cons.prems(3) by (simp add: conn_open_def)
  ultimately show ?case using Cons WriteChunk_open [of csID m sz c] assms(3) by (simp add: x)
qed simp

section \<open>The loop, message by message\<close>

lemma with_stream_twice: "with_stream p f (with_stream p g b) = with_stream p (f \<circ> g) b"
  by (cases "p < length (bus_heap b)") (simp_all add: with_stream_def stream_at_def list_update_beyond)

text \<open>Counting bytes and sending acknowledgements leaves the parser and the input alone.\<close>

lemma RecordBytesReceived_parser:
  "ss_parser (fst (Session_RecordBytesReceived n ss)) = ss_parser ss"
  "cn_closed (ss_conn (fst (Session_RecordBytesReceived n ss))) = cn_closed (ss_conn ss)"
  by (auto simp: Session_RecordBytesReceived_def Session_SendACK_def Session_WriteMessage_def Let_def
      split: prod.splits option.splits dest!: WriteChunk_in)

lemma after_chunk_parser:
  assumes "after_chunk s csID ss = (s1, m)"
  shows "GetCompleteMessage csID (ss_parser ss) = (ss_parser (sv_session s1), m)"
    "cn_closed (ss_conn (sv_session s1)) = cn_closed (ss_conn ss)"
  using assms RecordBytesReceived_parser [of "Session_GetBytesReadForChunk csID ss" ss]
  by (auto simp: after_chunk_def Let_def Session_GetCompleteMessage_def split: prod.splits if_splits)

lemma RecordBytesReceived_open:
  assumes "session_inv s" "unat n < 2 ^ 24" "conn_open (ss_conn s)"
  shows "conn_open (ss_conn (fst (Session_RecordBytesReceived n s)))" "ss_app (fst (Session_RecordBytesReceived n s)) = ss_app s"
proof -
  let ?s1 = "s\<lparr>ss_inAckSize := ss_inAckSize s + n\<rparr>"
  define s2 where "s2 = (if ss_inAckSize ?s1 \<ge> 0xf0000000 then ?s1\<lparr>ss_inAckSize := 0, ss_inLastAck := 0\<rparr> else ?s1)"
  have s2: "ss_conn s2 = ss_conn s" "ss_app s2 = ss_app s" "ss_writeChunkSize s2 = ss_writeChunkSize s" by (simp_all add: s2_def)
  let ?m = "\<lparr>rm_Body = put_be32 (ss_inAckSize s2), rm_Type = MsgAck, rm_Timestamp = 0, rm_StreamID = 0\<rparr>"
  have "msg_wire_ok 2 ?m" using csID_ok_small(1) by (simp add: msg_wire_ok_def put_be32_def)
  then have "WriteChunk 2 MsgAck 0 0 (put_be32 (ss_inAckSize s2)) (ss_writeChunkSize s) (ss_conn s) =
      Some ((ss_conn s)\<lparr>cn_out := cn_out (ss_conn s) @ chunk_tail 2 ?m (unat (ss_writeChunkSize s)) 0\<rparr>, None)"
    using WriteChunk_open [of 2 ?m "ss_writeChunkSize s" "ss_conn s"] assms(1,3) by (simp add: session_inv_def)
  then have "Session_SendACK (ss_inAckSize s2) s2 =
      (s2\<lparr>ss_conn := (ss_conn s)\<lparr>cn_out := cn_out (ss_conn s) @ chunk_tail 2 ?m (unat (ss_writeChunkSize s)) 0\<rparr>\<rparr>, None)"
    by (simp add: Session_SendACK_def Session_WriteMessage_def s2)
  then show "conn_open (ss_conn (fst (Session_RecordBytesReceived n s)))" "ss_app (fst (Session_RecordBytesReceived n s)) = ss_app s"
    using assms(3) s2 unfolding Session_RecordBytesReceived_def Let_def s2_def [symmetric] by (auto simp: conn_open_def)
qed

lemma after_chunk_ready:
  assumes "sv_ready s" "Session_ReadChunk (sv_session s) = Inr (csID, ss)" "after_chunk s csID ss = (s1, m)"
  shows "sv_ready s1" "ss_app (sv_session s1) = ss_app (sv_session s)"
proof -
  have inv: "session_inv (sv_session s)" using assms(1) by (simp add: sv_ready_def)
  note rd = ReadChunk_session_inv [OF inv assms(2)]
  let ?n = "Session_GetBytesReadForChunk csID ss"
  define ss1 where "ss1 = (if ?n > 0 then fst (Session_RecordBytesReceived ?n ss) else ss)"
  have open1: "conn_open (ss_conn ss)" "ss_app ss = ss_app (sv_session s)"
    using assms(1,2) by (auto simp: sv_ready_def Session_ReadChunk_def bind_result_Inr_iff conn_open_def split: if_splits)
  have ss1: "session_inv ss1" "conn_open (ss_conn ss1)" "ss_app ss1 = ss_app ss"
    using rd(1,3) open1 RecordBytesReceived_open [OF rd(1,3) open1(1)] by (auto simp: ss1_def RecordBytesReceived_inv)
  have s1: "s1 = s\<lparr>sv_session := fst (Session_GetCompleteMessage csID ss1)\<rparr>"
    using assms(3) by (auto simp: after_chunk_def Let_def ss1_def [symmetric] split: prod.splits)
  show "sv_ready s1" using ss1 GetCompleteMessage_inv [OF ss1(1), of csID] by (simp add: s1 sv_ready_def GetCompleteMessage_in)
  show "ss_app (sv_session s1) = ss_app (sv_session s)"
    using ss1(3) open1(2) by (simp add: s1 Session_GetCompleteMessage_def split: prod.splits)
qed

text \<open>The loop runs on to the message that the parser completes first.\<close>

definition handle_rest :: "RtmpMessage \<Rightarrow> ServiceSession \<times> Bus \<Rightarrow> ServiceSession \<times> Bus" where
  "handle_rest m st = (case handle_message m st of (st', Some e) \<Rightarrow> st' | (st', None) \<Rightarrow> handle_loop st')"

lemma loop_reads_message:
  assumes "read_message (ss_parser (sv_session s)) (sv_in s) = Inr (csID, m, p', r')" "\<not> cn_closed (ss_conn (sv_session s))"
  shows "\<exists>s1. handle_loop (s, b) = handle_rest m (s1, b) \<and> sv_publisher s1 = sv_publisher s \<and> sv_auth s1 = sv_auth s \<and>
    ss_parser (sv_session s1) = p' \<and> sv_in s1 = r' \<and> \<not> cn_closed (ss_conn (sv_session s1)) \<and>
    (sv_ready s \<longrightarrow> sv_ready s1 \<and> ss_app (sv_session s1) = ss_app (sv_session s))"
  using assms
proof (induction "length (sv_in s)" arbitrary: s rule: less_induct)
  case less
  obtain i p1 r1 where rd: "ReadChunk (ss_parser (sv_session s)) (sv_in s) = Inr (i, p1, r1)"
    using less.prems(1) by (subst (asm) read_message.simps) (auto split: sum.splits)
  define ss where "ss = (sv_session s)\<lparr>ss_parser := p1, ss_conn := (ss_conn (sv_session s))\<lparr>cn_in := r1\<rparr>\<rparr>"
  have read: "Session_ReadChunk (sv_session s) = Inr (i, ss)"
    using rd less.prems(2) by (simp add: Session_ReadChunk_def ss_def sv_in_def)
  obtain s1 x where a: "after_chunk s i ss = (s1, x)" by fastforce
  note keeps = after_chunk_keeps [OF a] and parser = after_chunk_parser [OF a] and ready = after_chunk_ready [OF _ read a]
  have s1: "sv_in s1 = r1" "\<not> cn_closed (ss_conn (sv_session s1))" "GetCompleteMessage i p1 = (ss_parser (sv_session s1), x)"
    using keeps(1) parser less.prems(2) by (simp_all add: ss_def)
  have loop: "handle_loop (s, b) = (case x of None \<Rightarrow> handle_loop (s1, b) | Some m \<Rightarrow> handle_rest m (s1, b))"
    by (subst handle_loop.simps) (simp add: handle_chunk_after read a handle_rest_def split: option.splits prod.splits)
  show ?case
  proof (cases x)
    case None
    have "read_message (ss_parser (sv_session s1)) (sv_in s1) = Inr (csID, m, p', r')"
      using less.prems(1) rd s1(1,3) None by (subst (asm) read_message.simps) simp
    from less.hyps [OF _ this s1(2)] ReadChunk_length [OF rd] keeps(2,3) ready show ?thesis
      by (fastforce simp: loop None s1(1))
  next
    case (Some m1)
    have "read_message (ss_parser (sv_session s)) (sv_in s) = Inr (i, m1, ss_parser (sv_session s1), r1)"
      using rd s1(3) Some by (subst read_message.simps) simp
    then have "m1 = m" "p' = ss_parser (sv_session s1)" "r' = r1" using less.prems(1) by simp_all
    then show ?thesis using Some loop keeps(2,3) s1 ready by auto
  qed
qed

text \<open>\<open>awaits s sz ms\<close>: the client of \<open>s\<close>, whose chunk size both sides know, has sent \<open>ms\<close>.\<close>

definition awaits :: "ServiceSession \<Rightarrow> u32 \<Rightarrow> (u32 \<times> RtmpMessage) list \<Rightarrow> bool" where
  "awaits s sz ms \<longleftrightarrow> parser_inv (ss_parser (sv_session s)) \<and> cp_chunkSize (ss_parser (sv_session s)) = sz \<and>
     \<not> cn_closed (ss_conn (sv_session s)) \<and> client_ok sz ms \<and> sv_in s = client_wire sz ms"

lemma loop_takes_message:
  assumes "awaits s sz ((csID, m) # ms)"
  obtains s1 where "handle_loop (s, b) = handle_rest m (s1, b)" "sv_publisher s1 = sv_publisher s" "sv_auth s1 = sv_auth s"
    "sv_ready s \<longrightarrow> sv_ready s1 \<and> ss_app (sv_session s1) = ss_app (sv_session s)"
    "next_size sz m = sz \<Longrightarrow> awaits s1 sz ms" "parser_inv (ss_parser (sv_session s1))" "cp_chunkSize (ss_parser (sv_session s1)) = sz"
    "\<not> cn_closed (ss_conn (sv_session s1))" "client_ok (next_size sz m) ms" "sv_in s1 = client_wire (next_size sz m) ms"
proof -
  let ?r = "client_wire (next_size sz m) ms"
  have a: "parser_inv (ss_parser (sv_session s))" "cp_chunkSize (ss_parser (sv_session s)) = sz" "\<not> cn_closed (ss_conn (sv_session s))"
    "0 < unat sz" "msg_wire_ok csID m" "rm_Timestamp m < 0xFFFFFF \<or> length (rm_Body m) \<le> unat sz" "client_ok (next_size sz m) ms"
    "sv_in s = chunk_tail csID m (unat sz) 0 @ ?r"
    using assms by (auto simp: awaits_def)
  have "0 < length (rm_Body m)" using a(5) by (simp add: msg_wire_ok_def)
  then obtain p' where rd: "read_message (ss_parser (sv_session s)) (sv_in s) = Inr (csID, m, p', ?r)"
    and p': "parser_after csID (ss_parser (sv_session s)) p'"
    using read_message_tail [OF a(5,1), of 0 ?r] a(2,4,6,8) by auto
  then have "parser_inv p'" "cp_chunkSize p' = sz" using a(2) by (auto simp: parser_after_def)
  moreover obtain s1 where "handle_loop (s, b) = handle_rest m (s1, b)" "sv_publisher s1 = sv_publisher s" "sv_auth s1 = sv_auth s"
    "ss_parser (sv_session s1) = p'" "sv_in s1 = ?r" "\<not> cn_closed (ss_conn (sv_session s1))"
    "sv_ready s \<longrightarrow> sv_ready s1 \<and> ss_app (sv_session s1) = ss_app (sv_session s)"
    using loop_reads_message [OF rd a(3), of b] by blast
  ultimately show thesis using a(7) by (intro that [of s1]) (simp_all add: awaits_def)
qed

lemma loop_at_end: "sv_in s = [] \<Longrightarrow> handle_loop (s, b) = (s, b)"
  by (subst handle_loop.simps)
    (simp add: handle_chunk_def Session_ReadChunk_def sv_in_def ReadChunk_def read_basic_header_def read_u8_def io_ReadFull_def)

section \<open>Media\<close>

lemma loop_takes_media:
  assumes "sv_publisher s = Some p" "awaits s sz ms" "list_all (is_media \<circ> snd) ms"
  shows "\<exists>s'. handle_loop (s, b) = (s', with_stream (pb_stream p) (publish_frames (map (frame_of \<circ> snd) ms)) b) \<and> sv_publisher s' = Some p"
  using assms
proof (induction ms arbitrary: s b)
  case Nil
  then show ?case by (simp add: loop_at_end awaits_def publish_frames_def with_stream_def stream_at_def)
next
  case (Cons x ms)
  obtain csID m where x: "x = (csID, m)" by (cases x)
  have m: "is_media m" "next_size sz m = sz" using Cons.prems(3) by (auto simp: x is_media_def next_size_def)
  obtain s1 where s1: "handle_loop (s, b) = handle_rest m (s1, b)" "sv_publisher s1 = Some p" "awaits s1 sz ms"
    using loop_takes_message [OF Cons.prems(2) [unfolded x], of b] m(2) Cons.prems(1) by metis
  let ?b = "with_stream (pb_stream p) (publish_frame (mm_Type (frame_of m)) (mm_Timestamp (frame_of m))
      (mm_IsInit (frame_of m)) (mm_Payload (frame_of m))) b"
  have "\<exists>s'. handle_loop (s1, ?b) = (s', with_stream (pb_stream p) (publish_frames (map (frame_of \<circ> snd) ms)) ?b) \<and> sv_publisher s' = Some p"
    by (rule Cons.IH) (use Cons.prems(3) s1 in auto)
  then show ?case
    by (simp add: s1(1) handle_rest_def handle_message_media [OF m(1) s1(2)] x with_stream_twice publish_frames_def comp_def)
qed

section \<open>Setting up\<close>

text \<open>
  What clients send before they publish: chunk size, window size and user control messages,
  and the commands \<open>connect\<close>, \<open>releaseStream\<close>, \<open>FCPublish\<close> and \<open>createStream\<close>.
\<close>

definition setup_command :: "Value list \<Rightarrow> bool" where
  "setup_command command \<longleftrightarrow> 2 \<le> length command \<and>
     command ! 0 \<in> {AmfString ''connect'', AmfString ''releaseStream'', AmfString ''FCPublish'', AmfString ''createStream''}"

definition setup_message :: "RtmpMessage \<Rightarrow> bool" where
  "setup_message m \<longleftrightarrow> rm_Type m = MsgSetChunkSize \<or> rm_Type m = MsgWinAckSize \<or> rm_Type m = MsgUserCtrl \<or>
     rm_Type m = MsgCommandAMF0 \<and>
       (case DecodeCommand (rm_Body m) of Inl _ \<Rightarrow> False | Inr command \<Rightarrow> setup_command command)"

text \<open>The application that is set after a message.\<close>

definition setup_app :: "string \<Rightarrow> RtmpMessage \<Rightarrow> string" where
  "setup_app app m =
     (if rm_Type m = MsgCommandAMF0
      then (case DecodeCommand (rm_Body m) of
              Inl _ \<Rightarrow> app
            | Inr command \<Rightarrow> if command ! 0 = AmfString ''connect'' then connect_app command else app)
      else app)"

lemma simple_commands_ready:
  assumes "sv_ready s" "2 \<le> length command" "handler \<in> {HandleReleaseStream, HandleFCPublish, HandleCreateStream}"
  obtains s' where "handler command s = (s', None)" "sv_alike s s'" "ss_app (sv_session s') = ss_app (sv_session s)"
proof (cases "handler = HandleCreateStream")
  case True
  define s0 where "s0 = s\<lparr>sv_nextStreamID := sv_nextStreamID s + 1\<rparr>"
  have s0: "sv_alike s s0" "sv_ready s0" "ss_app (sv_session s0) = ss_app (sv_session s)"
    using sv_set_ready(4) [OF assms(1)] by (auto simp: s0_def sv_alike_def)
  have small: "length (Encode (AmfNumber (float64_of_u32 (sv_nextStreamID s)))) < 100" by (simp add: answer_size)
  obtain s' where "sv_write 3 MsgCommandAMF0 0 0 (encodeItems [AmfString ''_result'', AmfNumber (toFloat64 (command ! 1)), AmfNull] @
      Encode (AmfNumber (float64_of_u32 (sv_nextStreamID s)))) s0 = (s', None)" "sv_alike s0 s'"
    "ss_app (sv_session s') = ss_app (sv_session s)"
    using result_ready [OF s0(2) small assms(2), of "toFloat64 (command ! 1)"] s0(3) by metis
  then show thesis using that True assms(2) sv_alike_trans [OF s0(1)]
    by (simp add: HandleCreateStream_def EncodeCommand_def Let_def s0_def)
next
  case False
  have small: "length [] < 100" by simp
  obtain s' where "sv_write 3 MsgCommandAMF0 0 0 (encodeItems [AmfString ''_result'', AmfNumber (toFloat64 (command ! 1)), AmfNull] @ []) s = (s', None)"
    "sv_alike s s'" "ss_app (sv_session s') = ss_app (sv_session s)"
    using result_ready [OF assms(1) small assms(2), of "toFloat64 (command ! 1)"] by metis
  then show thesis using that False assms(2,3)
    by (auto simp: HandleReleaseStream_def HandleFCPublish_def EncodeCommand_def)
qed

lemma setup_command_ready:
  assumes "sv_ready s" "DecodeCommand body = Inr command" "setup_command command"
  obtains s' where "handleCommand body sid (s, b) = ((s', b), None)" "sv_alike s s'"
    "ss_app (sv_session s') = (if command ! 0 = AmfString ''connect'' then connect_app command else ss_app (sv_session s))"
proof -
  have len: "2 \<le> length command" "length command \<noteq> 0" using assms(3) by (auto simp: setup_command_def)
  show thesis
  proof (cases "command ! 0 = AmfString ''connect''")
    case True
    obtain s' where "HandleConnect command s = (s', None)" "sv_alike s s'" "ss_app (sv_session s') = connect_app command"
      by (rule HandleConnect_ready [OF assms(1) len(1)])
    then show thesis using that [of s'] True assms(2) len by (simp add: handleCommand_def)
  next
    case False
    define handler where "handler = (if command ! 0 = AmfString ''releaseStream'' then HandleReleaseStream
      else if command ! 0 = AmfString ''FCPublish'' then HandleFCPublish else HandleCreateStream)"
    obtain s' where "handler command s = (s', None)" "sv_alike s s'" "ss_app (sv_session s') = ss_app (sv_session s)"
      by (rule simple_commands_ready [OF assms(1) len(1), of handler]) (auto simp: handler_def)
    then show thesis using that [of s'] False assms(2,3) len
      by (auto simp: handleCommand_def setup_command_def handler_def split: if_splits)
  qed
qed

lemma setup_message_ready:
  assumes "sv_ready s" "setup_message m" "cp_chunkSize (ss_parser (sv_session s)) = sz"
  obtains s' where "handle_message m (s, b) = ((s', b), None)" "sv_ready s'" "sv_in s' = sv_in s"
    "cp_chunkSize (ss_parser (sv_session s')) = next_size sz m" "sv_publisher s' = sv_publisher s" "sv_auth s' = sv_auth s"
    "ss_app (sv_session s') = setup_app (ss_app (sv_session s)) m"
proof (cases "rm_Type m = MsgCommandAMF0")
  case True
  then obtain command where c: "DecodeCommand (rm_Body m) = Inr command" "setup_command command"
    using assms(2) by (auto simp: setup_message_def split: sum.splits)
  from setup_command_ready [OF assms(1) c, of "rm_StreamID m" b] obtain s' where
    "handleCommand (rm_Body m) (rm_StreamID m) (s, b) = ((s', b), None)" "sv_alike s s'"
    "ss_app (sv_session s') = (if command ! 0 = AmfString ''connect'' then connect_app command else ss_app (sv_session s))" by metis
  then show thesis using True c assms(3) by (intro that [of s']) (auto simp: handle_message_def sv_alike_def next_size_def setup_app_def)
next
  case False
  show thesis
  proof (cases "rm_Type m = MsgSetChunkSize")
    case chunk: True
    have "sv_ready (s\<lparr>sv_session := Session_SetReadChunkSize n (sv_session s)\<rparr>)" if "ParseSetChunkSize (rm_Body m) = Inr n" for n
      using assms(1) parser_inv_SetChunkSize [OF _ that] by (auto simp: sv_ready_def session_inv_def session_defs)
    then show thesis using that chunk assms(1,3)
      by (cases "ParseSetChunkSize (rm_Body m)")
        (auto simp: handle_message_def next_size_def setup_app_def sv_in_def session_defs ChunkParser_SetChunkSize_def)
  next
    case other: False
    then have "rm_Type m = MsgWinAckSize \<or> rm_Type m = MsgUserCtrl" using assms(2) False by (auto simp: setup_message_def)
    then show thesis using assms(1,3) by (intro that [of s]) (auto simp: handle_message_def next_size_def setup_app_def)
  qed
qed

lemma loop_takes_setup:
  assumes "sv_ready s" "sv_publisher s = None" "awaits s sz (pre @ ms)" "list_all (setup_message \<circ> snd) pre"
  shows "\<exists>s'. handle_loop (s, b) = handle_loop (s', b) \<and> sv_ready s' \<and> sv_publisher s' = None \<and> sv_auth s' = sv_auth s \<and>
    awaits s' (foldl next_size sz (map snd pre)) ms \<and> ss_app (sv_session s') = foldl setup_app (ss_app (sv_session s)) (map snd pre)"
  using assms
proof (induction pre arbitrary: s sz)
  case Nil
  then show ?case by auto
next
  case (Cons x pre)
  obtain csID m where x: "x = (csID, m)" by (cases x)
  have m: "setup_message m" using Cons.prems(4) by (simp add: x)
  obtain s1 where s1: "handle_loop (s, b) = handle_rest m (s1, b)" "sv_publisher s1 = None" "sv_auth s1 = sv_auth s"
    "sv_ready s1" "ss_app (sv_session s1) = ss_app (sv_session s)" "cp_chunkSize (ss_parser (sv_session s1)) = sz"
    "client_ok (next_size sz m) (pre @ ms)" "sv_in s1 = client_wire (next_size sz m) (pre @ ms)"
    using loop_takes_message [OF Cons.prems(3) [unfolded x append_Cons], of b] Cons.prems(1,2) by metis
  obtain s2 where s2: "handle_message m (s1, b) = ((s2, b), None)" "sv_ready s2" "sv_in s2 = sv_in s1"
    "cp_chunkSize (ss_parser (sv_session s2)) = next_size sz m" "sv_publisher s2 = sv_publisher s1" "sv_auth s2 = sv_auth s1"
    "ss_app (sv_session s2) = setup_app (ss_app (sv_session s1)) m"
    by (rule setup_message_ready [OF s1(4) m s1(6)])
  have "awaits s2 (next_size sz m) (pre @ ms)"
    using s2(2-4) s1(7,8) by (auto simp: awaits_def sv_ready_def session_inv_def conn_open_def)
  moreover have "handle_loop (s, b) = handle_loop (s2, b)" by (simp add: s1(1) handle_rest_def s2(1))
  ultimately show ?case using Cons.IH [of s2 "next_size sz m"] Cons.prems(4) s2 s1 by (simp add: x)
qed

section \<open>Publishing\<close>

lemma HandlePublish_ready:
  assumes "sv_ready s" "ParseStreamName (extractStreamName cmd) = (name, key)" "name \<noteq> ''''"
    and "KeySet_Allow (sv_auth s) key" "ss_app (sv_session s) \<noteq> ''''"
    and "Registry_GetOrCreate (NewStreamKey (ss_app (sv_session s)) name) b = (b1, p, fresh)"
    and "\<not> Stream_HasPublisher (stream_at b1 p)"
  defines "b2 \<equiv> with_stream p (\<lambda>s. fst (Stream_AttachPublisher 1 s)) b1"
  obtains s' where "HandlePublish cmd sid (s, b) = ((s', b2), None)" "sv_publisher s' = Some (NewPublisher p b2 1)"
    "sv_ready s'" "sv_in s' = sv_in s" "ss_parser (sv_session s') = ss_parser (sv_session s)"
proof -
  have raw: "extractStreamName cmd \<noteq> ''''"
    using assms(2,3) by (auto simp: ParseStreamName_def IndexByte_def)
  define stream where "stream = fst (Stream_AttachPublisher 1 (stream_at b1 p))"
  have att: "Stream_AttachPublisher 1 (stream_at b1 p) = (stream, True)"
    using assms(7) by (simp add: stream_def Stream_AttachPublisher_def Stream_HasPublisher_def)
  have b2: "with_stream p (\<lambda>_. stream) b1 = b2" by (simp add: with_stream_def b2_def stream_def)
  define s1 where "s1 = s\<lparr>sv_publisher := Some (NewPublisher p b2 1),
      sv_session := Session_SetState StatePublishing (Session_SetStreamName name (sv_session s))\<rparr>"
  have s1: "sv_ready s1" "sv_in s1 = sv_in s" "ss_parser (sv_session s1) = ss_parser (sv_session s)"
    using assms(1) by (auto simp: s1_def sv_ready_def session_inv_def sv_in_def session_defs)
  obtain s2 where s2: "sv_write 2 MsgUserCtrl 0 0 (CreateStreamBegin sid) s1 = (s2, None)" "sv_alike s1 s2"
    using sv_write_ready [OF s1(1) csID_ok_small(1) control_sizes(7,8), of MsgUserCtrl 0 0] by metis
  have "sv_ready s2" using s2(2) by (simp add: sv_alike_def)
  then obtain s3 where s3: "sendOnStatus sid ''status'' ''NetStream.Publish.Start'' ''Start publishing'' s2 = (s3, None)" "sv_alike s2 s3"
    by (rule onStatus_ready) auto
  have "HandlePublish cmd sid (s, b) = ((s3, b2), None)"
    using assms(2-6) raw att s2(1) s3(1)
    by (simp add: HandlePublish_def Session_GetApp_def Let_def b2 s1_def [symmetric])
  then show thesis using sv_alike_trans [OF s2(2) s3(2)] s1
    by (intro that [of s3]) (auto simp: sv_alike_def, simp add: s1_def)
qed

section \<open>Properties\<close>

lemma publish_takes_over:
  assumes "sv_ready s" "awaits s sz ((csID, pub) # ms)"
    and "rm_Type pub = MsgCommandAMF0" "DecodeCommand (rm_Body pub) = Inr command" "command \<noteq> []" "command ! 0 = AmfString ''publish''"
    and "ParseStreamName (extractStreamName command) = (name, key)" "name \<noteq> ''''" "KeySet_Allow (sv_auth s) key"
    and "ss_app (sv_session s) \<noteq> ''''" "Registry_GetOrCreate (NewStreamKey (ss_app (sv_session s)) name) b = (b1, p, fresh)"
    and "\<not> Stream_HasPublisher (stream_at b1 p)"
  defines "b2 \<equiv> with_stream p (\<lambda>s. fst (Stream_AttachPublisher 1 s)) b1"
  obtains s' where "handle_loop (s, b) = handle_loop (s', b2)" "sv_publisher s' = Some (NewPublisher p b2 1)" "awaits s' sz ms"
proof -
  have sz: "next_size sz pub = sz" by (simp add: next_size_def assms(3))
  obtain s1 where s1: "handle_loop (s, b) = handle_rest pub (s1, b)" "sv_auth s1 = sv_auth s" "sv_ready s1"
    "ss_app (sv_session s1) = ss_app (sv_session s)" "awaits s1 sz ms"
    using loop_takes_message [OF assms(2), of b] assms(1) sz by metis
  obtain s' where s': "HandlePublish command (rm_StreamID pub) (s1, b) = ((s', b2), None)" "sv_publisher s' = Some (NewPublisher p b2 1)"
    "sv_ready s'" "sv_in s' = sv_in s1" "ss_parser (sv_session s') = ss_parser (sv_session s1)"
    using HandlePublish_ready [OF s1(3) assms(7,8), of b b1 p fresh "rm_StreamID pub"] assms(9-12) s1(2,4) unfolding b2_def by metis
  have "handle_message pub (s1, b) = ((s', b2), None)"
    using s'(1) assms(3-6) by (simp add: handle_message_def handleCommand_def)
  then show thesis using s1(1,5) s'(2-5)
    by (intro that [of s']) (auto simp: handle_rest_def awaits_def sv_ready_def conn_open_def)
qed

text \<open>
  C2. A whole publishing connection: a client opens with the RTMP handshake, sends any
  sequence of set-up messages (chunk sizes, connect, createStream and the like), publishes
  with an allowed key under a name that no one publishes on, and then sends media, every
  message cut with the chunk size it last announced. When its bytes have been handled, and
  before the session is closed, the stream of that application and name is registered, has
  a publisher, and has exactly the client's media appended to its history, in order and with
  their bytes; no other stream was touched.
\<close>

theorem connection_publishes:
  assumes "bus_inv b" "conn_open conn" "hs_random env = Some rnd" "length rnd = 1528"
    and wire: "cn_in conn = RTMPVersion # c1 @ c2 @ client_wire DefaultChunkSize (pre @ (csID, pub) # media)"
      "length c1 = 1536" "length c2 = 1536" "client_ok DefaultChunkSize (pre @ (csID, pub) # media)"
    and pre: "list_all (setup_message \<circ> snd) pre" "app = foldl setup_app '''' (map snd pre)" "app \<noteq> ''''"
    and pub: "rm_Type pub = MsgCommandAMF0" "DecodeCommand (rm_Body pub) = Inr command" "command \<noteq> []" "command ! 0 = AmfString ''publish''"
      "ParseStreamName (extractStreamName command) = (name, key)" "name \<noteq> ''''" "KeySet_Allow auth key"
    and media: "list_all (is_media \<circ> snd) media"
    and stream: "Registry_GetOrCreate (NewStreamKey app name) b = (b1, p, fresh)" "\<not> Stream_HasPublisher (stream_at b1 p)"
      "stream_rep (stream_at b1 p) h" "length h + length media < 2 ^ 64"
  shows "\<exists>s2 b2. handleConnection env auth conn b = ServiceSession_Close (s2, b2) \<and>
    Registry_Get (NewStreamKey app name) b2 = Some p \<and> Stream_HasPublisher (stream_at b2 p) \<and>
    stream_rep (stream_at b2 p) (h @ map (frame_of \<circ> snd) media) \<and> (\<forall>q. q \<noteq> p \<longrightarrow> stream_at b2 q = stream_at b1 q)"
proof -
  let ?ms = "pre @ (csID, pub) # media"
  define c where "c = conn\<lparr>cn_in := client_wire DefaultChunkSize ?ms,
      cn_out := cn_out conn @ RTMPVersion # hello (hs_time1 env) rnd @ echo (hs_time2 env) c1\<rparr>"
  have hs: "PerformServerHandshake env conn = (c, None)"
    using server_handshake [OF assms(2) wire(1-3) assms(3,4)] by (simp add: c_def)
  define s where "s = (NewServiceSession conn auth)\<lparr>sv_session := (NewSession conn)\<lparr>ss_conn := c, ss_state := StateConnected\<rparr>\<rparr>"
  have run: "handleConnection env auth conn b = ServiceSession_Close (handle_loop (s, b))"
    using hs by (simp add: handleConnection_def NewServiceSession_def Session_PerformHandshake_def NewSession_def s_def)
  have s: "sv_ready s" "sv_publisher s = None" "sv_auth s = auth" "ss_app (sv_session s) = ''''"
    using assms(2) session_inv_New [of conn] by (auto simp: s_def sv_ready_def session_inv_def conn_open_def c_def NewServiceSession_def NewSession_def)
  have "awaits s DefaultChunkSize ?ms"
    using wire(4) assms(2) by (simp add: awaits_def s_def NewSession_def parser_inv_new NewChunkParser_def sv_in_def c_def conn_open_def parser_inv_def)
  from loop_takes_setup [OF s(1,2) this pre(1), of b] obtain s1 sz where
    s1: "handle_loop (s, b) = handle_loop (s1, b)" "sv_ready s1" "sv_auth s1 = auth" "awaits s1 sz ((csID, pub) # media)"
      "ss_app (sv_session s1) = app"
    using s(3,4) pre(2) by auto
  define b2 where "b2 = with_stream p (\<lambda>s. fst (Stream_AttachPublisher 1 s)) b1"
  obtain s2 where s2: "handle_loop (s1, b) = handle_loop (s2, b2)" "sv_publisher s2 = Some (NewPublisher p b2 1)" "awaits s2 sz media"
    using publish_takes_over [OF s1(2,4) pub(1-6), of b b1 p fresh] pub(7) pre(3) stream(1,2) s1(3,5) unfolding b2_def by metis
  let ?b3 = "with_stream p (publish_frames (map (frame_of \<circ> snd) media)) b2"
  obtain s3 where s3: "handle_loop (s2, b2) = (s3, ?b3)"
    using loop_takes_media [OF s2(2,3) media, of b2] by (auto simp: NewPublisher_def)
  note g = bus_inv_GetOrCreate [OF assms(1) stream(1)]
  have rep: "stream_rep (stream_at b2 p) h" using stream(3) g(2) by (simp add: b2_def with_stream_heap)
  have at: "stream_at ?b3 p = publish_frames (map (frame_of \<circ> snd) media) (stream_at b2 p)"
    "Stream_HasPublisher (stream_at b2 p)"
    using g(2) stream(2) by (simp_all add: b2_def with_stream_heap Stream_HasPublisher_def Stream_AttachPublisher_def)
  have others: "\<And>q. q \<noteq> p \<Longrightarrow> stream_at ?b3 q = stream_at b1 q" "Registry_Get k ?b3 = Registry_Get k b1" for k
    by (simp_all add: b2_def with_stream_heap)
  have "st_publisher (publish_frames fs st) = st_publisher st" for fs st
    by (induction fs arbitrary: st) (simp_all add: publish_frames_def publish_frame_frame)
  then show ?thesis using publish_frames_rep(1) [OF rep, of "map (frame_of \<circ> snd) media"] stream(4) g(4) at(2)
    by (intro exI [of _ s3] exI [of _ ?b3]) (auto simp: run s1(1) s2(1) s3 at Stream_HasPublisher_def others)
qed

definition example_video :: RtmpMessage where
  "example_video = \<lparr>rm_Body = [0x17, 1], rm_Type = 9, rm_Timestamp = 40, rm_StreamID = 1\<rparr>"

definition example_connect :: "Value list" where
  "example_connect = [AmfString ''connect'', AmfNumber 0x3FF0000000000000, AmfObject [(''app'', AmfString ''live'')]]"

definition command_message :: "u32 \<Rightarrow> Value list \<Rightarrow> RtmpMessage" where
  "command_message sid command = \<lparr>rm_Body = encodeItems command, rm_Type = MsgCommandAMF0, rm_Timestamp = 0, rm_StreamID = sid\<rparr>"

lemma example_client:
  "client_ok DefaultChunkSize ([(3, command_message 0 example_connect)] @ (3, command_message 1 (publish_command ''cam'')) # [(4, example_video)])"
  by (simp add: command_message_def example_connect_def publish_command_def example_video_def next_size_def msg_wire_ok_def csID_ok_def
      word_le_nat_alt word_less_nat_alt encodeString_def encodeNumber_def encodeNull_def)

lemma example_decodes:
  "DecodeCommand (encodeItems example_connect) = Inr example_connect"
  "DecodeCommand (encodeItems (publish_command ''cam'')) = Inr (publish_command ''cam'')"
proof -
  have "list_all amf_ok example_connect" by (simp add: example_connect_def)
  then show "DecodeCommand (encodeItems example_connect) = Inr example_connect"
    using DecodeCommand_loop_items [of example_connect "[]"] by (simp add: DecodeCommand_def)
  show "DecodeCommand (encodeItems (publish_command ''cam'')) = Inr (publish_command ''cam'')"
    using example_body_facts(2) by (simp add: example_body_def)
qed

theorem connection_publishes_witness:
  "\<exists>s2 b2. handleConnection \<lparr>hs_time1 = 1, hs_time2 = 2, hs_random = Some (replicate 1528 5)\<rparr> None
      (example_conn\<lparr>cn_in := RTMPVersion # replicate 1536 0 @ replicate 1536 0 @ client_wire DefaultChunkSize
        ([(3, command_message 0 example_connect)] @ (3, command_message 1 (publish_command ''cam'')) # [(4, example_video)])\<rparr>)
      NewRegistry = ServiceSession_Close (s2, b2) \<and> stream_rep (stream_at b2 0) [frame_of example_video]"
proof -
  let ?env = "\<lparr>hs_time1 = 1, hs_time2 = 2, hs_random = Some (replicate 1528 5)\<rparr> :: hs_env"
  let ?conn = "example_conn\<lparr>cn_in := RTMPVersion # replicate 1536 0 @ replicate 1536 0 @ client_wire DefaultChunkSize
        ([(3, command_message 0 example_connect)] @ (3, command_message 1 (publish_command ''cam'')) # [(4, example_video)])\<rparr>"
  have cmd: "list_all (setup_message \<circ> snd) [(3, command_message 0 example_connect)]"
    "''live'' = foldl setup_app '''' (map snd [(3::u32, command_message 0 example_connect)])"
    using example_decodes(1)
    by (auto simp: setup_message_def setup_command_def setup_app_def command_message_def example_connect_def connect_app_def toObject_def gomap_get_def)
  have pub: "rm_Type (command_message 1 (publish_command ''cam'')) = MsgCommandAMF0"
    "DecodeCommand (rm_Body (command_message 1 (publish_command ''cam''))) = Inr (publish_command ''cam'')"
    "publish_command ''cam'' \<noteq> []" "publish_command ''cam'' ! 0 = AmfString ''publish''"
    "ParseStreamName (extractStreamName (publish_command ''cam'')) = (''cam'', '''')" "''cam'' \<noteq> ''''" "KeySet_Allow None ''''"
    using example_decodes(2)
    by (simp_all add: command_message_def publish_command_def extractStreamName_def ParseStreamName_def IndexByte_def KeySet_Allow_def)
  obtain b1 fresh where gc: "Registry_GetOrCreate (NewStreamKey ''live'' ''cam'') NewRegistry = (b1, 0, fresh)"
    by (simp add: Registry_GetOrCreate_def NewRegistry_def Let_def)
  have new: "stream_at b1 0 = NewStream (NewStreamKey ''live'' ''cam'')"
    using bus_inv_GetOrCreate(5,7) [OF bus_inv_New gc] by (simp add: Registry_Get_def NewRegistry_def)
  have free: "\<not> Stream_HasPublisher (stream_at b1 0)" "stream_rep (stream_at b1 0) []"
    using NewStream_rep(1) by (simp_all add: new Stream_HasPublisher_def NewStream_rep)
  obtain s2 b2 where "handleConnection ?env None ?conn NewRegistry = ServiceSession_Close (s2, b2)"
    "stream_rep (stream_at b2 0) ([] @ map (frame_of \<circ> snd) [(4::u32, example_video)])"
    using connection_publishes [OF bus_inv_New _ _ _ _ _ _ example_client cmd _ pub _ gc free, of ?conn ?env "replicate 1528 5" "replicate 1536 0" "replicate 1536 0"]
    by (auto simp: conn_open_def example_conn_def is_media_def example_video_def)
  then show ?thesis by auto
qed

end
