(* ===== verification/RTMP_Server.thy ===== *)
theory RTMP_Server
  imports RTMP_Connection
begin

text \<open>
  The RTMP server (\<open>Server\<close> of \<open>internal/svc/rtmp/server.go\<close>): its listener, the accept loop, and
  the connections that live side by side on one bus. Which connection makes the next turn is
  arbitrary; a turn, the publish command in it included, is one step.
\<close>

section \<open>Listener and accept loop\<close>

datatype Listener = NoListener | ListenerOpen | ListenerClosed

record RtmpServer =
  rs_listener :: Listener
  rs_auth :: "KeySet option"

definition RtmpNewServer :: "KeySet option \<Rightarrow> RtmpServer" where
  "RtmpNewServer auth = \<lparr>rs_listener = NoListener, rs_auth = auth\<rparr>"

text \<open>\<open>Some e\<close>: \<open>net.Listen\<close> failed with \<open>e\<close>; the listener field is nil then.\<close>

definition RtmpServer_Listen :: "go_error option \<Rightarrow> RtmpServer \<Rightarrow> RtmpServer \<times> go_error option" where
  "RtmpServer_Listen netListen s =
     (case netListen of
        Some err \<Rightarrow> (s\<lparr>rs_listener := NoListener\<rparr>, Some err)
      | None \<Rightarrow> (s\<lparr>rs_listener := ListenerOpen\<rparr>, None))"

text \<open>
  The accept loop over the successive results of \<open>listener.Accept\<close>: the connections a
  goroutine was started for, and the error it returned with (\<open>None\<close>: it is still waiting).
\<close>

fun RtmpServer_Accept :: "Conn result list \<Rightarrow> Conn list \<times> go_error option" where
  "RtmpServer_Accept [] = ([], None)"
| "RtmpServer_Accept (Inl err # rs) = ([], Some err)"
| "RtmpServer_Accept (Inr conn # rs) = (case RtmpServer_Accept rs of (conns, e) \<Rightarrow> (conn # conns, e))"

definition RtmpServer_Close :: "RtmpServer \<Rightarrow> RtmpServer" where
  "RtmpServer_Close s = (if rs_listener s \<noteq> NoListener then s\<lparr>rs_listener := ListenerClosed\<rparr> else s)"

section \<open>Connections side by side\<close>

record RtmpState =
  rt_server :: RtmpServer
  rt_sessions :: "ServiceSession list"
  rt_bus :: Bus

definition drop_nth :: "nat \<Rightarrow> 'a list \<Rightarrow> 'a list" where
  "drop_nth i xs = take i xs @ drop (Suc i) xs"

text \<open>
  A client that publishes and sends a second publish command, or one that is closed by
  \<open>deleteStream\<close> and then overtaken before its connection ends, breaks what is shown below
  (theorems \<open>second_publish_leaks_first\<close> and \<open>second_close_detaches_successor\<close>). The steps
  leave these two out: a turn keeps the publisher it has, and a turn that closes the session
  ends the connection at once.
\<close>

definition keeps_publisher :: "ServiceSession \<Rightarrow> ServiceSession \<Rightarrow> bool" where
  "keeps_publisher s s' \<longleftrightarrow> (sv_publisher s = None \<or> sv_publisher s' = sv_publisher s)"

inductive rtmp_step :: "RtmpState \<Rightarrow> RtmpState \<Rightarrow> bool" where
  rtmp_listen: "rtmp_step st (st\<lparr>rt_server := fst (RtmpServer_Listen e (rt_server st))\<rparr>)"
| rtmp_close: "rtmp_step st (st\<lparr>rt_server := RtmpServer_Close (rt_server st)\<rparr>)"
| rtmp_accept: "rs_listener (rt_server st) = ListenerOpen \<Longrightarrow>
    rtmp_step st (st\<lparr>rt_sessions := rt_sessions st @ [NewServiceSession conn (rs_auth (rt_server st))]\<rparr>)"
| rtmp_handshake: "i < length (rt_sessions st) \<Longrightarrow> s = rt_sessions st ! i \<Longrightarrow>
    Session_PerformHandshake env (sv_session s) = (ss, None) \<Longrightarrow>
    rtmp_step st (st\<lparr>rt_sessions := (rt_sessions st)[i := s\<lparr>sv_session := ss\<rparr>]\<rparr>)"
| rtmp_refused: "i < length (rt_sessions st) \<Longrightarrow> s = rt_sessions st ! i \<Longrightarrow>
    Session_PerformHandshake env (sv_session s) = (ss, Some e) \<Longrightarrow>
    rtmp_step st (st\<lparr>rt_sessions := drop_nth i (rt_sessions st),
      rt_bus := snd (ServiceSession_Close (s\<lparr>sv_session := ss\<rparr>, rt_bus st))\<rparr>)"
| rtmp_turn: "i < length (rt_sessions st) \<Longrightarrow> s = rt_sessions st ! i \<Longrightarrow>
    handle_chunk (s, rt_bus st) = Inr (s', b') \<Longrightarrow> keeps_publisher s s' \<Longrightarrow> ss_state (sv_session s') \<noteq> StateClosed \<Longrightarrow>
    rtmp_step st (st\<lparr>rt_sessions := (rt_sessions st)[i := s'], rt_bus := b'\<rparr>)"
| rtmp_end: "i < length (rt_sessions st) \<Longrightarrow> s = rt_sessions st ! i \<Longrightarrow>
    handle_chunk (s, rt_bus st) = Inl (s', b') \<or> handle_chunk (s, rt_bus st) = Inr (s', b') \<Longrightarrow> keeps_publisher s s' \<Longrightarrow>
    rtmp_step st (st\<lparr>rt_sessions := drop_nth i (rt_sessions st), rt_bus := snd (ServiceSession_Close (s', b'))\<rparr>)"
| rtmp_viewer_joins: "rtmp_step st (st\<lparr>rt_bus := with_stream p (\<lambda>x. fst (Stream_AttachSubscriber x)) (rt_bus st)\<rparr>)"
| rtmp_viewer_leaves: "rtmp_step st (st\<lparr>rt_bus := with_stream p (Stream_DetachSubscriber i) (rt_bus st)\<rparr>)"

section \<open>Who holds which stream\<close>

text \<open>The streams whose publisher slot is taken, and those the sessions publish on.\<close>

definition slots :: "Bus \<Rightarrow> nat set" where
  "slots b = {p. p < length (bus_heap b) \<and> Stream_HasPublisher (stream_at b p)}"

definition published :: "ServiceSession list \<Rightarrow> nat list" where
  "published ss = concat (map (\<lambda>s. case sv_publisher s of None \<Rightarrow> [] | Some p \<Rightarrow> [pb_stream p]) ss)"

text \<open>What sessions may do to each other's streams: nothing that changes keys or removes any.\<close>

definition grows :: "Bus \<Rightarrow> Bus \<Rightarrow> bool" where
  "grows b b' \<longleftrightarrow> bus_inv b' \<and>
     (\<forall>q < length (bus_heap b). q < length (bus_heap b') \<and> st_key (stream_at b' q) = st_key (stream_at b q))"

lemma grows_trans: "grows b b1 \<Longrightarrow> grows b1 b2 \<Longrightarrow> grows b b2"
  by (auto simp: grows_def)

lemma svc_inv_grows: "svc_inv (t, b) \<Longrightarrow> grows b b' \<Longrightarrow> svc_inv (t, b')"
  by (auto simp: svc_inv_def grows_def)

lemma with_stream_grows:
  assumes "bus_inv b" "\<And>x. st_key (f x) = st_key x"
  shows "grows b (with_stream p f b)"
  using bus_inv_with_stream [OF assms] assms(2) by (auto simp: grows_def with_stream_heap with_stream_key)

lemma with_stream_slots:
  assumes "\<And>x. st_publisher (f x) = st_publisher x"
  shows "slots (with_stream p f b) = slots b"
proof -
  have "Stream_HasPublisher (stream_at (with_stream p f b) q) = Stream_HasPublisher (stream_at b q)" if "q < length (bus_heap b)" for q
    using that assms by (cases "q = p") (simp_all add: with_stream_heap Stream_HasPublisher_def)
  then show ?thesis by (auto simp: slots_def with_stream_heap(1))
qed

lemma GetOrCreate_effect:
  assumes "bus_inv b" "Registry_GetOrCreate k b = (b', p, fresh)"
  shows "grows b b'" "slots b' = slots b"
proof -
  note g = bus_inv_GetOrCreate [OF assms]
  show "grows b b'" using g(1,6) by (auto simp: grows_def)
  have "q < length (bus_heap b) \<or> (fresh \<and> q = p)" if "q < length (bus_heap b')" for q
    using that assms(2) by (auto simp: Registry_GetOrCreate_def Let_def split: option.splits)
  moreover have "\<not> Stream_HasPublisher (stream_at b' p)" if "fresh"
    using g(7) [OF that] by (simp add: Stream_HasPublisher_def NewStream_rep)
  ultimately show "slots b' = slots b" using g(6) unfolding slots_def by (intro Collect_cong) metis
qed

lemma Close_slots:
  assumes "svc_inv (s, b)"
  shows "slots (snd (ServiceSession_Close (s, b))) = slots b - set (published [s])" "grows b (snd (ServiceSession_Close (s, b)))"
proof -
  have inv: "bus_inv b" using assms by (simp add: svc_inv_def)
  have b': "bus_inv (snd (ServiceSession_Close (s, b)))" using Close_inv [OF assms] by (simp add: svc_inv_def)
  show "slots (snd (ServiceSession_Close (s, b))) = slots b - set (published [s])"
  proof (cases "sv_publisher s")
    case (Some p)
    have "Stream_HasPublisher (stream_at (with_stream (pb_stream p) Stream_DetachPublisher b) q) \<longleftrightarrow>
        Stream_HasPublisher (stream_at b q) \<and> q \<noteq> pb_stream p" if "q < length (bus_heap b)" for q
      using that by (cases "q = pb_stream p") (simp_all add: with_stream_heap Stream_HasPublisher_def Stream_DetachPublisher_def)
    then show ?thesis using Some
      by (auto simp: slots_def published_def Close_effect(2) Remove_heap with_stream_heap(1))
  qed (simp add: Close_effect(1) published_def)
  show "grows b (snd (ServiceSession_Close (s, b)))"
  proof (cases "sv_publisher s")
    case (Some p)
    have "grows b (with_stream (pb_stream p) Stream_DetachPublisher b)" by (rule with_stream_grows [OF inv]) simp
    then show ?thesis using b' Some by (simp add: grows_def Close_effect(2) Remove_heap)
  next
    case None
    then show ?thesis using inv by (simp add: Close_effect(1) grows_def)
  qed
qed


section \<open>What a turn does\<close>

text \<open>A turn leaves the publisher slots alone, takes a free one for its session, or frees its own.\<close>

definition turn_effect :: "ServiceSession \<Rightarrow> Bus \<Rightarrow> ServiceSession \<Rightarrow> Bus \<Rightarrow> bool" where
  "turn_effect s b s' b' \<longleftrightarrow> grows b b' \<and> svc_inv (s', b') \<and> sv_auth s' = sv_auth s \<and>
     (sv_publisher s' = sv_publisher s \<and> slots b' = slots b \<or>
      (\<exists>q. sv_publisher s' = Some q \<and> pb_stream q \<notin> slots b \<and> slots b' = insert (pb_stream q) (slots b)) \<or>
      sv_publisher s' = sv_publisher s \<and> slots b' = slots b - set (published [s]) \<and> ss_state (sv_session s') = StateClosed)"

lemma grows_refl: "bus_inv b \<Longrightarrow> grows b b"
  by (simp add: grows_def)

lemma handleCommand_effect:
  assumes "svc_inv (s, b)" "handleCommand body sid (s, b) = ((s', b'), e)"
  shows "turn_effect s b s' b'"
proof -
  have bi: "bus_inv b" using assms(1) by (simp add: svc_inv_def)
  have inv': "svc_inv (s', b')" using handleCommand_inv(2) [OF assms(1), of body sid] assms(2) by simp
  from assms(2) show ?thesis
  proof (cases rule: handleCommand_cases)
    case quiet
    then show ?thesis using inv' grows_refl [OF bi] by (auto simp: turn_effect_def sv_keeps_def)
  next
    case close
    then show ?thesis using Close_slots [OF assms(1)] inv' Close_effect(3) [of s b]
      by (auto simp: turn_effect_def session_defs)
  next
    case (publish command)
    from publish(3) show ?thesis
    proof (cases rule: HandlePublish_cases)
      case refused
      then show ?thesis using inv' grows_refl [OF bi] by (auto simp: turn_effect_def sv_keeps_def)
    next
      case (taken name key p fresh)
      then show ?thesis using inv' GetOrCreate_effect [OF bi taken(4)] by (auto simp: turn_effect_def)
    next
      case (publishing name key b1 p fresh)
      note g = GetOrCreate_effect [OF bi publishing(4)] bus_inv_GetOrCreate(1,2) [OF bi publishing(4)]
      have free: "p \<notin> slots b" using g(2) publishing(5) by (auto simp: slots_def)
      have "slots b' = insert p (slots b1)"
        using g(4) publishing(5,6) unfolding slots_def
        by (auto simp: with_stream_def stream_at_def nth_list_update Stream_HasPublisher_def Stream_AttachPublisher_def split: if_splits)
      moreover have "grows b b'"
        unfolding publishing(6) by (rule grows_trans [OF g(1) with_stream_grows [OF g(3)]]) simp
      ultimately show ?thesis using inv' publishing(7,8) free g(2) by (auto simp: turn_effect_def NewPublisher_def)
    qed
  qed
qed


lemma handle_message_effect:
  assumes "svc_inv (s, b)" "handle_message m (s, b) = ((s', b'), e)"
  shows "turn_effect s b s' b'"
proof -
  have bi: "bus_inv b" using assms(1) by (simp add: svc_inv_def)
  have inv': "svc_inv (s', b')" using handle_message_inv(2) [OF assms(1), of m] assms(2) by simp
  have media: "grows b (HandleMediaMessage mt ts body s b)" "slots (HandleMediaMessage mt ts body s b) = slots b" for mt ts body
    using grows_refl [OF bi]
    by (auto simp: HandleMediaMessage_def PublishAudio_def PublishVideo_def PublishMetadata_def publish_frame_frame
        intro!: with_stream_grows [OF bi] split: option.splits,
      auto simp: publish_frame_frame with_stream_slots split: option.splits)
  show ?thesis using assms(2) inv' media grows_refl [OF bi] handleCommand_effect [OF assms(1), of "rm_Body m" "rm_StreamID m" s' b' e]
    by (auto simp: handle_message_def turn_effect_def split: if_splits sum.splits)
qed

lemma handle_chunk_effect:
  assumes "svc_inv (s, b)" "handle_chunk (s, b) = Inl (s', b') \<or> handle_chunk (s, b) = Inr (s', b')"
  shows "turn_effect s b s' b'"
proof -
  have bi: "bus_inv b" using assms(1) by (simp add: svc_inv_def)
  have inv': "svc_inv (s', b')" by (rule handle_chunk_inv [OF assms])
  have msg: "turn_effect s b s' b'" if "Session_ReadChunk (sv_session s) = Inr (csID, ss)" "after_chunk s csID ss = (s1, x)"
    "handle_message m (s1, b) = ((s', b'), e)" for csID ss s1 x m e
  proof -
    have "svc_inv (s1, b)" by (rule after_chunk_inv [OF assms(1) that(1,2)])
    from handle_message_effect [OF this that(3)] after_chunk_keeps(2,3) [OF that(2)] show ?thesis
      by (simp add: turn_effect_def published_def)
  qed
  show ?thesis
  proof (cases rule: handle_chunk_cases [of s b])
    case ended
    then show ?thesis using assms(2) inv' grows_refl [OF bi] by (auto simp: turn_effect_def)
  next
    case (partial csID ss s1)
    then show ?thesis using assms(2) inv' grows_refl [OF bi] after_chunk_keeps(2,3) [OF partial(2)] by (auto simp: turn_effect_def)
  next
    case (failed csID ss s1 m st e)
    then show ?thesis using assms(2) msg [OF failed(1,2)] by auto
  next
    case (handled csID ss s1 m st)
    then show ?thesis using assms(2) msg [OF handled(1,2)] by auto
  qed
qed

section \<open>The invariant of the server\<close>

definition rtmp_inv :: "RtmpState \<Rightarrow> bool" where
  "rtmp_inv st \<longleftrightarrow> bus_inv (rt_bus st) \<and>
     (\<forall>s \<in> set (rt_sessions st). svc_inv (s, rt_bus st) \<and> sv_auth s = rs_auth (rt_server st)) \<and>
     distinct (published (rt_sessions st)) \<and> set (published (rt_sessions st)) = slots (rt_bus st)"

lemma published_simps [simp]:
  "published [] = []"
  "published (s # ss) = (case sv_publisher s of None \<Rightarrow> [] | Some p \<Rightarrow> [pb_stream p]) @ published ss"
  "published (ss @ ts) = published ss @ published ts"
  by (simp_all add: published_def)

lemma split_nth: "i < length xs \<Longrightarrow> \<exists>us vs. xs = us @ xs ! i # vs \<and> drop_nth i xs = us @ vs \<and> (\<forall>y. xs[i := y] = us @ y # vs)"
  by (intro exI [of _ "take i xs"] exI [of _ "drop (Suc i) xs"]) (simp add: id_take_nth_drop drop_nth_def upd_conv_take_nth_drop)

lemma rtmp_inv_turn:
  assumes "rtmp_inv st" "rt_sessions st = us @ s # vs" "turn_effect s (rt_bus st) s' b'" "keeps_publisher s s'"
  shows "ss_state (sv_session s') \<noteq> StateClosed \<Longrightarrow> rtmp_inv (st\<lparr>rt_sessions := us @ s' # vs, rt_bus := b'\<rparr>)"
    and "rtmp_inv (st\<lparr>rt_sessions := us @ vs, rt_bus := snd (ServiceSession_Close (s', b'))\<rparr>)"
proof -
  have own: "sv_publisher s = Some p \<Longrightarrow> pb_stream p \<in> slots (rt_bus st)" for p
    using assms(1,2) by (auto simp: rtmp_inv_def)
  have inv': "svc_inv (s', b')" "grows (rt_bus st) b'" "sv_auth s' = sv_auth s" using assms(3) by (auto simp: turn_effect_def)
  note cl = Close_slots [OF inv'(1)]
  have others: "svc_inv (t, b')" "svc_inv (t, snd (ServiceSession_Close (s', b')))" if "t \<in> set us \<union> set vs" for t
    using assms(1,2) that svc_inv_grows [OF _ inv'(2)] svc_inv_grows [OF _ grows_trans [OF inv'(2) cl(2)]] by (auto simp: rtmp_inv_def)
  have bi: "bus_inv b'" "bus_inv (snd (ServiceSession_Close (s', b')))" using inv'(1) cl(2) by (auto simp: svc_inv_def grows_def)
  have pub: "distinct (published (us @ vs))" "set (published (us @ vs)) = slots (rt_bus st) - set (published [s])"
    "set (published [s]) \<subseteq> slots (rt_bus st)"
    using assms(1,2) by (auto simp: rtmp_inv_def split: option.splits)
  have fresh: "sv_publisher s = None" if "sv_publisher s' = Some q" "pb_stream q \<notin> slots (rt_bus st)" for q
    using own [of q] assms(4) that by (auto simp: keeps_publisher_def)
  have auth: "\<forall>t \<in> set us \<union> set vs. sv_auth t = rs_auth (rt_server st)" "sv_auth s' = rs_auth (rt_server st)"
    using assms(1,2) inv'(3) by (auto simp: rtmp_inv_def)
  show "rtmp_inv (st\<lparr>rt_sessions := us @ s' # vs, rt_bus := b'\<rparr>)" if alive: "ss_state (sv_session s') \<noteq> StateClosed"
  proof -
    have "distinct (published (us @ s' # vs)) \<and> set (published (us @ s' # vs)) = slots b'"
      using assms(3) unfolding turn_effect_def
    proof (elim conjE disjE exE)
      fix q assume q: "sv_publisher s' = Some q" "pb_stream q \<notin> slots (rt_bus st)" "slots b' = insert (pb_stream q) (slots (rt_bus st))"
      have "set (published (us @ vs)) = slots (rt_bus st)" using pub(2) fresh [OF q(1,2)] by simp
      then show ?thesis using pub(1) q by auto
    next
      assume "sv_publisher s' = sv_publisher s" "slots b' = slots (rt_bus st)"
      then show ?thesis using assms(1,2) by (auto simp: rtmp_inv_def)
    qed (use alive in simp)
    then show ?thesis using bi(1) others(1) auth inv'(1) by (auto simp: rtmp_inv_def)
  qed
  have "set (published (us @ vs)) = slots b' - set (published [s'])"
    using assms(3) unfolding turn_effect_def
  proof (elim conjE disjE exE)
    fix q assume q: "sv_publisher s' = Some q" "pb_stream q \<notin> slots (rt_bus st)" "slots b' = insert (pb_stream q) (slots (rt_bus st))"
    then show ?thesis using pub(2) fresh [OF q(1,2)] by auto
  qed (use pub(2) in auto)
  then show "rtmp_inv (st\<lparr>rt_sessions := us @ vs, rt_bus := snd (ServiceSession_Close (s', b'))\<rparr>)"
    using pub(1) bi(2) others(2) auth cl(1) by (auto simp: rtmp_inv_def)
qed

lemma rtmp_inv_grows:
  assumes "rtmp_inv st" "grows (rt_bus st) b'" "slots b' = slots (rt_bus st)"
  shows "rtmp_inv (st\<lparr>rt_bus := b'\<rparr>)"
  using assms svc_inv_grows [OF _ assms(2)] by (auto simp: rtmp_inv_def grows_def)

lemma rtmp_inv_auth:
  assumes "rtmp_inv st" "rs_auth srv = rs_auth (rt_server st)"
  shows "rtmp_inv (st\<lparr>rt_server := srv\<rparr>)"
  using assms by (auto simp: rtmp_inv_def)

lemma handshake_keeps:
  assumes "Session_PerformHandshake env (sv_session s) = (ss, e)" "svc_inv (s, b)"
  shows "turn_effect s b (s\<lparr>sv_session := ss\<rparr>) b"
proof -
  have "session_inv ss" using assms
    by (auto simp: Session_PerformHandshake_def svc_inv_def session_inv_def split: if_splits prod.splits option.splits)
  then show ?thesis using assms(2) by (auto simp: turn_effect_def svc_inv_def grows_def)
qed

lemma handshake_state:
  "Session_PerformHandshake env s = (ss, None) \<Longrightarrow> ss_state ss \<noteq> StateClosed"
  by (auto simp: Session_PerformHandshake_def split: if_splits prod.splits option.splits)

definition rtmp_start :: "KeySet option \<Rightarrow> RtmpState \<Rightarrow> bool" where
  "rtmp_start auth st \<longleftrightarrow> st = \<lparr>rt_server = RtmpNewServer auth, rt_sessions = [], rt_bus = NewRegistry\<rparr>"

text \<open>Turns of the session at an index, which goes on or ends.\<close>

lemma rtmp_inv_session:
  assumes "rtmp_inv st" "i < length (rt_sessions st)" "turn_effect (rt_sessions st ! i) (rt_bus st) s' b'"
    and "keeps_publisher (rt_sessions st ! i) s'"
  shows "ss_state (sv_session s') \<noteq> StateClosed \<Longrightarrow> rtmp_inv (st\<lparr>rt_sessions := (rt_sessions st)[i := s'], rt_bus := b'\<rparr>)"
    and "rtmp_inv (st\<lparr>rt_sessions := drop_nth i (rt_sessions st), rt_bus := snd (ServiceSession_Close (s', b'))\<rparr>)"
proof -
  obtain us vs where xs: "rt_sessions st = us @ rt_sessions st ! i # vs"
    and eq: "drop_nth i (rt_sessions st) = us @ vs" "(rt_sessions st)[i := s'] = us @ s' # vs"
    using split_nth [OF assms(2)] by metis
  note turn = rtmp_inv_turn [OF assms(1) xs assms(3,4), folded eq]
  show "ss_state (sv_session s') \<noteq> StateClosed \<Longrightarrow> rtmp_inv (st\<lparr>rt_sessions := (rt_sessions st)[i := s'], rt_bus := b'\<rparr>)"
    by (rule turn(1))
  show "rtmp_inv (st\<lparr>rt_sessions := drop_nth i (rt_sessions st), rt_bus := snd (ServiceSession_Close (s', b'))\<rparr>)" by (rule turn(2))
qed

lemma keeps_publisher_session [simp]: "keeps_publisher s (s\<lparr>sv_session := ss\<rparr>)"
  by (simp add: keeps_publisher_def)

interpretation rtmprun: inductive_invariant "rtmp_start auth" rtmp_step rtmp_inv
proof
  show "rtmp_inv st" if "rtmp_start auth st" for st
    using that bus_inv_New by (auto simp: rtmp_inv_def rtmp_start_def slots_def NewRegistry_def)
  fix st st' assume inv: "rtmp_inv st" and step: "rtmp_step st st'"
  have bi: "bus_inv (rt_bus st)" using inv by (simp add: rtmp_inv_def)
  have sess: "svc_inv (rt_sessions st ! i, rt_bus st)" if "i < length (rt_sessions st)" for i
    using inv that by (simp add: rtmp_inv_def)
  from step show "rtmp_inv st'"
  proof cases
    case (rtmp_listen e)
    then show ?thesis using rtmp_inv_auth [OF inv] by (simp add: RtmpServer_Listen_def split: option.splits)
  next
    case rtmp_close
    then show ?thesis using rtmp_inv_auth [OF inv] by (simp add: RtmpServer_Close_def)
  next
    case (rtmp_accept conn)
    have "svc_inv (NewServiceSession conn (rs_auth (rt_server st)), rt_bus st)"
      using bi session_inv_New by (simp add: svc_inv_def NewServiceSession_def)
    then show ?thesis using inv rtmp_accept(1) by (auto simp: rtmp_inv_def NewServiceSession_def)
  next
    case (rtmp_handshake i s env ss)
    from rtmp_inv_session(1) [OF inv rtmp_handshake(2), of "s\<lparr>sv_session := ss\<rparr>" "rt_bus st"] handshake_keeps [OF rtmp_handshake(4)] sess [OF rtmp_handshake(2)]
      handshake_state [OF rtmp_handshake(4)] show ?thesis by (simp add: rtmp_handshake(1,3))
  next
    case (rtmp_refused i s env ss e)
    from rtmp_inv_session(2) [OF inv rtmp_refused(2), of "s\<lparr>sv_session := ss\<rparr>" "rt_bus st"] handshake_keeps [OF rtmp_refused(4)] sess [OF rtmp_refused(2)]
    show ?thesis by (simp add: rtmp_refused(1,3))
  next
    case (rtmp_turn i s s' b')
    from rtmp_inv_session(1) [OF inv rtmp_turn(2)] handle_chunk_effect [OF sess [OF rtmp_turn(2)]] rtmp_turn(3-6)
    show ?thesis by (simp add: rtmp_turn(1))
  next
    case (rtmp_end i s s' b')
    from rtmp_inv_session(2) [OF inv rtmp_end(2)] handle_chunk_effect [OF sess [OF rtmp_end(2)]] rtmp_end(3-5)
    show ?thesis by (simp add: rtmp_end(1))
  next
    case (rtmp_viewer_joins p)
    show ?thesis unfolding rtmp_viewer_joins
      by (rule rtmp_inv_grows [OF inv]) (auto intro!: with_stream_grows [OF bi] with_stream_slots simp: Stream_AttachSubscriber_def Let_def)
  next
    case (rtmp_viewer_leaves p i)
    show ?thesis unfolding rtmp_viewer_leaves
      by (rule rtmp_inv_grows [OF inv]) (auto intro!: with_stream_grows [OF bi] with_stream_slots simp: Stream_DetachSubscriber_def)
  qed
qed

text \<open>
  C6. However the connections of a server interleave, as long as no client sends a second
  publish command on a connection that publishes, and one that deletes its stream ends its
  connection at once: no two sessions publish on the same stream, every session uses the key
  set of the server, and a registered stream has a publisher exactly when a live session
  publishes on it, under the stream's own key.
\<close>

theorem one_session_per_stream:
  assumes "reachable_from (rtmp_start auth) rtmp_step st"
  shows "(\<forall>i < length (rt_sessions st). \<forall>j < length (rt_sessions st). \<forall>p q. i \<noteq> j \<longrightarrow>
      sv_publisher (rt_sessions st ! i) = Some p \<longrightarrow> sv_publisher (rt_sessions st ! j) = Some q \<longrightarrow> pb_stream p \<noteq> pb_stream q) \<and>
    (\<forall>s \<in> set (rt_sessions st). sv_auth s = rs_auth (rt_server st)) \<and>
    (\<forall>k r. Registry_Get k (rt_bus st) = Some r \<longrightarrow>
      (Stream_HasPublisher (stream_at (rt_bus st) r) \<longleftrightarrow>
       (\<exists>s \<in> set (rt_sessions st). \<exists>p. sv_publisher s = Some p \<and> pb_stream p = r \<and> pb_streamKey p = k)))"
proof -
  have inv: "rtmp_inv st" using assms by (rule rtmprun.inv_reachable)
  have exclusive: "pb_stream p \<noteq> pb_stream q"
    if ij: "i < j" "j < length (rt_sessions st)" "sv_publisher (rt_sessions st ! i) = Some p" "sv_publisher (rt_sessions st ! j) = Some q" for i j p q
  proof -
    obtain us vs where u: "rt_sessions st = us @ rt_sessions st ! j # vs" "length us = j"
      using id_take_nth_drop [OF ij(2)] ij(2) by (metis length_take less_imp_le_nat min.absorb2)
    then have "rt_sessions st ! i \<in> set us" using ij(1) by (metis nth_append nth_mem)
    then have "pb_stream p \<in> set (published us)" using ij(3) by (auto simp: published_def intro!: bexI)
    moreover have "distinct (published us @ pb_stream q # published vs)"
      using inv ij(4) u(1) unfolding rtmp_inv_def by (metis append_Cons append_Nil option.simps(5) published_simps(2,3))
    ultimately show ?thesis by auto
  qed
  have slot: "Stream_HasPublisher (stream_at (rt_bus st) r) \<longleftrightarrow>
      (\<exists>s \<in> set (rt_sessions st). \<exists>p. sv_publisher s = Some p \<and> pb_stream p = r)" if "r < length (bus_heap (rt_bus st))" for r
  proof -
    have "Stream_HasPublisher (stream_at (rt_bus st) r) \<longleftrightarrow> r \<in> set (published (rt_sessions st))"
      using inv that by (auto simp: rtmp_inv_def slots_def)
    then show ?thesis by (force simp: published_def split: option.splits)
  qed
  have reg: "r < length (bus_heap (rt_bus st)) \<and> st_key (stream_at (rt_bus st) r) = k" if "Registry_Get k (rt_bus st) = Some r" for k r
    using inv that by (auto simp: rtmp_inv_def bus_inv_def Registry_Get_def)
  have key: "pb_streamKey p = st_key (stream_at (rt_bus st) (pb_stream p))" if "s \<in> set (rt_sessions st)" "sv_publisher s = Some p" for s p
    using inv that by (auto simp: rtmp_inv_def svc_inv_def)
  show ?thesis
  proof (intro conjI allI impI)
    fix i j p q assume "i < length (rt_sessions st)" "j < length (rt_sessions st)" "i \<noteq> j"
      "sv_publisher (rt_sessions st ! i) = Some p" "sv_publisher (rt_sessions st ! j) = Some q"
    then show "pb_stream p \<noteq> pb_stream q" using exclusive [of i j p q] exclusive [of j i q p] by (cases "i < j") auto
  next
    show "\<forall>s \<in> set (rt_sessions st). sv_auth s = rs_auth (rt_server st)" using inv by (auto simp: rtmp_inv_def)
  next
    fix k r assume g: "Registry_Get k (rt_bus st) = Some r"
    show "Stream_HasPublisher (stream_at (rt_bus st) r) \<longleftrightarrow>
       (\<exists>s \<in> set (rt_sessions st). \<exists>p. sv_publisher s = Some p \<and> pb_stream p = r \<and> pb_streamKey p = k)"
      using slot reg [OF g] key by (metis (no_types, lifting))
  qed
qed

theorem one_session_per_stream_witness:
  "\<exists>st. reachable_from (rtmp_start None) rtmp_step st \<and> length (rt_sessions st) = 2 \<and>
     list_all (\<lambda>s. sv_auth s = None) (rt_sessions st) \<and>
     \<not> (\<exists>p q. sv_publisher (rt_sessions st ! 0) = Some p \<and> sv_publisher (rt_sessions st ! 1) = Some q \<and> pb_stream p = pb_stream q)"
proof -
  let ?start = "\<lparr>rt_server = RtmpNewServer None, rt_sessions = [], rt_bus = NewRegistry\<rparr>"
  let ?s1 = "?start\<lparr>rt_server := fst (RtmpServer_Listen None (rt_server ?start))\<rparr>"
  let ?s2 = "?s1\<lparr>rt_sessions := rt_sessions ?s1 @ [NewServiceSession example_conn (rs_auth (rt_server ?s1))]\<rparr>"
  let ?s3 = "?s2\<lparr>rt_sessions := rt_sessions ?s2 @ [NewServiceSession example_conn (rs_auth (rt_server ?s2))]\<rparr>"
  have "reachable_from (rtmp_start None) rtmp_step ?start" by (rule reach_start) (simp add: rtmp_start_def)
  then have "reachable_from (rtmp_start None) rtmp_step ?s1" by (rule reach_step) (rule rtmp_listen)
  then have "reachable_from (rtmp_start None) rtmp_step ?s2" by (rule reach_step) (rule rtmp_accept, simp add: RtmpServer_Listen_def)
  then have r: "reachable_from (rtmp_start None) rtmp_step ?s3" by (rule reach_step) (rule rtmp_accept, simp add: RtmpServer_Listen_def)
  define st where "st = ?s3"
  have len: "length (rt_sessions st) = 2" "rs_auth (rt_server st) = None"
    by (simp_all add: st_def RtmpServer_Listen_def RtmpNewServer_def)
  note run = one_session_per_stream [OF r, folded st_def]
  have "list_all (\<lambda>s. sv_auth s = None) (rt_sessions st)"
    using run [THEN conjunct2, THEN conjunct1] unfolding len(2) list_all_iff .
  moreover have "\<not> (\<exists>p q. sv_publisher (rt_sessions st ! 0) = Some p \<and> sv_publisher (rt_sessions st ! 1) = Some q \<and> pb_stream p = pb_stream q)"
    using run [THEN conjunct1, rule_format, of 0 1] unfolding len(1) by auto
  ultimately show ?thesis using r [folded st_def] len(1) by blast
qed

end
