(* ===== verification/FLV.thy ===== *)
theory FLV
  imports Arena
begin

text \<open>
  The FLV container (\<open>internal/core/protocol/flv\<close>): file header, tags and the mapping from
  bus messages. \<open>Tag.Bytes\<close> fills a zeroed array index by index, \<open>AppendTag\<close> is the
  allocation-free path of the subscribers; the lemmas show that they agree and that a
  demuxer of the FLV format gets every tag back.
\<close>

section \<open>Constants\<close>

abbreviation FLVSignature :: bytes where "FLVSignature \<equiv> [0x46, 0x4C, 0x56]"
abbreviation FLVVersion :: byte where "FLVVersion \<equiv> 1"
abbreviation FLVHeaderSize :: nat where "FLVHeaderSize \<equiv> 9"
abbreviation TagTypeAudio :: byte where "TagTypeAudio \<equiv> 8"
abbreviation TagTypeVideo :: byte where "TagTypeVideo \<equiv> 9"
abbreviation TagTypeScript :: byte where "TagTypeScript \<equiv> 18"
abbreviation VideoFrameKeyFrame :: byte where "VideoFrameKeyFrame \<equiv> 1"

definition IsVideoKeyframe :: "bytes \<Rightarrow> bool" where
  "IsVideoKeyframe payload \<longleftrightarrow> length payload \<ge> 1 \<and> drop_bit 4 (payload ! 0) = VideoFrameKeyFrame"

section \<open>Header\<close>

record Header =
  hd_HasAudio :: bool
  hd_HasVideo :: bool

definition NewHeader :: "bool \<Rightarrow> bool \<Rightarrow> Header" where
  "NewHeader hasAudio hasVideo = \<lparr>hd_HasAudio = hasAudio, hd_HasVideo = hasVideo\<rparr>"

definition Header_Bytes :: "Header \<Rightarrow> bytes" where
  "Header_Bytes h =
     (let header = write_at 0 FLVSignature (replicate FLVHeaderSize 0);
          header = header[3 := FLVVersion];
          flags = (0 :: byte);
          flags = (if hd_HasAudio h then flags OR 0x04 else flags);
          flags = (if hd_HasVideo h then flags OR 0x01 else flags);
          header = header[4 := flags];
          offset = (of_nat FLVHeaderSize :: u32)
      in header[5 := ucast (drop_bit 24 offset), 6 := ucast (drop_bit 16 offset),
                7 := ucast (drop_bit 8 offset), 8 := ucast offset])"

section \<open>Tags\<close>

record Tag =
  tag_Type :: byte
  tag_Timestamp :: u32
  tag_Data :: bytes

definition NewTag :: "byte \<Rightarrow> u32 \<Rightarrow> bytes \<Rightarrow> Tag" where
  "NewTag tagType timestamp data = \<lparr>tag_Type = tagType, tag_Timestamp = timestamp, tag_Data = data\<rparr>"

definition AppendTag :: "bytes \<Rightarrow> byte \<Rightarrow> u32 \<Rightarrow> bytes \<Rightarrow> bytes" where
  "AppendTag dst tagType timestamp payload =
     (let sz = (of_nat (length payload) :: u32);
          dst = dst @ [tagType,
            ucast (drop_bit 16 sz), ucast (drop_bit 8 sz), ucast sz,
            ucast (drop_bit 16 timestamp), ucast (drop_bit 8 timestamp), ucast timestamp,
            ucast (drop_bit 24 timestamp),
            0, 0, 0];
          dst = dst @ payload;
          prev = 11 + sz
      in dst @ [ucast (drop_bit 24 prev), ucast (drop_bit 16 prev), ucast (drop_bit 8 prev), ucast prev])"

definition TagTypeForMessage :: "'p MediaMessage option \<Rightarrow> byte \<times> bool" where
  "TagTypeForMessage msg =
     (case msg of
        None \<Rightarrow> (0, False)
      | Some m \<Rightarrow>
          if mm_Type m = MessageTypeAudio then (TagTypeAudio, True)
          else if mm_Type m = MessageTypeVideo then (TagTypeVideo, True)
          else if mm_Type m = MessageTypeMetadata then (TagTypeScript, True)
          else (0, False))"

definition Tag_Bytes :: "Tag \<Rightarrow> bytes" where
  "Tag_Bytes t =
     (let dataSize = (of_nat (length (tag_Data t)) :: u32);
          totalSize = 11 + length (tag_Data t) + 4;
          result = replicate totalSize 0;
          result = result[0 := tag_Type t];
          result = result[1 := ucast (drop_bit 16 dataSize), 2 := ucast (drop_bit 8 dataSize),
                          3 := ucast dataSize];
          result = result[4 := ucast (drop_bit 16 (tag_Timestamp t)),
                          5 := ucast (drop_bit 8 (tag_Timestamp t)),
                          6 := ucast (tag_Timestamp t),
                          7 := ucast (drop_bit 24 (tag_Timestamp t))];
          result = result[8 := 0, 9 := 0, 10 := 0];
          result = write_at 11 (tag_Data t) result;
          prevSize = (of_nat (11 + length (tag_Data t)) :: u32)
      in write_at (11 + length (tag_Data t)) (put_be32 prevSize) result)"

section \<open>Muxing\<close>

definition MuxAudio :: "bytes MediaMessage option \<Rightarrow> Tag option" where
  "MuxAudio msg =
     (case msg of
        None \<Rightarrow> None
      | Some m \<Rightarrow> if mm_Type m \<noteq> MessageTypeAudio then None
                 else Some (NewTag TagTypeAudio (mm_Timestamp m) (mm_Payload m)))"

definition MuxVideo :: "bytes MediaMessage option \<Rightarrow> Tag option" where
  "MuxVideo msg =
     (case msg of
        None \<Rightarrow> None
      | Some m \<Rightarrow> if mm_Type m \<noteq> MessageTypeVideo then None
                 else Some (NewTag TagTypeVideo (mm_Timestamp m) (mm_Payload m)))"

definition MuxScript :: "bytes MediaMessage option \<Rightarrow> Tag option" where
  "MuxScript msg =
     (case msg of
        None \<Rightarrow> None
      | Some m \<Rightarrow> if mm_Type m \<noteq> MessageTypeMetadata then None
                 else Some (NewTag TagTypeScript (mm_Timestamp m) (mm_Payload m)))"

definition MuxMessage :: "bytes MediaMessage option \<Rightarrow> Tag option" where
  "MuxMessage msg =
     (case msg of
        None \<Rightarrow> None
      | Some m \<Rightarrow>
          if mm_Type m = MessageTypeAudio then MuxAudio msg
          else if mm_Type m = MessageTypeVideo then MuxVideo msg
          else if mm_Type m = MessageTypeMetadata then MuxScript msg
          else None)"

section \<open>A demuxer\<close>

text \<open>
  The FLV format read back, as the specification describes it: type, 24-bit data size,
  timestamp with its extension byte, stream id, data, and the size of the whole tag.
\<close>

definition read_tag :: "bytes \<Rightarrow> (Tag \<times> bytes) result" where
  "read_tag r =
     bind_result (io_ReadFull 11 r) (\<lambda>(h, r).
     bind_result (io_ReadFull (unat (get_be24 [h ! 1, h ! 2, h ! 3])) r) (\<lambda>(data, r).
     bind_result (read_be32 r) (\<lambda>(prev, r).
       if prev = 11 + get_be24 [h ! 1, h ! 2, h ! 3] \<and> [h ! 8, h ! 9, h ! 10] = [0, 0, 0]
       then Inr (\<lparr>tag_Type = h ! 0, tag_Timestamp = get_be32 [h ! 7, h ! 4, h ! 5, h ! 6], tag_Data = data\<rparr>, r)
       else Inl ErrInvalidData)))"

definition tag_bytes :: "Tag \<Rightarrow> bytes" where
  "tag_bytes t = AppendTag [] (tag_Type t) (tag_Timestamp t) (tag_Data t)"

definition tag_ok :: "Tag \<Rightarrow> bool" where
  "tag_ok t \<longleftrightarrow> length (tag_Data t) < 2 ^ 24"

fun read_tags :: "nat \<Rightarrow> bytes \<Rightarrow> Tag list result" where
  "read_tags n [] = Inr []"
| "read_tags 0 (b # r) = Inl ErrInvalidData"
| "read_tags (Suc n) (b # r) =
     bind_result (read_tag (b # r)) (\<lambda>(t, r'). bind_result (read_tags n r') (\<lambda>ts. Inr (t # ts)))"

definition read_header :: "bytes \<Rightarrow> (Header \<times> bytes) result" where
  "read_header r =
     bind_result (io_ReadFull 9 r) (\<lambda>(h, r).
       if take 4 h = FLVSignature @ [FLVVersion] \<and> get_be32 (drop 5 h) = 9
       then Inr (\<lparr>hd_HasAudio = bit (h ! 4) 2, hd_HasVideo = bit (h ! 4) 0\<rparr>, r)
       else Inl ErrInvalidData)"

section \<open>Lemmas\<close>

lemma AppendTag_dst: "AppendTag dst tt ts p = dst @ AppendTag [] tt ts p"
  by (simp add: AppendTag_def Let_def)

lemma AppendTag_layout:
  "AppendTag [] tt ts p =
     [tt] @ put_be24 (of_nat (length p)) @ put_be24 ts @ [ucast (drop_bit 24 ts), 0, 0, 0] @ p @
     put_be32 (11 + of_nat (length p))"
  by (simp add: AppendTag_def Let_def put_defs)

lemma length_AppendTag: "length (AppendTag dst tt ts p) = length dst + length p + 15"
  by (simp add: AppendTag_def Let_def)

lemma Tag_Bytes_layout: "Tag_Bytes t = AppendTag [] (tag_Type t) (tag_Timestamp t) (tag_Data t)"
proof -
  have "replicate (11 + length (tag_Data t) + 4) (0::byte) =
      replicate 11 0 @ replicate (length (tag_Data t)) 0 @ replicate 4 0"
    by (simp add: replicate_add [symmetric])
  also have "replicate 11 (0::byte) = [0,0,0,0,0,0,0,0,0,0,0]" by (simp add: eval_nat_numeral)
  finally show ?thesis
    by (simp add: Tag_Bytes_def AppendTag_def Let_def write_at_def put_defs)
qed

lemma read_tag_bytes: "tag_ok t \<Longrightarrow> read_tag (tag_bytes t @ r) = Inr (t, r)"
proof -
  assume ok: "tag_ok t"
  let ?p = "tag_Data t" and ?ts = "tag_Timestamp t"
  let ?n = "of_nat (length ?p) :: u32"
  have n: "unat ?n = length ?p" using ok by (simp add: tag_ok_def unat_of_nat)
  then have lt: "?n < 2 ^ 24" using ok by (simp add: tag_ok_def word_less_nat_alt)
  have sz: "get_be24 [ucast (drop_bit 16 ?n), ucast (drop_bit 8 ?n), ucast ?n] = ?n"
    using get_put_be24_id [OF lt] by (simp add: put_be24_def)
  have ts: "get_be32 [ucast (drop_bit 24 ?ts), ucast (drop_bit 16 ?ts), ucast (drop_bit 8 ?ts), ucast ?ts] = ?ts"
    using get_put_be32 [of ?ts] by (simp add: put_be32_def)
  show ?thesis
    using n by (simp add: read_tag_def tag_bytes_def AppendTag_layout io_ReadFull_def put_be24_def sz ts)
qed

interpretation tagc: codec tag_bytes read_tag tag_ok
  by unfold_locales (rule read_tag_bytes)

lemma read_tags_concat:
  assumes "list_all tag_ok ts" "length ts \<le> n"
  shows "read_tags n (concat (map tag_bytes ts)) = Inr ts"
  using assms
proof (induction ts arbitrary: n)
  case (Cons t ts)
  then obtain m where n: "n = Suc m" by (cases n) auto
  obtain b r where br: "tag_bytes t @ concat (map tag_bytes ts) = b # r"
    by (cases "tag_bytes t @ concat (map tag_bytes ts)") (auto simp: tag_bytes_def AppendTag_def Let_def)
  have "read_tag (b # r) = Inr (t, concat (map tag_bytes ts))"
    unfolding br [symmetric] using Cons.prems by (simp add: read_tag_bytes)
  with Cons n br show ?case by simp
qed simp

lemma Header_layout:
  "Header_Bytes h = FLVSignature @ [FLVVersion,
     (if hd_HasAudio h then 4 else 0) OR (if hd_HasVideo h then 1 else 0), 0, 0, 0, 9]"
proof -
  have "replicate 9 (0::byte) = [0,0,0,0,0,0,0,0,0]" by (simp add: eval_nat_numeral)
  then show ?thesis by (simp add: Header_Bytes_def write_at_def Let_def)
qed

lemma read_header_Bytes: "read_header (Header_Bytes h @ r) = Inr (h, r)"
proof -
  have "get_be32 [0, 0, 0, 9] = 9" by (simp add: get_be32_def)
  then show ?thesis
    by (cases h) (simp add: read_header_def Header_layout io_ReadFull_def eval_nat_numeral)
qed

interpretation hdrc: codec Header_Bytes read_header "\<lambda>_. True"
  by unfold_locales (rule read_header_Bytes)

lemma MuxMessage_TagType:
  "MuxMessage (Some m) =
     (case TagTypeForMessage (Some m) of (tt, ok) \<Rightarrow>
        if ok then Some (NewTag tt (mm_Timestamp m) (mm_Payload m)) else None)"
  by (auto simp: MuxMessage_def MuxAudio_def MuxVideo_def MuxScript_def TagTypeForMessage_def)

section \<open>Properties\<close>

text \<open>
  C33. The two ways to encode a tag agree on every input, also when the sizes wrap: what the
  subscribers' \<open>AppendTag\<close> adds to a buffer is what \<open>Tag.Bytes\<close> returns for the tag that
  \<open>MuxMessage\<close> makes of the message.
\<close>

theorem AppendTag_is_Tag_Bytes:
  "(case MuxMessage (Some m) of
      None \<Rightarrow> \<not> snd (TagTypeForMessage (Some m))
    | Some t \<Rightarrow> snd (TagTypeForMessage (Some m)) \<and>
        AppendTag dst (fst (TagTypeForMessage (Some m))) (mm_Timestamp m) (mm_Payload m) = dst @ Tag_Bytes t)"
  by (simp add: MuxMessage_TagType Tag_Bytes_layout NewTag_def AppendTag_dst [of dst] split: prod.splits)



end
