(* ===== verification/FLV_Play.thy ===== *)
theory FLV_Play
  imports FLV Bus_Stream
begin

text \<open>
  What a viewer of a live stream should see. Both FLV transports (\<open>svc/httpflv\<close> and
  \<open>svc/wsflv\<close>) drop everything but codec configuration until the first video keyframe and
  shift the timestamps so that the viewer starts at 0. This theory states that as a function
  from the frames a viewer was given to the tags it should receive, a stepwise form of it,
  and the two interfaces that the transports are checked against: a connection that sends
  bytes, and a player that turns frames into tags on such a connection.
\<close>

section \<open>The tags of a viewer\<close>

abbreviation frame_known :: "bytes MediaMessage \<Rightarrow> bool" where
  "frame_known m \<equiv> snd (TagTypeForMessage (Some m))"

definition frame_tag :: "u32 \<Rightarrow> bytes MediaMessage \<Rightarrow> Tag" where
  "frame_tag ts m = NewTag (fst (TagTypeForMessage (Some m))) ts (mm_Payload m)"

definition live_start :: "bytes MediaMessage \<Rightarrow> bool" where
  "live_start m \<longleftrightarrow> \<not> mm_IsInit m \<and> mm_Type m = MessageTypeVideo \<and> IsVideoKeyframe (mm_Payload m)"

text \<open>Timestamp of a frame for a viewer whose first live frame has timestamp \<open>base\<close>.\<close>

definition rebased :: "u32 \<Rightarrow> bytes MediaMessage \<Rightarrow> u32" where
  "rebased base m =
     (if mm_IsInit m \<or> mm_Timestamp m < base then 0 else mm_Timestamp m - base)"

text \<open>
  Up to the first keyframe the codec configuration only, at time 0; from the keyframe on
  every frame of a known type, relative to the keyframe.
\<close>

definition viewer_tags :: "bytes MediaMessage list \<Rightarrow> Tag list" where
  "viewer_tags ms =
     map (frame_tag 0) (filter (\<lambda>m. mm_IsInit m \<and> frame_known m) (takeWhile (\<lambda>m. \<not> live_start m) ms)) @
     (case dropWhile (\<lambda>m. \<not> live_start m) ms of
        [] \<Rightarrow> []
      | k # rest \<Rightarrow>
          map (\<lambda>m. frame_tag (rebased (mm_Timestamp k) m) m) (filter frame_known (k # rest)))"

section \<open>Frame by frame\<close>

text \<open>\<open>None\<close>: no live frame was let through yet; \<open>Some\<close>: the timestamp of the first one.\<close>

type_synonym play = "u32 option"

definition play_frame :: "bytes MediaMessage \<Rightarrow> play \<Rightarrow> play \<times> Tag list" where
  "play_frame m st =
     (let st' = (if live_start m \<and> st = None then Some (mm_Timestamp m) else st)
      in (st',
          (case st' of
             None \<Rightarrow> if mm_IsInit m \<and> frame_known m then [frame_tag 0 m] else []
           | Some base \<Rightarrow> if frame_known m then [frame_tag (rebased base m) m] else [])))"

fun play_frames :: "bytes MediaMessage list \<Rightarrow> play \<Rightarrow> play \<times> Tag list" where
  "play_frames [] st = (st, [])"
| "play_frames (m # ms) st =
     (case play_frame m st of (st1, ts) \<Rightarrow> case play_frames ms st1 of (st2, ts') \<Rightarrow> (st2, ts @ ts'))"

lemma play_frames_append:
  "play_frames (xs @ ys) st =
     (case play_frames xs st of (st1, ts) \<Rightarrow> case play_frames ys st1 of (st2, ts') \<Rightarrow> (st2, ts @ ts'))"
  by (induction xs arbitrary: st) (auto split: prod.splits)

lemma play_frames_started:
  "play_frames ms (Some base) = (Some base, map (\<lambda>m. frame_tag (rebased base m) m) (filter frame_known ms))"
  by (induction ms) (auto simp: play_frame_def)

lemma play_frames_viewer: "snd (play_frames ms None) = viewer_tags ms"
proof (induction ms)
  case (Cons m ms)
  show ?case
  proof (cases "live_start m")
    case True
    then have "frame_known m" by (simp add: live_start_def TagTypeForMessage_def)
    with True show ?thesis by (simp add: play_frame_def viewer_tags_def play_frames_started)
  next
    case False
    then show ?thesis using Cons by (auto simp: play_frame_def viewer_tags_def split: prod.splits)
  qed
qed (simp add: viewer_tags_def)

text \<open>A viewer starts at time 0, and a tag carries the bytes of a frame that was given.\<close>

lemma viewer_tags_start:
  assumes "viewer_tags ms \<noteq> []"
  shows "tag_Timestamp (hd (viewer_tags ms)) = 0"
  using assms unfolding play_frames_viewer [symmetric]
proof (induction ms)
  case (Cons m ms)
  have "rebased (mm_Timestamp m) m = 0" by (simp add: rebased_def)
  moreover have "live_start m \<Longrightarrow> frame_known m" by (simp add: live_start_def TagTypeForMessage_def)
  ultimately show ?case using Cons
    by (cases "live_start m"; cases "mm_IsInit m \<and> frame_known m")
      (auto simp: play_frame_def frame_tag_def NewTag_def case_prod_unfold)
qed simp

lemma play_frames_data: "t \<in> set (snd (play_frames ms st)) \<Longrightarrow> \<exists>m\<in>set ms. tag_Data t = mm_Payload m"
  by (induction ms arbitrary: st)
    (fastforce simp: play_frame_def frame_tag_def NewTag_def case_prod_unfold Let_def split: option.splits if_splits)+

lemma viewer_tags_ok:
  assumes "list_all (\<lambda>m. length (mm_Payload m) < 2 ^ 24) ms"
  shows "list_all tag_ok (viewer_tags ms)"
  using assms play_frames_data [of _ ms None] by (fastforce simp: list_all_iff tag_ok_def play_frames_viewer)

section \<open>The interfaces\<close>

text \<open>
  A connection: a write that reports no error has sent all its bytes, after those sent
  before. Nothing is promised of a write that fails.
\<close>

locale flv_conn =
  fixes send :: "bytes \<Rightarrow> 'c \<Rightarrow> 'c \<times> go_error option"
    and sent :: "'c \<Rightarrow> bytes"
  assumes send_sent: "send b c = (c', None) \<Longrightarrow> sent c' = sent c @ b"

text \<open>A player: a step that reports no error has done what \<open>play_frame\<close> says.\<close>

fun feed :: "(bytes MediaMessage \<Rightarrow> 's \<Rightarrow> 's \<times> go_error option) \<Rightarrow> bytes MediaMessage list \<Rightarrow> 's \<Rightarrow> 's \<times> go_error option" where
  "feed step [] s = (s, None)"
| "feed step (m # ms) s =
     (case step m s of (s', None) \<Rightarrow> feed step ms s' | (s', Some e) \<Rightarrow> (s', Some e))"

lemma feed_append:
  "feed step (xs @ ys) s = (case feed step xs s of (s', None) \<Rightarrow> feed step ys s' | (s', Some e) \<Rightarrow> (s', Some e))"
  by (induction xs arbitrary: s) (auto split: prod.splits option.splits)

locale player =
  fixes step :: "bytes MediaMessage \<Rightarrow> 's \<Rightarrow> 's \<times> go_error option"
    and play_of :: "'s \<Rightarrow> play"
    and out :: "'s \<Rightarrow> bytes"
    and ok :: "'s \<Rightarrow> bool"
  assumes step_abs: "step m s = (s', None) \<Longrightarrow> ok s \<Longrightarrow> play_of s' = fst (play_frame m (play_of s))"
    and step_out: "step m s = (s', None) \<Longrightarrow> ok s \<Longrightarrow>
      out s' = out s @ concat (map tag_bytes (snd (play_frame m (play_of s))))"
    and step_ok: "step m s = (s', e) \<Longrightarrow> ok s \<Longrightarrow> ok s'"
begin

lemma feed_out:
  assumes "feed step ms s = (s', None)" "ok s"
  shows "out s' = out s @ concat (map tag_bytes (snd (play_frames ms (play_of s)))) \<and>
    play_of s' = fst (play_frames ms (play_of s)) \<and> ok s'"
  using assms
proof (induction ms arbitrary: s)
  case (Cons m ms)
  obtain s1 where s1: "step m s = (s1, None)" "feed step ms s1 = (s', None)"
    using Cons.prems by (auto split: prod.splits option.splits)
  from Cons.IH [OF s1(2) step_ok [OF s1(1) Cons.prems(2)]] show ?case
    using step_abs [OF s1(1) Cons.prems(2)] step_out [OF s1(1) Cons.prems(2)] by (simp add: case_prod_unfold)
qed simp

lemma feed_viewer:
  assumes "feed step ms s = (s', None)" "ok s" "play_of s = None"
  shows "out s' = out s @ concat (map tag_bytes (viewer_tags ms))"
  using feed_out [OF assms(1,2)] play_frames_viewer [of ms] assms(3) by simp

end

end
