(* ===== verification/Go_Path.thy ===== *)
theory Go_Path
  imports Go_Strings
begin

text \<open>
  The parts of \<open>path/filepath\<close>, \<open>strings\<close> and \<open>fmt\<close> that the packager, the relays and the
  configuration use, for a Unix system: numbers as text, joining, extensions, and the lexical
  cleaning of paths with the facts about cleaned paths that the file server relies on.
\<close>

section \<open>Numbers and lists as text\<close>

fun utoa :: "nat \<Rightarrow> string" where
  "utoa n = (if n < 10 then [char_of (48 + n)] else utoa (n div 10) @ [char_of (48 + n mod 10)])"

declare utoa.simps [simp del]

definition itoa :: "int \<Rightarrow> string" where
  "itoa i = (if i < 0 then CHR ''-'' # utoa (nat (- i)) else utoa (nat i))"

fun Join :: "string list \<Rightarrow> string \<Rightarrow> string" where
  "Join [] sep = []"
| "Join [s] sep = s"
| "Join (s # t # ss) sep = s @ sep @ Join (t # ss) sep"

definition ContainsAny :: "string \<Rightarrow> string \<Rightarrow> bool" where
  "ContainsAny s chars \<longleftrightarrow> list_ex (\<lambda>c. c \<in> set chars) s"

fun Contains :: "string \<Rightarrow> string \<Rightarrow> bool" where
  "Contains [] sub = (sub = [])"
| "Contains (c # s) sub = (HasPrefix (c # s) sub \<or> Contains s sub)"

section \<open>Paths\<close>

text \<open>The extension starts at the last dot of the last path element.\<close>

definition path_Ext :: "string \<Rightarrow> string" where
  "path_Ext path =
     (let r = rev path;
          t = takeWhile (\<lambda>c. c \<noteq> CHR ''/'' \<and> c \<noteq> CHR ''.'') r
      in (case drop (length t) r of
            [] \<Rightarrow> ''''
          | c # _ \<Rightarrow> if c = CHR ''.'' then CHR ''.'' # rev t else ''''))"

definition filepath_Base :: "string \<Rightarrow> string" where
  "filepath_Base path =
     (if path = '''' then ''.''
      else
        (let r = dropWhile (\<lambda>c. c = CHR ''/'') (rev path)
         in if r = [] then ''/'' else rev (takeWhile (\<lambda>c. c \<noteq> CHR ''/'') r)))"

text \<open>
  \<open>filepath.Clean\<close>: drop empty and \<open>.\<close> elements; \<open>..\<close> removes the element before it, is
  dropped at the root of an absolute path and kept at the front of a relative one.
\<close>

fun clean_elems :: "bool \<Rightarrow> string list \<Rightarrow> string list \<Rightarrow> string list" where
  "clean_elems rooted out [] = rev out"
| "clean_elems rooted out (e # es) =
     (if e = '''' \<or> e = ''.'' then clean_elems rooted out es
      else if e = ''..'' then
        (case out of
           [] \<Rightarrow> clean_elems rooted (if rooted then [] else [''..'']) es
         | o1 # out' \<Rightarrow> if o1 = ''..'' then clean_elems rooted (''..'' # out) es else clean_elems rooted out' es)
      else clean_elems rooted (e # out) es)"

definition filepath_Clean :: "string \<Rightarrow> string" where
  "filepath_Clean path =
     (if path = '''' then ''.''
      else
        (let rooted = (hd path = CHR ''/'');
             s = Join (clean_elems rooted [] (Split path (CHR ''/''))) ''/''
         in if rooted then CHR ''/'' # s else if s = '''' then ''.'' else s))"

text \<open>\<open>filepath.Join\<close>: leading empty elements are skipped, the rest is joined and cleaned.\<close>

definition filepath_Join :: "string list \<Rightarrow> string" where
  "filepath_Join elems =
     (case dropWhile (\<lambda>e. e = '''') elems of
        [] \<Rightarrow> ''''
      | es \<Rightarrow> filepath_Clean (Join es ''/''))"

section \<open>Facts\<close>

lemma Contains_append: "Contains (a @ sub @ b) sub"
proof (induction a)
  case Nil
  have "prefix sub (sub @ b)" by simp
  then show ?case by (cases "sub @ b") (auto simp: HasPrefix_iff)
qed simp

lemma Contains_infix: "Contains s sub \<longleftrightarrow> (\<exists>a b. s = a @ sub @ b)"
proof
  show "\<exists>a b. s = a @ sub @ b" if "Contains s sub"
    using that
  proof (induction s)
    case (Cons c s)
    then show ?case by (auto simp: HasPrefix_iff prefix_def) (metis append_Nil, metis append_Cons)
  qed simp
qed (auto simp: Contains_append)

lemma Split_append: "c \<notin> set a \<Longrightarrow> Split (a @ c # b) c = a # Split b c"
  by (induction a) auto

lemma Split_Join:
  assumes "ss \<noteq> []" "\<And>s. s \<in> set ss \<Longrightarrow> c \<notin> set s"
  shows "Split (Join ss [c]) c = ss"
  using assms
proof (induction ss "[c]" rule: Join.induct)
  case (3 s t ss)
  then show ?case using Split_append [of c s "Join (t # ss) [c]"] by simp
qed (simp_all add: Split_absent)

lemma Join_Split: "Join (Split s c) [c] = s"
proof (induction s)
  case (Cons x s)
  have "Join ((x # a) # list) [c] = x # Join (a # list) [c]" for a list by (cases list) simp_all
  with Cons show ?case using Split_nonempty [of s c] by (cases "Split s c") auto
qed simp

lemma Join_append:
  assumes "xs \<noteq> []" "ys \<noteq> []"
  shows "Join (xs @ ys) sep = Join xs sep @ sep @ Join ys sep"
  using assms
proof (induction xs sep rule: Join.induct)
  case (2 s sep)
  then show ?case by (cases ys) auto
qed auto

text \<open>Path elements that cleaning leaves alone.\<close>

definition plain_elem :: "string \<Rightarrow> bool" where
  "plain_elem e \<longleftrightarrow> e \<noteq> '''' \<and> e \<noteq> ''.'' \<and> e \<noteq> ''..'' \<and> CHR ''/'' \<notin> set e"

lemma clean_plain: "list_all plain_elem es \<Longrightarrow> clean_elems rooted out es = rev out @ es"
  by (induction es arbitrary: out) (auto simp: plain_elem_def)

text \<open>An absolute path that is clean: \<open>/a/b/c\<close>.\<close>

definition abs_path :: "string list \<Rightarrow> string" where
  "abs_path es = CHR ''/'' # Join es ''/''"

lemma Split_abs: "list_all plain_elem es \<Longrightarrow> es \<noteq> [] \<Longrightarrow> Split (abs_path es) (CHR ''/'') = '''' # es"
  using Split_Join [of es "CHR ''/''"] by (auto simp: abs_path_def plain_elem_def list_all_iff)

lemma Join_abs:
  assumes "list_all plain_elem ds" "ds \<noteq> []" "list_all plain_elem es" "es \<noteq> []"
  shows "filepath_Join [abs_path ds, Join es ''/''] = abs_path (ds @ es)"
proof -
  have j: "Join [abs_path ds, Join es ''/''] ''/'' = abs_path (ds @ es)"
    using assms by (simp add: abs_path_def Join_append)
  have "filepath_Clean (abs_path (ds @ es)) = abs_path (ds @ es)"
  proof -
    have "Split (abs_path (ds @ es)) (CHR ''/'') = '''' # ds @ es" using assms by (intro Split_abs) auto
    then show ?thesis using assms clean_plain [of "ds @ es" True "[]"]
      by (simp add: filepath_Clean_def abs_path_def)
  qed
  with j show ?thesis by (simp add: filepath_Join_def abs_path_def)
qed

lemma abs_path_inside: "ds \<noteq> [] \<Longrightarrow> es \<noteq> [] \<Longrightarrow> HasPrefix (abs_path (ds @ es)) (abs_path ds @ ''/'')"
  by (simp add: HasPrefix_iff abs_path_def Join_append)

lemma utoa_digits: "c \<in> set (utoa n) \<Longrightarrow> (48::nat) \<le> of_char c \<and> of_char c < (58::nat)"
proof (induction n rule: utoa.induct)
  case (1 n)
  have d: "(48::nat) \<le> of_char (char_of (48 + k) :: char) \<and> of_char (char_of (48 + k) :: char) < (58::nat)" if "k < 10" for k :: nat
    using that by (simp add: of_char_of)
  show ?case
  proof (cases "n < 10")
    case True
    then show ?thesis using 1(2) d [of n] by (subst (asm) utoa.simps) simp
  next
    case False
    then have "c \<in> set (utoa (n div 10)) \<or> c = char_of (48 + n mod 10)" using 1(2) by (subst (asm) utoa.simps) auto
    then show ?thesis using 1(1) [OF False] d [of "n mod 10"] by auto
  qed
qed

lemma path_Ext_suffix: "\<exists>a. path = a @ path_Ext path"
proof -
  define t where "t = takeWhile (\<lambda>c. c \<noteq> CHR ''/'' \<and> c \<noteq> CHR ''.'') (rev path)"
  define d where "d = drop (length t) (rev path)"
  have rp: "rev path = t @ d" unfolding t_def d_def dropWhile_eq_drop [symmetric] by simp
  then have p: "path = rev d @ rev t" by (metis rev_append rev_rev_ident)
  have e: "path_Ext path = (case d of [] \<Rightarrow> '''' | c # _ \<Rightarrow> if c = CHR ''.'' then CHR ''.'' # rev t else '''')"
    unfolding path_Ext_def Let_def t_def d_def ..
  show ?thesis
  proof (cases d)
    case (Cons c d')
    then show ?thesis using p unfolding e by (cases "c = CHR ''.''") simp_all
  qed (use e in simp)
qed

lemma Contains_more: "Contains s sub \<Longrightarrow> Contains (s @ t) sub"
  unfolding Contains_infix by (metis append.assoc)

lemma two_dots_across: "c \<noteq> CHR ''.'' \<Longrightarrow> Contains (a @ c # b) ''..'' \<longleftrightarrow> Contains a ''..'' \<or> Contains b ''..''"
proof (induction a)
  case Nil
  then show ?case by (simp add: HasPrefix_def)
next
  case (Cons x a)
  then show ?case by (cases a) (auto simp: HasPrefix_def)
qed

end
