(* ===== verification/HTTP_FLV.thy ===== *)
theory HTTP_FLV
  imports FLV_Play Registry Auth RTMP_Chunk Go_Path
begin

text \<open>
  HTTP-FLV playback (\<open>internal/svc/httpflv\<close>): the subscriber that turns frames into FLV tags
  and the request handler around it. The connection is the \<open>io.Writer\<close> of the source: a type
  \<open>'c\<close> with the write operation as a parameter; the write deadline shows as a write that fails.
\<close>

section \<open>Subscriber\<close>

type_synonym 'c writer = "bytes \<Rightarrow> 'c \<Rightarrow> 'c \<times> go_error option"

text \<open>
  \<open>fs_busSubscriber\<close> is the pointer to the bus subscriber, which lives in its stream's map
  under the id it holds.
\<close>

record 'c FlvSubscriber =
  fs_conn :: 'c
  fs_busSubscriber :: "u64 option"
  fs_stream :: nat
  fs_subscriberID :: u64
  fs_headerWritten :: bool
  fs_gotKeyframe :: bool
  fs_tsOffset :: u32
  fs_tsBaseSet :: bool

definition http_NewSubscriber :: "'c \<Rightarrow> nat \<Rightarrow> 'c FlvSubscriber" where
  "http_NewSubscriber w stream =
     \<lparr>fs_conn = w, fs_busSubscriber = None, fs_stream = stream, fs_subscriberID = 0,
      fs_headerWritten = False, fs_gotKeyframe = False, fs_tsOffset = 0, fs_tsBaseSet = False\<rparr>"

definition http_WriteHeader :: "'c writer \<Rightarrow> bool \<Rightarrow> bool \<Rightarrow> 'c FlvSubscriber \<Rightarrow> 'c FlvSubscriber \<times> go_error option" where
  "http_WriteHeader write hasAudio hasVideo s =
     (if fs_headerWritten s then (s, None)
      else
        (let combined = Header_Bytes (NewHeader hasAudio hasVideo) @ [0, 0, 0, 0]
         in (case write combined (fs_conn s) of
               (c, Some e) \<Rightarrow> (s\<lparr>fs_conn := c\<rparr>, Some e)
             | (c, None) \<Rightarrow> (s\<lparr>fs_conn := c, fs_headerWritten := True\<rparr>, None))))"

definition http_rebaseTimestamp :: "bytes MediaMessage \<Rightarrow> 'c FlvSubscriber \<Rightarrow> 'c FlvSubscriber \<times> u32" where
  "http_rebaseTimestamp msg s =
     (if mm_IsInit msg then (s, 0)
      else
        (let s = (if \<not> fs_tsBaseSet s then s\<lparr>fs_tsOffset := mm_Timestamp msg, fs_tsBaseSet := True\<rparr> else s)
         in if mm_Timestamp msg < fs_tsOffset s then (s, 0)
            else (s, mm_Timestamp msg - fs_tsOffset s)))"

text \<open>The body of the loop of \<open>ProcessMessages\<close>, after a message was read.\<close>

definition http_process :: "'c writer \<Rightarrow> bytes MediaMessage \<Rightarrow> 'c FlvSubscriber \<Rightarrow> 'c FlvSubscriber \<times> go_error option" where
  "http_process write msg s =
     (if \<not> fs_gotKeyframe s \<and> \<not> mm_IsInit msg \<and>
         \<not> (mm_Type msg = MessageTypeVideo \<and> IsVideoKeyframe (mm_Payload msg)) then (s, None)
      else
        (let s = (if \<not> fs_gotKeyframe s \<and> \<not> mm_IsInit msg then s\<lparr>fs_gotKeyframe := True\<rparr> else s)
         in (case TagTypeForMessage (Some msg) of
               (_, False) \<Rightarrow> (s, None)
             | (tagType, True) \<Rightarrow>
                 (case http_rebaseTimestamp msg s of (s, ts) \<Rightarrow>
                  let tagBuf = AppendTag [] tagType ts (mm_Payload msg)
                  in (case write tagBuf (fs_conn s) of (c, werr) \<Rightarrow> (s\<lparr>fs_conn := c\<rparr>, werr))))))"

text \<open>
  The loop runs beside the rest of the server: an event of the schedule is what the others
  did to the bus before this turn of the loop, and whether the context is done when the
  loop has to wait. \<open>Running\<close>: the schedule ended while the loop was still going.
\<close>

type_synonym turn = "(Bus \<Rightarrow> Bus) \<times> bool"

datatype loop_result = Running | Returned "go_error option" | Panicked

definition read_bus_subscriber :: "nat \<Rightarrow> u64 \<Rightarrow> Bus \<Rightarrow> (Bus \<times> bytes MediaMessage option) option" where
  "read_bus_subscriber p i b =
     (let st = stream_at b p in
      case gomap_get (st_subscribers st) i of
        None \<Rightarrow> None
      | Some sub \<Rightarrow>
          (case Subscriber_Read (st_log st) sub of
             (_, _, False) \<Rightarrow> None
           | (sub', msg, True) \<Rightarrow>
               Some (with_stream p (\<lambda>st. st\<lparr>st_subscribers := gomap_set i sub' (st_subscribers st)\<rparr>) b,
                     map_option (msg_load st) msg)))"

fun http_ProcessMessages ::
    "'c writer \<Rightarrow> turn list \<Rightarrow> 'c FlvSubscriber \<Rightarrow> Bus \<Rightarrow> ('c FlvSubscriber \<times> Bus) \<times> loop_result" where
  "http_ProcessMessages write [] s b =
     ((s, b), if fs_busSubscriber s = None then Returned None else Running)"
| "http_ProcessMessages write ((others, ctxDone) # sched) s b =
     (case fs_busSubscriber s of
        None \<Rightarrow> ((s, b), Returned None)
      | Some i \<Rightarrow>
          (case read_bus_subscriber (fs_stream s) i (others b) of
             None \<Rightarrow> if ctxDone then ((s, others b), Returned None)
                     else http_ProcessMessages write sched s (others b)
           | Some (b', None) \<Rightarrow> ((s, b'), Panicked)
           | Some (b', Some msg) \<Rightarrow>
               (case http_process write msg s of
                  (s', Some werr) \<Rightarrow> ((s', b'), Returned (Some werr))
                | (s', None) \<Rightarrow> http_ProcessMessages write sched s' b')))"

definition http_Attach :: "'c FlvSubscriber \<Rightarrow> Bus \<Rightarrow> 'c FlvSubscriber \<times> Bus" where
  "http_Attach s b =
     (case Stream_AttachSubscriber (stream_at b (fs_stream s)) of (st, i) \<Rightarrow>
        (s\<lparr>fs_busSubscriber := Some i, fs_subscriberID := i\<rparr>, with_stream (fs_stream s) (\<lambda>_. st) b))"

definition http_Detach :: "'c FlvSubscriber \<Rightarrow> Bus \<Rightarrow> 'c FlvSubscriber \<times> Bus" where
  "http_Detach s b =
     (if fs_subscriberID s \<noteq> 0
      then (s\<lparr>fs_subscriberID := 0, fs_busSubscriber := None\<rparr>,
            with_stream (fs_stream s) (Stream_DetachSubscriber (fs_subscriberID s)) b)
      else (s, b))"

section \<open>Handler\<close>

text \<open>
  \<open>waitForStreams\<close>: the polls before the deadline, each with what the others did before it
  and whether the context is done after it, and what the others did before the last poll.
\<close>

fun http_waitForStreams :: "turn list \<Rightarrow> (Bus \<Rightarrow> Bus) \<Rightarrow> nat \<Rightarrow> Bus \<Rightarrow> Bus \<times> bool \<times> bool" where
  "http_waitForStreams [] late p b =
     (let b = late b in (b, Stream_HasAudioInit (stream_at b p), Stream_HasVideoInit (stream_at b p)))"
| "http_waitForStreams ((others, ctxDone) # polls) late p b =
     (let b = others b;
          hasAudio = Stream_HasAudioInit (stream_at b p);
          hasVideo = Stream_HasVideoInit (stream_at b p)
      in if hasAudio \<and> hasVideo then (b, hasAudio, hasVideo)
         else if ctxDone then (b, hasAudio, hasVideo)
         else http_waitForStreams polls late p b)"

text \<open>What the response writer offers: no hijacking, a failing hijack, or the raw connection.\<close>

datatype 'c hijack = NoHijacker | HijackFails | Hijacked 'c

record 'c play_env =
  pe_write :: "'c writer"
  pe_close :: "'c \<Rightarrow> 'c"
  pe_polls :: "turn list"
  pe_late :: "Bus \<Rightarrow> Bus"
  pe_sched :: "turn list"

record flv_request =
  rq_Method :: string
  rq_Path :: string
  rq_RawQuery :: string

definition CRLF :: string where "CRLF = [char_of (13::nat), char_of (10::nat)]"

definition http_response_headers :: bytes where
  "http_response_headers =
     str_bytes (''HTTP/1.1 200 OK'' @ CRLF @
       ''Content-Type: video/x-flv'' @ CRLF @
       ''Cache-Control: no-cache'' @ CRLF @
       ''Connection: close'' @ CRLF @
       ''Access-Control-Allow-Origin: *'' @ CRLF @ CRLF)"

definition http_stream_path :: "string \<Rightarrow> (string \<times> string) option" where
  "http_stream_path path =
     (let urlPath = TrimPrefix path ''/'' in
      if \<not> HasSuffix urlPath ''.flv'' then None
      else (case SplitN2 (TrimSuffix urlPath ''.flv'') (CHR ''/'') of
              [app, name] \<Rightarrow> Some (app, name)
            | _ \<Rightarrow> None))"

text \<open>The deferred \<open>sub.Detach()\<close> and \<open>conn.Close()\<close>, once the handler returns.\<close>

definition http_finish :: "'c play_env \<Rightarrow> 'c FlvSubscriber \<Rightarrow> Bus \<Rightarrow> 'c FlvSubscriber \<times> Bus" where
  "http_finish env s b =
     (case http_Detach s b of (s, b) \<Rightarrow> (s\<lparr>fs_conn := pe_close env (fs_conn s)\<rparr>, b))"

definition http_stream :: "'c play_env \<Rightarrow> 'c \<Rightarrow> nat \<Rightarrow> Bus \<Rightarrow> ('c FlvSubscriber \<times> Bus) \<times> loop_result" where
  "http_stream env conn p b =
     (case http_Attach (http_NewSubscriber conn p) b of (s, b) \<Rightarrow>
      (case http_waitForStreams (pe_polls env) (pe_late env) p b of (b, hasAudio, hasVideo) \<Rightarrow>
       (case http_WriteHeader (pe_write env) hasAudio hasVideo s of
          (s, Some e) \<Rightarrow> (http_finish env s b, Returned None)
        | (s, None) \<Rightarrow>
            (case http_ProcessMessages (pe_write env) (pe_sched env) s b of
               ((s, b), Running) \<Rightarrow> ((s, b), Running)
             | ((s, b), r) \<Rightarrow> (http_finish env s b, r)))))"

definition http_ServeHTTP ::
    "'c play_env \<Rightarrow> 'c hijack \<Rightarrow> flv_request \<Rightarrow> Bus \<Rightarrow> (('c \<times> Bus) + (('c FlvSubscriber \<times> Bus) \<times> loop_result)) http_result" where
  "http_ServeHTTP env hj r b =
     (if rq_Method r \<noteq> ''GET'' then HttpError 405 ''''
      else
        (case http_stream_path (rq_Path r) of
           None \<Rightarrow> HttpError 400 ''''
         | Some (app, name) \<Rightarrow>
             (case Registry_Get (NewStreamKey app name) b of
                None \<Rightarrow> HttpError 404 ''''
              | Some p \<Rightarrow>
                  if \<not> Stream_HasPublisher (stream_at b p) then HttpError 404 ''''
                  else
                    (case hj of
                       NoHijacker \<Rightarrow> HttpError 500 ''stream hijack unsupported''
                     | HijackFails \<Rightarrow> HttpError 500 ''hijack failed''
                     | Hijacked conn \<Rightarrow>
                         (case pe_write env http_response_headers conn of
                            (conn, Some e) \<Rightarrow> Served (Inl (pe_close env conn, b))
                          | (conn, None) \<Rightarrow> Served (Inr (http_stream env conn p b)))))))"

definition http_serveDispatched ::
    "'c play_env \<Rightarrow> 'c hijack \<Rightarrow> flv_request \<Rightarrow> Bus \<Rightarrow> (('c \<times> Bus) + (('c FlvSubscriber \<times> Bus) \<times> loop_result)) http_result" where
  "http_serveDispatched env hj r b =
     (if path_Ext (rq_Path r) = ''.flv'' then http_ServeHTTP env hj r b else HttpError 404 '''')"

text \<open>The route \<open>/\<close> of the service, behind the play keys when there are any.\<close>

definition http_flv_route ::
    "KeySet option \<Rightarrow> 'c play_env \<Rightarrow> 'c hijack \<Rightarrow> Bus \<Rightarrow> flv_request \<Rightarrow> (('c \<times> Bus) + (('c FlvSubscriber \<times> Bus) \<times> loop_result)) http_result" where
  "http_flv_route playKeys env hj b =
     (if playKeys = None then (\<lambda>r. http_serveDispatched env hj r b)
      else Gate playKeys rq_RawQuery (\<lambda>r. http_serveDispatched env hj r b))"

section \<open>The subscriber is a player\<close>

definition fs_ok :: "'c FlvSubscriber \<Rightarrow> bool" where
  "fs_ok s \<longleftrightarrow> fs_gotKeyframe s = fs_tsBaseSet s"

definition fs_play :: "'c FlvSubscriber \<Rightarrow> play" where
  "fs_play s = (if fs_tsBaseSet s then Some (fs_tsOffset s) else None)"

text \<open>One turn, written with the tags of \<open>play_frame\<close>.\<close>

lemma http_process_play:
  assumes "fs_ok s"
  shows "http_process write m s =
     (case play_frame m (fs_play s) of (st, ts) \<Rightarrow>
      let s' = s\<lparr>fs_gotKeyframe := st \<noteq> None, fs_tsBaseSet := st \<noteq> None, fs_tsOffset := (case st of None \<Rightarrow> fs_tsOffset s | Some x \<Rightarrow> x)\<rparr>
      in (case ts of
            [] \<Rightarrow> (s', None)
          | t # _ \<Rightarrow> (case write (tag_bytes t) (fs_conn s) of (c, e) \<Rightarrow> (s'\<lparr>fs_conn := c\<rparr>, e))))"
proof (cases "fs_tsBaseSet s")
  case True
  then show ?thesis using assms
    by (auto simp: http_process_def fs_ok_def fs_play_def play_frame_def http_rebaseTimestamp_def rebased_def
        frame_tag_def NewTag_def tag_bytes_def Let_def split: prod.splits bool.splits)
next
  case False
  then show ?thesis using assms
    by (cases "live_start m"; cases "mm_IsInit m")
      (auto simp: http_process_def fs_ok_def fs_play_def play_frame_def http_rebaseTimestamp_def rebased_def live_start_def
        frame_tag_def NewTag_def tag_bytes_def TagTypeForMessage_def Let_def split: prod.splits bool.splits)
qed

context flv_conn
begin

lemma http_player:
  shows "http_process send m s = (s', None) \<Longrightarrow> fs_ok s \<Longrightarrow> fs_play s' = fst (play_frame m (fs_play s))"
    and "http_process send m s = (s', None) \<Longrightarrow> fs_ok s \<Longrightarrow>
      sent (fs_conn s') = sent (fs_conn s) @ concat (map tag_bytes (snd (play_frame m (fs_play s))))"
    and "http_process send m s = (s', e) \<Longrightarrow> fs_ok s \<Longrightarrow> fs_ok s'"
  by (auto simp: http_process_play play_frame_def Let_def fs_play_def fs_ok_def
      split: prod.splits option.splits if_splits dest: send_sent)

end

sublocale flv_conn < http: player "http_process send" fs_play "\<lambda>s. sent (fs_conn s)" fs_ok
  by unfold_locales (fact http_player)+

interpretation tcp: flv_conn conn_Write cn_out
  by unfold_locales (auto simp: conn_Write_def split: if_splits)

section \<open>What the loop sends\<close>

lemma drop_split_nth: "c \<le> j \<Longrightarrow> j < length l \<Longrightarrow> drop c l = drop c (take j l) @ l ! j # drop (Suc j) l"
  using append_take_drop_id [of "j - c" "drop c l"] by (simp add: drop_take Cons_nth_drop_Suc)

lemma Subscriber_Read_cases:
  assumes rep: "stream_rep s h" and cur: "unat (sub_cursor sub) \<le> length h"
  obtains (pending) "sub_pendIdx sub < length (sub_pending sub)"
      "stream_read s sub = Some (sub\<lparr>sub_pendIdx := sub_pendIdx sub + 1\<rparr>, sub_pending sub ! sub_pendIdx sub)"
  | (empty) "sub_live sub" "\<not> snd (snd (Subscriber_Read (st_log s) sub))"
  | (live) sub' i where "sub_live sub" "stream_read s sub = Some (sub', h ! i)" "sub_live sub'"
      "unat (sub_cursor sub) \<le> i" "i < length h" "unat (sub_cursor sub') = Suc i"
proof (cases "sub_live sub")
  case False
  then show thesis using pending by (simp add: sub_live_def stream_read_def Subscriber_Read_def msg_load_def)
next
  case True
  have log: "log_rep (st_log s) (slab_ptrs s (length h))" using rep by (simp add: stream_rep_def)
  show thesis
  proof (cases "unat (sub_cursor sub) = length h")
    case eq: True
    then show thesis using readAt_caught_up [OF log] True empty by (simp add: Subscriber_Read_def sub_live_def)
  next
    case False
    then have lt: "unat (sub_cursor sub) < length h" using cur by simp
    moreover from this have "read_pos (unat (sl_size (st_log s))) (length h) (unat (sub_cursor sub)) < length h"
      "unat (sub_cursor sub) \<le> read_pos (unat (sl_size (st_log s))) (length h) (unat (sub_cursor sub))"
      using sread.cap_pos [OF rep] by (auto simp: read_pos_def)
    ultimately show thesis using sread.read_behind [OF rep True] live True by blast
  qed
qed

lemma read_bus_subscriber_stream:
  assumes "gomap_get (st_subscribers (stream_at b p)) i = Some sub"
  shows "\<not> snd (snd (Subscriber_Read (st_log (stream_at b p)) sub)) \<Longrightarrow> read_bus_subscriber p i b = None"
    and "stream_read (stream_at b p) sub = Some (sub', m) \<Longrightarrow>
      read_bus_subscriber p i b =
        Some (with_stream p (\<lambda>st. st\<lparr>st_subscribers := gomap_set i sub' (st_subscribers st)\<rparr>) b, Some m)"
  using assms by (auto simp: read_bus_subscriber_def stream_read_def Let_def split: prod.splits option.splits bool.splits)

lemma stream_rep_subscribers [simp]: "stream_rep (st\<lparr>st_subscribers := x\<rparr>) h = stream_rep st h"
  by (rule stream_rep_cong) auto

lemma http_process_fields:
  "http_process write m s = (s', e) \<Longrightarrow> fs_busSubscriber s' = fs_busSubscriber s \<and> fs_stream s' = fs_stream s \<and>
     fs_subscriberID s' = fs_subscriberID s"
  by (auto simp: http_process_def http_rebaseTimestamp_def Let_def split: if_splits prod.splits bool.splits)

definition publishing :: "nat \<Rightarrow> (bytes MediaMessage list \<times> bool) list \<Rightarrow> turn list" where
  "publishing p es = map (\<lambda>(g, c). (with_stream p (publish_frames g), c)) es"

definition loop_error :: "loop_result \<Rightarrow> go_error option" where
  "loop_error r = (case r of Returned e \<Rightarrow> e | _ \<Rightarrow> None)"

definition viewed :: "Subscriber \<Rightarrow> bytes MediaMessage list \<Rightarrow> bytes MediaMessage list \<Rightarrow> bytes MediaMessage list \<Rightarrow> bool" where
  "viewed sub later pend live \<longleftrightarrow>
     prefix pend (drop (sub_pendIdx sub) (sub_pending sub)) \<and>
     (live \<noteq> [] \<longrightarrow> pend = drop (sub_pendIdx sub) (sub_pending sub)) \<and>
     subseq live later"

text \<open>The viewer \<open>s\<close> reads stream \<open>p\<close>, of history \<open>h\<close>, through the subscriber \<open>sub\<close> that the stream keeps under \<open>i\<close>.\<close>

definition viewing :: "nat \<Rightarrow> u64 \<Rightarrow> Subscriber \<Rightarrow> bytes MediaMessage list \<Rightarrow> 'c FlvSubscriber \<Rightarrow> Bus \<Rightarrow> bool" where
  "viewing p i sub h s b \<longleftrightarrow>
     fs_busSubscriber s = Some i \<and> fs_stream s = p \<and> p < length (bus_heap b) \<and> stream_rep (stream_at b p) h \<and>
     gomap_get (st_subscribers (stream_at b p)) i = Some sub \<and> unat (sub_cursor sub) \<le> length h"

text \<open>Reading \<open>m\<close> takes \<open>sub\<close> to \<open>sub'\<close>: the next message of the replay, or after it one of the history.\<close>

definition next_message :: "Subscriber \<Rightarrow> bytes MediaMessage list \<Rightarrow> Subscriber \<Rightarrow> bytes MediaMessage \<Rightarrow> bool" where
  "next_message sub h sub' m \<longleftrightarrow>
     sub_pendIdx sub < length (sub_pending sub) \<and> sub' = sub\<lparr>sub_pendIdx := sub_pendIdx sub + 1\<rparr> \<and> m = sub_pending sub ! sub_pendIdx sub \<or>
     sub_live sub \<and> sub_live sub' \<and>
     (\<exists>j. unat (sub_cursor sub) \<le> j \<and> j < length h \<and> unat (sub_cursor sub') = Suc j \<and> m = h ! j)"

lemma viewing_publish:
  assumes "viewing p i sub h s b" "length h + length g < 2 ^ 64"
  shows "viewing p i sub (h @ g) s (with_stream p (publish_frames g) b)"
  using assms publish_frames_rep [of "stream_at b p" h g] by (auto simp: viewing_def with_stream_heap)

lemma viewing_read:
  assumes "viewing p i sub h s b" "stream_read (stream_at b p) sub = Some (sub', m)" "unat (sub_cursor sub') \<le> length h"
    and "http_process write m s = (s', e)"
  obtains b' where "read_bus_subscriber p i b = Some (b', Some m)" "viewing p i sub' h s' b'"
proof
  let ?b' = "with_stream p (\<lambda>st. st\<lparr>st_subscribers := gomap_set i sub' (st_subscribers st)\<rparr>) b"
  show "read_bus_subscriber p i b = Some (?b', Some m)"
    using assms(1,2) by (intro read_bus_subscriber_stream(2)) (auto simp: viewing_def)
  show "viewing p i sub' h s' ?b'"
    using assms(1,3) http_process_fields [OF assms(4)] by (simp add: viewing_def with_stream_heap)
qed

text \<open>One turn of the loop.\<close>

lemma http_turn:
  assumes "viewing p i sub h s b" "length h + length g < 2 ^ 64"
    and "http_ProcessMessages write ((with_stream p (publish_frames g), c) # es) s b = ((s', b'), r)"
  obtains (stopped) "s' = s" "r = Returned None"
  | (idle) b1 where "viewing p i sub (h @ g) s b1" "http_ProcessMessages write es s b1 = ((s', b'), r)"
  | (failed) sub' m e where "next_message sub (h @ g) sub' m" "http_process write m s = (s', Some e)" "r = Returned (Some e)"
  | (sent) sub' m s2 b2 where "next_message sub (h @ g) sub' m" "http_process write m s = (s2, None)"
      "viewing p i sub' (h @ g) s2 b2" "http_ProcessMessages write es s2 b2 = ((s', b'), r)"
proof -
  let ?b = "with_stream p (publish_frames g) b" and ?h = "h @ g"
  have v: "viewing p i sub ?h s ?b" by (rule viewing_publish [OF assms(1,2)])
  then have at: "fs_busSubscriber s = Some i" "fs_stream s = p" "stream_rep (stream_at ?b p) ?h" "unat (sub_cursor sub) \<le> length ?h"
    by (auto simp: viewing_def)
  have got: thesis if rd: "stream_read (stream_at ?b p) sub = Some (sub', m)" and nx: "next_message sub ?h sub' m" for sub' m
  proof -
    obtain s2 e where pm: "http_process write m s = (s2, e)" by fastforce
    have "unat (sub_cursor sub') \<le> length ?h" using nx at(4) by (auto simp: next_message_def)
    from viewing_read [OF v rd this pm] obtain b2 where
      "read_bus_subscriber p i ?b = Some (b2, Some m)" "viewing p i sub' ?h s2 b2" .
    then show thesis using assms(3) at(1,2) pm nx failed sent by (cases e) (auto simp: Let_def)
  qed
  from at(3,4) show thesis
  proof (cases rule: Subscriber_Read_cases)
    case pending
    then show thesis by (intro got) (auto simp: next_message_def)
  next
    case empty
    then have "read_bus_subscriber p i ?b = None" using v by (intro read_bus_subscriber_stream(1)) (auto simp: viewing_def)
    then show thesis using assms(3) at(1,2) v stopped idle by (cases c) (auto simp: Let_def)
  next
    case (live sub' j)
    then show thesis by (intro got) (auto simp: next_message_def)
  qed
qed

lemma viewed_next:
  assumes "next_message sub h sub' m" "viewed sub' (drop (unat (sub_cursor sub')) h @ later) pend live"
  shows "\<exists>pend' live'. pend' @ live' = m # pend @ live \<and> viewed sub (drop (unat (sub_cursor sub)) h @ later) pend' live'"
  using assms(1) unfolding next_message_def
proof (elim disjE conjE exE)
  assume n: "sub_pendIdx sub < length (sub_pending sub)" "sub' = sub\<lparr>sub_pendIdx := sub_pendIdx sub + 1\<rparr>"
    "m = sub_pending sub ! sub_pendIdx sub"
  then show ?thesis using assms(2)
    by (intro exI [of _ "m # pend"] exI [of _ live]) (auto simp: viewed_def Cons_nth_drop_Suc [symmetric])
next
  fix j assume n: "sub_live sub" "sub_live sub'" "unat (sub_cursor sub) \<le> j" "j < length h" "unat (sub_cursor sub') = Suc j" "m = h ! j"
  then have "pend = []" "subseq live (drop (Suc j) h @ later)" using assms(2) by (auto simp: viewed_def sub_live_def)
  then show ?thesis using n drop_split_nth [OF n(3,4)]
    by (intro exI [of _ "[]"] exI [of _ "m # live"]) (auto simp: viewed_def sub_live_def list_emb_append2)
qed

lemma http_loop_viewed:
  assumes "http_ProcessMessages write (publishing p es) s b = ((s', b'), r)"
    and "viewing p i sub h s b" "length h + length (concat (map fst es)) < 2 ^ 64"
  shows "r \<noteq> Panicked \<and> (\<exists>pend live. feed (http_process write) (pend @ live) s = (s', loop_error r) \<and>
    viewed sub (drop (unat (sub_cursor sub)) h @ concat (map fst es)) pend live)"
  using assms
proof (induction es arbitrary: s b h sub)
  case Nil
  then show ?case by (auto simp: viewing_def publishing_def loop_error_def viewed_def intro!: exI [of _ "[]"])
next
  case (Cons x es)
  obtain g c where x: "x = (g, c)" by (cases x)
  have later: "drop (unat (sub_cursor sub)) h @ concat (map fst (x # es)) = drop (unat (sub_cursor sub)) (h @ g) @ concat (map fst es)"
    using Cons.prems(2) by (simp add: x viewing_def)
  have len: "length h + length g < 2 ^ 64" "length (h @ g) + length (concat (map fst es)) < 2 ^ 64"
    using Cons.prems(3) by (simp_all add: x)
  from Cons.prems(1) have "http_ProcessMessages write ((with_stream p (publish_frames g), c) # publishing p es) s b = ((s', b'), r)"
    by (simp add: publishing_def x)
  from Cons.prems(2) len(1) this show ?case
  proof (cases rule: http_turn)
    case stopped
    then show ?thesis by (auto simp: loop_error_def viewed_def intro!: exI [of _ "[]"])
  next
    case (idle b1)
    then show ?thesis unfolding later using Cons.IH len(2) by blast
  next
    case (failed sub' m e)
    have "viewed sub' (drop (unat (sub_cursor sub')) (h @ g) @ concat (map fst es)) [] []" by (simp add: viewed_def)
    from viewed_next [OF failed(1) this] obtain pend live where
      "pend @ live = [m]" "viewed sub (drop (unat (sub_cursor sub)) (h @ g) @ concat (map fst es)) pend live" by auto
    then show ?thesis unfolding later using failed(2,3) by (intro conjI exI [of _ pend] exI [of _ live]) (simp_all add: loop_error_def)
  next
    case (sent sub' m s2 b2)
    from Cons.IH [OF sent(4,3) len(2)] viewed_next [OF sent(1)] obtain pend live ms where
      "r \<noteq> Panicked" "feed (http_process write) ms s2 = (s', loop_error r)" "pend @ live = m # ms"
      "viewed sub (drop (unat (sub_cursor sub)) (h @ g) @ concat (map fst es)) pend live" by blast
    then show ?thesis unfolding later using sent(2) by (intro conjI exI [of _ pend] exI [of _ live]) simp_all
  qed
qed

text \<open>Waiting publishes some of the frames, and leaves the subscribers alone.\<close>

lemma http_wait_publishes:
  assumes "http_waitForStreams (publishing p ps) (with_stream p (publish_frames g)) p b = (b', flags)"
    and "p < length (bus_heap b)" "stream_rep (stream_at b p) h" "length h + length (concat (map fst ps) @ g) < 2 ^ 64"
  shows "length (bus_heap b') = length (bus_heap b) \<and> st_subscribers (stream_at b' p) = st_subscribers (stream_at b p) \<and>
    (\<exists>h'. stream_rep (stream_at b' p) (h @ h') \<and> subseq h' (concat (map fst ps) @ g) \<and> length h' \<le> length (concat (map fst ps) @ g))"
  using assms
proof (induction ps arbitrary: b h)
  case Nil
  then show ?case using publish_frames_rep [OF Nil.prems(3), of g]
    by (auto simp: publishing_def with_stream_heap Let_def intro!: exI [of _ g])
next
  case (Cons x ps)
  obtain g1 c where x: "x = (g1, c)" by (cases x)
  let ?b = "with_stream p (publish_frames g1) b"
  note pr = publish_frames_rep [OF Cons.prems(3), of g1]
  have at: "stream_at ?b p = publish_frames g1 (stream_at b p)" using Cons.prems(2) by (simp add: with_stream_heap)
  have now: "length (bus_heap ?b) = length (bus_heap b)" "st_subscribers (stream_at ?b p) = st_subscribers (stream_at b p)"
    "stream_rep (stream_at ?b p) (h @ g1)"
    using pr Cons.prems(4) by (simp_all add: at x with_stream_heap)
  have sched: "publishing p (x # ps) = (with_stream p (publish_frames g1), c) # publishing p ps" by (simp add: publishing_def x)
  show ?case
  proof (cases "b' = ?b")
    case True
    then show ?thesis using now by (auto simp: x intro!: exI [of _ g1])
  next
    case False
    then have "http_waitForStreams (publishing p ps) (with_stream p (publish_frames g)) p ?b = (b', flags)"
      using Cons.prems(1) unfolding sched by (simp add: Let_def split: if_splits)
    from Cons.IH [OF this _ now(3)] Cons.prems(2,4) obtain h' where
      h': "length (bus_heap b') = length (bus_heap b)" "st_subscribers (stream_at b' p) = st_subscribers (stream_at b p)"
        "stream_rep (stream_at b' p) (h @ g1 @ h')" "subseq h' (concat (map fst ps) @ g)"
        "length h' \<le> length (concat (map fst ps) @ g)" by (auto simp: x now)
    then show ?thesis by (intro conjI exI [of _ "g1 @ h'"]) (auto simp: x list_emb_append_mono)
  qed
qed

section \<open>The whole request\<close>

lemma http_Attach_effect:
  assumes "http_Attach s b = (s', b')" "fs_stream s < length (bus_heap b)"
  defines "st \<equiv> stream_at b (fs_stream s)"
  shows "s' = s\<lparr>fs_busSubscriber := Some (st_nextSubID st), fs_subscriberID := st_nextSubID st\<rparr>"
    and "length (bus_heap b') = length (bus_heap b)"
    and "stream_at b' (fs_stream s) = fst (Stream_AttachSubscriber st)"
  using assms(1,2) by (auto simp: http_Attach_def Stream_AttachSubscriber_def Let_def with_stream_heap st_def)

lemma http_finish_effect:
  "fs_conn (fst (http_finish env s b)) = pe_close env (fs_conn s)"
  "length (bus_heap (snd (http_finish env s b))) = length (bus_heap b)"
  "fs_subscriberID s \<noteq> 0 \<Longrightarrow> fs_stream s < length (bus_heap b) \<Longrightarrow>
     stream_at (snd (http_finish env s b)) (fs_stream s) = Stream_DetachSubscriber (fs_subscriberID s) (stream_at b (fs_stream s))"
  by (auto simp: http_finish_def http_Detach_def with_stream_heap split: prod.splits)

lemma conn_open_Write: "conn_open c \<Longrightarrow> conn_open (fst (conn_Write b c)) \<and> snd (conn_Write b c) = None"
  by (simp add: conn_Write_def conn_open_def)

lemma http_process_open:
  "conn_open (fs_conn s) \<Longrightarrow> http_process conn_Write m s = (s', e) \<Longrightarrow> e = None \<and> conn_open (fs_conn s')"
  by (auto simp: http_process_def http_rebaseTimestamp_def conn_Write_def conn_open_def Let_def split: if_splits prod.splits bool.splits)

lemma http_feed_open:
  "conn_open (fs_conn s) \<Longrightarrow> snd (feed (http_process conn_Write) ms s) = None"
  by (induction ms arbitrary: s) (auto split: prod.splits option.splits dest: http_process_open)

definition tcp_env :: "nat \<Rightarrow> (bytes MediaMessage list \<times> bool) list \<Rightarrow> bytes MediaMessage list \<Rightarrow>
    (bytes MediaMessage list \<times> bool) list \<Rightarrow> Conn play_env" where
  "tcp_env p ps g es =
     \<lparr>pe_write = conn_Write, pe_close = conn_Close, pe_polls = publishing p ps,
      pe_late = with_stream p (publish_frames g), pe_sched = publishing p es\<rparr>"

lemma attached_subscriber:
  assumes "stream_rep st h" "Stream_AttachSubscriber st = (st', i)"
  obtains sub where "gomap_get (st_subscribers st') i = Some sub" "i = st_nextSubID st"
    "unat (sub_cursor sub) = length h" "sub_pendIdx sub = 0" "sub_pending sub = init_replay st"
proof -
  have "unat (sl_nextSeq (st_log st)) = length h" using assms(1) unat_latest by (fastforce simp: stream_rep_def)
  moreover have "i = st_nextSubID st" using assms(2) by (simp add: Stream_AttachSubscriber_def Let_def)
  ultimately show thesis using that AttachSubscriber_sub(1) [OF assms(2)] by simp
qed

text \<open>How far a request has come when its loop starts, and what is left to do when the loop has ended.\<close>

lemma http_stream_starts:
  assumes "p < length (bus_heap b)" "stream_rep (stream_at b p) h" "conn_open conn"
    and "length h + length (concat (map fst ps) @ g) < 2 ^ 64"
    and "http_stream (tcp_env p ps g es) conn p b = ((s', b'), r)"
  obtains hasAudio hasVideo sub h' s2 b2 s3 b3 r3 where
    "viewing p (st_nextSubID (stream_at b p)) sub (h @ h') s2 b2" "subseq h' (concat (map fst ps) @ g)"
    "unat (sub_cursor sub) = length h" "sub_pendIdx sub = 0" "sub_pending sub = init_replay (stream_at b p)"
    "fs_ok s2" "fs_play s2 = None" "conn_open (fs_conn s2)"
    "cn_out (fs_conn s2) = cn_out conn @ Header_Bytes (NewHeader hasAudio hasVideo) @ [0, 0, 0, 0]"
    "http_ProcessMessages conn_Write (publishing p es) s2 b2 = ((s3, b3), r3)"
    "r3 \<noteq> Panicked \<Longrightarrow> r = r3 \<and> cn_out (fs_conn s') = cn_out (fs_conn s3)"
proof -
  let ?st = "stream_at b p" and ?env = "tcp_env p ps g es"
  obtain s1 b1 where at: "http_Attach (http_NewSubscriber conn p) b = (s1, b1)" by fastforce
  have new: "fs_stream (http_NewSubscriber conn p) = p" by (simp add: http_NewSubscriber_def)
  note a = http_Attach_effect [OF at, unfolded new, OF assms(1)]
  obtain b2 ha hv where wt: "http_waitForStreams (pe_polls ?env) (pe_late ?env) p b1 = (b2, ha, hv)" by (metis surj_pair)
  have "stream_rep (stream_at b1 p) h" using assms(2) by (simp add: a(3))
  from http_wait_publishes [of p ps g b1 b2 "(ha, hv)" h] wt this assms(1,4) a(2) obtain h' where
    w: "length (bus_heap b2) = length (bus_heap b)" "st_subscribers (stream_at b2 p) = st_subscribers (stream_at b1 p)"
      "stream_rep (stream_at b2 p) (h @ h')" "subseq h' (concat (map fst ps) @ g)"
    by (auto simp: tcp_env_def)
  obtain c2 where c2: "conn_Write (Header_Bytes (NewHeader ha hv) @ [0, 0, 0, 0]) conn = (c2, None)" "conn_open c2"
    using conn_open_Write [OF assms(3)] by (metis prod.collapse)
  define s2 where "s2 = s1\<lparr>fs_conn := c2, fs_headerWritten := True\<rparr>"
  have s2: "fs_busSubscriber s2 = Some (st_nextSubID ?st)" "fs_stream s2 = p" "fs_ok s2" "fs_play s2 = None" "fs_conn s2 = c2"
    by (simp_all add: s2_def a(1) http_NewSubscriber_def fs_ok_def fs_play_def)
  have hd: "http_WriteHeader conn_Write ha hv s1 = (s2, None)"
    using c2(1) by (simp add: http_WriteHeader_def a(1) http_NewSubscriber_def s2_def)
  obtain s3 b3 r3 where lp: "http_ProcessMessages conn_Write (publishing p es) s2 b2 = ((s3, b3), r3)" by (metis surj_pair)
  have fin: "r = r3 \<and> cn_out (fs_conn s') = cn_out (fs_conn s3)" if "r3 \<noteq> Panicked"
    using assms(5) at wt hd lp that unfolding http_stream_def
    by (cases r3) (auto simp: tcp_env_def http_finish_def http_Detach_def conn_Close_def split: if_splits)
  have "Stream_AttachSubscriber ?st = (stream_at b1 p, st_nextSubID ?st)"
    by (simp add: a(3) Stream_AttachSubscriber_def Let_def)
  from attached_subscriber [OF assms(2) this] obtain sub where
    sub: "gomap_get (st_subscribers (stream_at b2 p)) (st_nextSubID ?st) = Some sub"
      "unat (sub_cursor sub) = length h" "sub_pendIdx sub = 0" "sub_pending sub = init_replay ?st" unfolding w(2) by metis
  have "viewing p (st_nextSubID ?st) sub (h @ h') s2 b2" using s2 w(1,3) sub assms(1) by (simp add: viewing_def)
  moreover have "cn_out (fs_conn s2) = cn_out conn @ Header_Bytes (NewHeader ha hv) @ [0, 0, 0, 0]"
    using c2(1) by (auto simp: s2(5) conn_Write_def split: if_splits)
  ultimately show thesis using that [OF _ w(4) sub(2-4) s2(3,4) _ _ lp fin] s2(5) c2(2) by simp
qed

lemma http_viewer_tags:
  assumes "p < length (bus_heap b)" "stream_rep (stream_at b p) h" "conn_open conn"
    and "length h + length (concat (map fst ps) @ g @ concat (map fst es)) < 2 ^ 64"
    and "http_stream (tcp_env p ps g es) conn p b = ((s', b'), r)"
  shows "(r = Running \<or> r = Returned None) \<and>
    (\<exists>hasAudio hasVideo n live.
       cn_out (fs_conn s') = cn_out conn @ Header_Bytes (NewHeader hasAudio hasVideo) @ [0, 0, 0, 0] @
         concat (map tag_bytes (viewer_tags (take n (init_replay (stream_at b p)) @ live))) \<and>
       (live \<noteq> [] \<longrightarrow> length (init_replay (stream_at b p)) \<le> n) \<and>
       subseq live (concat (map fst ps) @ g @ concat (map fst es)))"
proof -
  let ?st = "stream_at b p"
  have "length h + length (concat (map fst ps) @ g) < 2 ^ 64" using assms(4) by simp
  from http_stream_starts [OF assms(1-3) this assms(5)] obtain ha hv sub h' s2 b2 s3 b3 r3 where
    v2: "viewing p (st_nextSubID ?st) sub (h @ h') s2 b2" and h': "subseq h' (concat (map fst ps) @ g)"
    and sub: "unat (sub_cursor sub) = length h" "sub_pendIdx sub = 0" "sub_pending sub = init_replay ?st"
    and ok: "fs_ok s2" "fs_play s2 = None" "conn_open (fs_conn s2)"
    and hd: "cn_out (fs_conn s2) = cn_out conn @ Header_Bytes (NewHeader ha hv) @ [0, 0, 0, 0]"
    and lp: "http_ProcessMessages conn_Write (publishing p es) s2 b2 = ((s3, b3), r3)"
    and fin: "r3 \<noteq> Panicked \<Longrightarrow> r = r3 \<and> cn_out (fs_conn s') = cn_out (fs_conn s3)" by metis
  have "length (h @ h') + length (concat (map fst es)) < 2 ^ 64" using list_emb_length [OF h'] assms(4) by simp
  from http_loop_viewed [OF lp v2 this] sub obtain pend live where
    r3: "r3 \<noteq> Panicked" and fd: "feed (http_process conn_Write) (pend @ live) s2 = (s3, loop_error r3)"
    and v: "viewed sub (h' @ concat (map fst es)) pend live" by auto
  have e: "loop_error r3 = None" using http_feed_open [OF ok(3), of "pend @ live"] fd by simp
  have "prefix pend (init_replay ?st)" using v sub by (simp add: viewed_def)
  then have pend: "pend = take (length pend) (init_replay ?st)" by (auto simp: prefix_def)
  have "subseq (h' @ concat (map fst es)) ((concat (map fst ps) @ g) @ concat (map fst es))"
    by (rule list_emb_append_mono) (use h' in simp_all)
  then have sq: "subseq live (concat (map fst ps) @ g @ concat (map fst es))"
    using v by (auto simp: viewed_def intro: subseq_order.order_trans)
  have "live \<noteq> [] \<longrightarrow> length (init_replay ?st) \<le> length pend" using v sub by (auto simp: viewed_def)
  moreover have "cn_out (fs_conn s') = cn_out conn @ Header_Bytes (NewHeader ha hv) @ [0, 0, 0, 0] @
      concat (map tag_bytes (viewer_tags (take (length pend) (init_replay ?st) @ live)))"
    using tcp.http.feed_viewer [of "pend @ live" s2 s3] fd e ok fin [OF r3] hd pend [symmetric] by simp
  moreover have "r = Running \<or> r = Returned None" using fin [OF r3] r3 e by (cases r3) (simp_all add: loop_error_def)
  ultimately show ?thesis using sq by blast
qed



text \<open>Interference that never frees a stream.\<close>

definition heap_grows :: "(Bus \<Rightarrow> Bus) \<Rightarrow> bool" where
  "heap_grows f \<longleftrightarrow> (\<forall>b. length (bus_heap b) \<le> length (bus_heap (f b)))"

lemma http_loop_keeps:
  assumes "list_all (heap_grows \<circ> fst) sched" "http_ProcessMessages write sched s b = ((s', b'), r)"
  shows "length (bus_heap b) \<le> length (bus_heap b') \<and> fs_stream s' = fs_stream s \<and> fs_subscriberID s' = fs_subscriberID s"
  using assms
proof (induction sched arbitrary: s b)
  case (Cons x sched)
  obtain others ctxDone where ev: "x = (others, ctxDone)" by (cases x)
  have g: "length (bus_heap b) \<le> length (bus_heap (others b))" using Cons.prems(1) by (simp add: heap_grows_def ev)
  have rd: "length (bus_heap b2) = length (bus_heap b1)" if "read_bus_subscriber p i b1 = Some (b2, x)" for p i b1 b2 x
    using that by (auto simp: read_bus_subscriber_def Let_def with_stream_heap split: option.splits prod.splits bool.splits)
  have go: ?case if "http_ProcessMessages write sched s1 b1 = ((s', b'), r)" "length (bus_heap (others b)) = length (bus_heap b1)"
    "fs_stream s1 = fs_stream s" "fs_subscriberID s1 = fs_subscriberID s" for s1 b1
    using Cons.IH [OF _ that(1)] Cons.prems(1) that g by auto
  show ?case
  proof (cases "fs_busSubscriber s")
    case None
    then show ?thesis using Cons.prems(2) by (simp add: ev)
  next
    case (Some i)
    consider "read_bus_subscriber (fs_stream s) i (others b) = None"
      | b1 where "read_bus_subscriber (fs_stream s) i (others b) = Some (b1, None)"
      | b1 msg where "read_bus_subscriber (fs_stream s) i (others b) = Some (b1, Some msg)"
      by (metis option.exhaust surj_pair)
    then show ?thesis
    proof cases
      case 1
      then show ?thesis using Cons.prems(2) Some g go [of s "others b"] by (simp add: ev split: if_splits)
    next
      case (2 b1)
      then show ?thesis using Cons.prems(2) Some g rd [OF 2] by (simp add: ev)
    next
      case (3 b1 msg)
      obtain s1 e where pm: "http_process write msg s = (s1, e)" by fastforce
      then show ?thesis using Cons.prems(2) Some 3 g rd [OF 3] http_process_fields [OF pm] go [of s1 b1]
        by (cases e) (simp_all add: ev)
    qed
  qed
qed simp

lemma http_wait_keeps:
  assumes "list_all (heap_grows \<circ> fst) polls" "heap_grows late"
  shows "length (bus_heap b) \<le> length (bus_heap (fst (http_waitForStreams polls late p b)))"
  using assms
proof (induction polls late p b rule: http_waitForStreams.induct)
  case (2 others ctxDone polls late p b)
  then have "length (bus_heap b) \<le> length (bus_heap (others b))" by (simp add: heap_grows_def)
  with 2 show ?case by (auto simp: Let_def intro: order_trans)
qed (simp add: heap_grows_def Let_def)

text \<open>
  C19. When the handler returns, its subscriber is gone from the stream, whatever the rest of
  the server did meanwhile and also when a write to the viewer fails or panics: no viewer
  keeps a stream alive after it left.
\<close>

theorem http_handler_detaches:
  assumes "p < length (bus_heap b)" "st_nextSubID (stream_at b p) \<noteq> 0"
    and "list_all (heap_grows \<circ> fst) (pe_polls env)" "heap_grows (pe_late env)" "list_all (heap_grows \<circ> fst) (pe_sched env)"
    and "http_stream env conn p b = ((s', b'), r)" "r \<noteq> Running"
  shows "gomap_get (st_subscribers (stream_at b' p)) (st_nextSubID (stream_at b p)) = None"
proof -
  let ?i = "st_nextSubID (stream_at b p)"
  have fin: "gomap_get (st_subscribers (stream_at (snd (http_finish env s c)) p)) ?i = None"
    if "fs_stream s = p" "fs_subscriberID s = ?i" "p < length (bus_heap c)" for s c
    using http_finish_effect(3) [of s c env] that assms(2) by (simp add: Stream_DetachSubscriber_def)
  obtain s1 b1 where at: "http_Attach (http_NewSubscriber conn p) b = (s1, b1)" by fastforce
  have new: "fs_stream (http_NewSubscriber conn p) = p" by (simp add: http_NewSubscriber_def)
  note a = http_Attach_effect [OF at, unfolded new, OF assms(1)]
  obtain b2 ha hv where wt: "http_waitForStreams (pe_polls env) (pe_late env) p b1 = (b2, ha, hv)" by (metis surj_pair)
  have lt2: "p < length (bus_heap b2)" using http_wait_keeps [OF assms(3,4), of b1 p] wt a(2) assms(1) by simp
  obtain s2 e where hd: "http_WriteHeader (pe_write env) ha hv s1 = (s2, e)" by fastforce
  have s2: "fs_stream s2 = p" "fs_subscriberID s2 = ?i"
    using hd by (auto simp: http_WriteHeader_def a(1) http_NewSubscriber_def Let_def split: if_splits prod.splits option.splits)
  obtain s3 b3 r3 where lp: "http_ProcessMessages (pe_write env) (pe_sched env) s2 b2 = ((s3, b3), r3)" by (metis surj_pair)
  note k = http_loop_keeps [OF assms(5) lp]
  have "b' = snd (http_finish env s2 b2) \<or> b' = snd (http_finish env s3 b3)"
    using assms(6,7) at wt hd lp by (cases e; cases r3) (auto simp: http_stream_def prod_eq_iff)
  then show ?thesis using fin [of s2 b2] fin [of s3 b3] s2 k lt2 by auto
qed

theorem http_handler_detaches_witness:
  "\<exists>s' b' r. http_stream (tcp_env 0 [] [] [([], True)]) (example_conn\<lparr>cn_budget := Some 0\<rparr>) 0
      \<lparr>bus_streams = [(example_key, 0)], bus_heap = [NewStream example_key]\<rparr> = ((s', b'), r) \<and>
     gomap_get (st_subscribers (stream_at b' 0)) 1 = None"
proof -
  let ?b = "\<lparr>bus_streams = [(example_key, 0)], bus_heap = [NewStream example_key]\<rparr>"
  let ?env = "tcp_env 0 [] [] [([], True)]" and ?c = "example_conn\<lparr>cn_budget := Some 0\<rparr>"
  obtain s' b' r where h: "http_stream ?env ?c 0 ?b = ((s', b'), r)" by (metis surj_pair)
  moreover have "r \<noteq> Running" using h
    by (auto simp: http_stream_def tcp_env_def http_Attach_def http_NewSubscriber_def http_WriteHeader_def conn_Write_def
        publishing_def Let_def split: prod.splits)
  moreover have "heap_grows (with_stream p f)" for p f by (simp add: heap_grows_def with_stream_heap)
  moreover have "st_nextSubID (stream_at ?b 0) = 1" by (simp add: stream_at_def NewStream_rep)
  ultimately show ?thesis using http_handler_detaches [of 0 ?b ?env ?c s' b' r]
    by (simp add: tcp_env_def publishing_def)
qed

end
