(* ===== verification/WS_FLV.thy ===== *)
theory WS_FLV
  imports HTTP_FLV
begin

text \<open>
  WebSocket-FLV playback (\<open>internal/svc/wsflv\<close>). The WebSocket library is not part of the
  program: its \<open>WriteMessage\<close> and the result of its \<open>Upgrade\<close> are parameters. The source
  repeats the HTTP-FLV subscriber with a connection of its own; the lemmas show that it does
  the same with every FLV tag sent as one binary frame.
\<close>

section \<open>Subscriber\<close>

type_synonym 'c ws_writer = "nat \<Rightarrow> bytes \<Rightarrow> 'c \<Rightarrow> 'c \<times> go_error option"

definition ws_NewSubscriber :: "'c \<Rightarrow> nat \<Rightarrow> 'c FlvSubscriber" where
  "ws_NewSubscriber conn stream =
     \<lparr>fs_conn = conn, fs_busSubscriber = None, fs_stream = stream, fs_subscriberID = 0,
      fs_headerWritten = False, fs_gotKeyframe = False, fs_tsOffset = 0, fs_tsBaseSet = False\<rparr>"

definition ws_WriteHeader :: "'c ws_writer \<Rightarrow> bool \<Rightarrow> bool \<Rightarrow> 'c FlvSubscriber \<Rightarrow> 'c FlvSubscriber \<times> go_error option" where
  "ws_WriteHeader WriteMessage hasAudio hasVideo s =
     (if fs_headerWritten s then (s, None)
      else
        (let headerBytes = Header_Bytes (NewHeader hasAudio hasVideo);
             prevSize = replicate 4 0;
             frame = replicate (length headerBytes + length prevSize) 0;
             frame = write_at 0 headerBytes frame;
             frame = write_at (length headerBytes) prevSize frame
         in (case WriteMessage 2 frame (fs_conn s) of
               (c, Some e) \<Rightarrow> (s\<lparr>fs_conn := c\<rparr>, Some e)
             | (c, None) \<Rightarrow> (s\<lparr>fs_conn := c, fs_headerWritten := True\<rparr>, None))))"

definition ws_rebaseTimestamp :: "bytes MediaMessage \<Rightarrow> 'c FlvSubscriber \<Rightarrow> 'c FlvSubscriber \<times> u32" where
  "ws_rebaseTimestamp msg s =
     (if mm_IsInit msg then (s, 0)
      else
        (let s = (if \<not> fs_tsBaseSet s then s\<lparr>fs_tsOffset := mm_Timestamp msg, fs_tsBaseSet := True\<rparr> else s)
         in if mm_Timestamp msg < fs_tsOffset s then (s, 0)
            else (s, mm_Timestamp msg - fs_tsOffset s)))"

definition ws_process :: "'c ws_writer \<Rightarrow> bytes MediaMessage \<Rightarrow> 'c FlvSubscriber \<Rightarrow> 'c FlvSubscriber \<times> go_error option" where
  "ws_process WriteMessage msg s =
     (if \<not> fs_gotKeyframe s \<and> \<not> mm_IsInit msg \<and>
         \<not> (mm_Type msg = MessageTypeVideo \<and> IsVideoKeyframe (mm_Payload msg)) then (s, None)
      else
        (let s = (if \<not> fs_gotKeyframe s \<and> \<not> mm_IsInit msg then s\<lparr>fs_gotKeyframe := True\<rparr> else s)
         in (case TagTypeForMessage (Some msg) of
               (_, False) \<Rightarrow> (s, None)
             | (tagType, True) \<Rightarrow>
                 (case ws_rebaseTimestamp msg s of (s, ts) \<Rightarrow>
                  let tagBuf = AppendTag [] tagType ts (mm_Payload msg)
                  in (case WriteMessage 2 tagBuf (fs_conn s) of (c, werr) \<Rightarrow> (s\<lparr>fs_conn := c\<rparr>, werr))))))"

fun ws_ProcessMessages ::
    "'c ws_writer \<Rightarrow> turn list \<Rightarrow> 'c FlvSubscriber \<Rightarrow> Bus \<Rightarrow> ('c FlvSubscriber \<times> Bus) \<times> loop_result" where
  "ws_ProcessMessages WriteMessage [] s b =
     ((s, b), if fs_busSubscriber s = None then Returned None else Running)"
| "ws_ProcessMessages WriteMessage ((others, ctxDone) # sched) s b =
     (case fs_busSubscriber s of
        None \<Rightarrow> ((s, b), Returned None)
      | Some i \<Rightarrow>
          (case read_bus_subscriber (fs_stream s) i (others b) of
             None \<Rightarrow> if ctxDone then ((s, others b), Returned None)
                     else ws_ProcessMessages WriteMessage sched s (others b)
           | Some (b', None) \<Rightarrow> ((s, b'), Panicked)
           | Some (b', Some msg) \<Rightarrow>
               (case ws_process WriteMessage msg s of
                  (s', Some werr) \<Rightarrow> ((s', b'), Returned (Some werr))
                | (s', None) \<Rightarrow> ws_ProcessMessages WriteMessage sched s' b')))"

definition ws_Attach :: "'c FlvSubscriber \<Rightarrow> Bus \<Rightarrow> 'c FlvSubscriber \<times> Bus" where
  "ws_Attach s b =
     (case Stream_AttachSubscriber (stream_at b (fs_stream s)) of (st, i) \<Rightarrow>
        (s\<lparr>fs_busSubscriber := Some i, fs_subscriberID := i\<rparr>, with_stream (fs_stream s) (\<lambda>_. st) b))"

definition ws_Detach :: "'c FlvSubscriber \<Rightarrow> Bus \<Rightarrow> 'c FlvSubscriber \<times> Bus" where
  "ws_Detach s b =
     (if fs_subscriberID s \<noteq> 0
      then (s\<lparr>fs_subscriberID := 0, fs_busSubscriber := None\<rparr>,
            with_stream (fs_stream s) (Stream_DetachSubscriber (fs_subscriberID s)) b)
      else (s, b))"

section \<open>Handler\<close>

fun ws_waitForStreams :: "turn list \<Rightarrow> (Bus \<Rightarrow> Bus) \<Rightarrow> nat \<Rightarrow> Bus \<Rightarrow> Bus \<times> bool \<times> bool" where
  "ws_waitForStreams [] late p b =
     (let b = late b in (b, Stream_HasAudioInit (stream_at b p), Stream_HasVideoInit (stream_at b p)))"
| "ws_waitForStreams ((others, ctxDone) # polls) late p b =
     (let b = others b;
          hasAudio = Stream_HasAudioInit (stream_at b p);
          hasVideo = Stream_HasVideoInit (stream_at b p)
      in if hasAudio \<and> hasVideo then (b, hasAudio, hasVideo)
         else if ctxDone then (b, hasAudio, hasVideo)
         else ws_waitForStreams polls late p b)"

record 'c ws_env =
  we_WriteMessage :: "'c ws_writer"
  we_Close :: "'c \<Rightarrow> 'c"
  we_polls :: "turn list"
  we_late :: "Bus \<Rightarrow> Bus"
  we_sched :: "turn list"

definition ws_stream_path :: "string \<Rightarrow> (string \<times> string) option" where
  "ws_stream_path path =
     (let urlPath = TrimPrefix path ''/ws/'' in
      if urlPath = path then None
      else (case SplitN2 urlPath (CHR ''/'') of [app, name] \<Rightarrow> Some (app, name) | _ \<Rightarrow> None))"

definition ws_finish :: "'c ws_env \<Rightarrow> 'c FlvSubscriber \<Rightarrow> Bus \<Rightarrow> 'c FlvSubscriber \<times> Bus" where
  "ws_finish env s b =
     (case ws_Detach s b of (s, b) \<Rightarrow> (s\<lparr>fs_conn := we_Close env (fs_conn s)\<rparr>, b))"

definition ws_stream :: "'c ws_env \<Rightarrow> 'c \<Rightarrow> nat \<Rightarrow> Bus \<Rightarrow> ('c FlvSubscriber \<times> Bus) \<times> loop_result" where
  "ws_stream env conn p b =
     (case ws_Attach (ws_NewSubscriber conn p) b of (s, b) \<Rightarrow>
      (case ws_waitForStreams (we_polls env) (we_late env) p b of (b, hasAudio, hasVideo) \<Rightarrow>
       (case ws_WriteHeader (we_WriteMessage env) hasAudio hasVideo s of
          (s, Some e) \<Rightarrow> (ws_finish env s b, Returned None)
        | (s, None) \<Rightarrow>
            (case ws_ProcessMessages (we_WriteMessage env) (we_sched env) s b of
               ((s, b), Running) \<Rightarrow> ((s, b), Running)
             | ((s, b), r) \<Rightarrow> (ws_finish env s b, r)))))"

text \<open>\<open>upgraded\<close>: the connection that \<open>Upgrade\<close> returns, or \<open>None\<close> when it failed and answered itself.\<close>

definition ws_ServeHTTP ::
    "'c ws_env \<Rightarrow> 'c option \<Rightarrow> flv_request \<Rightarrow> Bus \<Rightarrow> (('c FlvSubscriber \<times> Bus) \<times> loop_result) option http_result" where
  "ws_ServeHTTP env upgraded r b =
     (if rq_Method r \<noteq> ''GET'' then HttpError 405 ''''
      else
        (case ws_stream_path (rq_Path r) of
           None \<Rightarrow> HttpError 400 ''''
         | Some (app, name) \<Rightarrow>
             (case Registry_Get (NewStreamKey app name) b of
                None \<Rightarrow> HttpError 404 ''''
              | Some p \<Rightarrow>
                  if \<not> Stream_HasPublisher (stream_at b p) then HttpError 404 ''''
                  else
                    (case upgraded of
                       None \<Rightarrow> Served None
                     | Some conn \<Rightarrow> Served (Some (ws_stream env conn p b))))))"

definition ws_flv_route ::
    "KeySet option \<Rightarrow> 'c ws_env \<Rightarrow> 'c option \<Rightarrow> Bus \<Rightarrow> flv_request \<Rightarrow> (('c FlvSubscriber \<times> Bus) \<times> loop_result) option http_result" where
  "ws_flv_route playKeys env upgraded b =
     (if playKeys = None then (\<lambda>r. ws_ServeHTTP env upgraded r b)
      else Gate playKeys rq_RawQuery (\<lambda>r. ws_ServeHTTP env upgraded r b))"

section \<open>The same player on another connection\<close>

lemma ws_is_http:
  "ws_NewSubscriber = http_NewSubscriber" "ws_Attach = http_Attach" "ws_Detach = http_Detach"
  "ws_rebaseTimestamp = http_rebaseTimestamp"
  by (simp_all add: fun_eq_iff ws_NewSubscriber_def http_NewSubscriber_def ws_Attach_def http_Attach_def
      ws_Detach_def http_Detach_def ws_rebaseTimestamp_def http_rebaseTimestamp_def)

lemma ws_WriteHeader_http: "ws_WriteHeader wm ha hv s = http_WriteHeader (wm 2) ha hv s"
proof -
  have "length (Header_Bytes h) = 9" for h by (simp add: Header_layout)
  then show ?thesis by (simp add: ws_WriteHeader_def http_WriteHeader_def write_at_def eval_nat_numeral Let_def)
qed

lemma ws_process_http: "ws_process wm = http_process (wm 2)"
  by (simp add: fun_eq_iff ws_process_def http_process_def ws_is_http)

lemma ws_loop_http: "ws_ProcessMessages wm sched s b = http_ProcessMessages (wm 2) sched s b"
  by (induction "wm 2" sched s b rule: http_ProcessMessages.induct)
    (auto simp: ws_process_http split: option.splits prod.splits)

lemma ws_wait_http: "ws_waitForStreams polls late p b = http_waitForStreams polls late p b"
  by (induction polls late p b rule: http_waitForStreams.induct) (auto simp: Let_def)

definition as_http :: "'c ws_env \<Rightarrow> 'c play_env" where
  "as_http env = \<lparr>pe_write = we_WriteMessage env 2, pe_close = we_Close env, pe_polls = we_polls env,
     pe_late = we_late env, pe_sched = we_sched env\<rparr>"

lemma as_http_sel:
  "pe_write (as_http env) = we_WriteMessage env 2" "pe_polls (as_http env) = we_polls env"
  "pe_late (as_http env) = we_late env" "pe_sched (as_http env) = we_sched env"
  by (simp_all add: as_http_def)

lemma ws_finish_http: "ws_finish env = http_finish (as_http env)"
  by (simp add: fun_eq_iff ws_finish_def http_finish_def ws_is_http as_http_def)

text \<open>
  C20. The two FLV transports behave alike: from the moment the WebSocket connection is up, a
  viewer over WebSocket is served exactly as one over HTTP whose writes are the binary frames
  of that connection, with the same effect on the bus and the same outcome.
\<close>

theorem ws_stream_is_http_stream: "ws_stream env conn p b = http_stream (as_http env) conn p b"
  unfolding ws_stream_def http_stream_def ws_is_http ws_wait_http ws_WriteHeader_http ws_loop_http ws_finish_http as_http_sel ..

text \<open>
  A viewer over WebSocket receives the same bytes: with any WebSocket connection whose
  binary frames arrive in order when \<open>WriteMessage\<close> reports no error, what was sent after a
  sequence of messages without a write error is the FLV encoding of the viewer's tags.
\<close>

theorem ws_viewer_gets_tags:
  assumes "flv_conn (WriteMessage 2) sent" "fs_ok s" "fs_play s = None"
    and "feed (ws_process WriteMessage) ms s = (s', None)"
  shows "sent (fs_conn s') = sent (fs_conn s) @ concat (map tag_bytes (viewer_tags ms))"
  using flv_conn.http_player [OF assms(1)] assms(2-4)
  by (intro player.feed_viewer [where step = "ws_process WriteMessage" and play_of = fs_play and ok = fs_ok
        and out = "\<lambda>s. sent (fs_conn s)"] player.intro) (auto simp: ws_process_http)

theorem ws_viewer_gets_tags_witness:
  "\<exists>s'. feed (ws_process (\<lambda>t b c. (c @ [(t, b)], None))) [example_frame]
      (ws_NewSubscriber ([] :: (nat \<times> bytes) list) 0) = (s', None) \<and>
     concat (map snd (fs_conn s')) = concat (map tag_bytes (viewer_tags [example_frame]))"
proof -
  let ?s = "ws_NewSubscriber ([] :: (nat \<times> bytes) list) 0" and ?w = "\<lambda>t b c. (c @ [(t, b)], None)"
  obtain s' where f: "feed (ws_process ?w) [example_frame] ?s = (s', None)"
    by (auto simp: ws_process_def ws_rebaseTimestamp_def ws_NewSubscriber_def TagTypeForMessage_def IsVideoKeyframe_def)
  have "flv_conn (?w 2) (\<lambda>c :: (nat \<times> bytes) list. concat (map snd c))" by unfold_locales auto
  from ws_viewer_gets_tags [OF this _ _ f] f show ?thesis
    by (auto simp: ws_NewSubscriber_def fs_ok_def fs_play_def)
qed

end
