(* ===== verification/Packager_Args.thy ===== *)
theory Packager_Args
  imports Go_Path Go_Prelude
begin

text \<open>
  The ffmpeg command line of a packager (\<open>internal/svc/pkger/args.go\<close>) and the data it is
  built from (\<open>packager.go\<close>, \<open>service.go\<close>). Go's \<open>%d\<close> of a rung field is \<open>itoa\<close>, of an index
  \<open>utoa\<close>.
\<close>

section \<open>Data\<close>

datatype Format = FormatHLS | FormatDASH

definition format_text :: "Format \<Rightarrow> string" where
  "format_text f = (case f of FormatHLS \<Rightarrow> ''hls'' | FormatDASH \<Rightarrow> ''dash'')"

record PkRung =
  pr_Name :: string
  pr_Width :: int
  pr_Height :: int
  pr_VideoBitrate :: int
  pr_AudioBitrate :: int
  pr_AudioOnly :: bool

record Options =
  op_LowLatency :: bool
  op_Ladder :: "PkRung list"

text \<open>
  \<open>pk_cmd\<close>: the arguments ffmpeg was started with, \<open>None\<close> before; \<open>pk_cancel\<close>: the cancel
  function is set. Times are nanoseconds.
\<close>

record Packager =
  pk_app :: string
  pk_name :: string
  pk_format :: Format
  pk_sourceURL :: string
  pk_workDir :: string
  pk_manifest :: string
  pk_opts :: Options
  pk_cmd :: "string list option"
  pk_cancel :: bool
  pk_startedAt :: int
  pk_lastAccess :: int
  pk_stopped :: bool
  pk_startErr :: "go_error option"

definition manifestName :: "Format \<Rightarrow> Options \<Rightarrow> string" where
  "manifestName format opts = (if format = FormatDASH then ''manifest.mpd'' else ''index.m3u8'')"

definition newPackager :: "string \<Rightarrow> string \<Rightarrow> Format \<Rightarrow> string \<Rightarrow> string \<Rightarrow> Options \<Rightarrow> Packager" where
  "newPackager app name format sourceURL workDir opts =
     \<lparr>pk_app = app, pk_name = name, pk_format = format, pk_sourceURL = sourceURL, pk_workDir = workDir,
      pk_manifest = manifestName format opts, pk_opts = opts, pk_cmd = None, pk_cancel = False,
      pk_startedAt = 0, pk_lastAccess = 0, pk_stopped = False, pk_startErr = None\<rparr>"

section \<open>One rendition\<close>

definition singleRenditionArgs :: "Packager \<Rightarrow> string list \<Rightarrow> string list" where
  "singleRenditionArgs p common =
     (let args = common @ [''-c'', ''copy''];
          manifestPath = filepath_Join [pk_workDir p, pk_manifest p];
          low = op_LowLatency (pk_opts p)
      in if pk_format p = FormatDASH then
           (let segDur = (if low then ''1'' else ''2'')
            in args @ [''-f'', ''dash'', ''-seg_duration'', segDur, ''-window_size'', ''5'',
                 ''-remove_at_exit'', ''1'', ''-y'', manifestPath])
         else
           (let segPattern = filepath_Join [pk_workDir p, ''seg_%05d.ts''];
                hlsTime = ''2'';
                hlsFlags = ''delete_segments+independent_segments'';
                hlsArgs = [''-f'', ''hls'', ''-hls_list_size'', ''5''];
                hlsTime = (if low then ''1'' else hlsTime);
                hlsFlags = (if low then ''delete_segments+independent_segments+program_date_time'' else hlsFlags);
                hlsArgs = (if low then hlsArgs @ [''-hls_segment_type'', ''fmp4''] @
                             [''-hls_fmp4_init_filename'', ''init.mp4''] else hlsArgs);
                segPattern = (if low then filepath_Join [pk_workDir p, ''seg_%05d.m4s''] else segPattern);
                hlsArgs = hlsArgs @ [''-hls_time'', hlsTime, ''-hls_flags'', hlsFlags,
                  ''-hls_segment_filename'', segPattern, ''-y'', manifestPath]
            in args @ hlsArgs))"

section \<open>Adaptive bitrate\<close>

fun splitLadder :: "PkRung list \<Rightarrow> PkRung list \<times> PkRung list" where
  "splitLadder [] = ([], [])"
| "splitLadder (r # ladder) =
     (case splitLadder ladder of (video, audio) \<Rightarrow>
        if pr_AudioOnly r then (video, r # audio) else (r # video, audio))"

definition audioBitrate :: "PkRung list \<Rightarrow> int" where
  "audioBitrate ladder = foldl (\<lambda>best r. if pr_AudioBitrate r > best then pr_AudioBitrate r else best) 128 ladder"

definition buildVarStreamMap :: "PkRung list \<Rightarrow> PkRung list \<Rightarrow> string" where
  "buildVarStreamMap video audio =
     (let parts = map (\<lambda>(i, r). ''v:'' @ utoa i @ '',a:'' @ utoa i @ '',name:'' @ pr_Name r) (enumerate 0 video) @
                  map (\<lambda>(j, r). ''a:'' @ utoa (length video + j) @ '',name:'' @ pr_Name r) (enumerate 0 audio)
      in Join parts '' '')"

definition hlsABRArgs :: "string \<Rightarrow> string \<Rightarrow> Options \<Rightarrow> PkRung list \<Rightarrow> PkRung list \<Rightarrow> string list" where
  "hlsABRArgs workDir manifest opts video audio =
     (let hlsTime = (if op_LowLatency opts then ''1'' else ''2'');
          hlsFlags = (if op_LowLatency opts then ''delete_segments+independent_segments+program_date_time''
                      else ''delete_segments+independent_segments'');
          streamMap = buildVarStreamMap video audio
      in [''-f'', ''hls'', ''-hls_time'', hlsTime, ''-hls_list_size'', ''5'', ''-hls_flags'', hlsFlags,
          ''-master_pl_name'', manifest, ''-var_stream_map'', streamMap,
          ''-hls_segment_filename'', filepath_Join [workDir, ''%v'', ''seg_%05d.ts''],
          ''-y'', filepath_Join [workDir, ''%v'', ''index.m3u8'']])"

definition dashABRArgs :: "string \<Rightarrow> bool \<Rightarrow> string list" where
  "dashABRArgs workDir lowLatency =
     (let segDur = (if lowLatency then ''1'' else ''2'')
      in [''-f'', ''dash'', ''-seg_duration'', segDur, ''-window_size'', ''5'', ''-remove_at_exit'', ''1'',
          ''-adaptation_sets'', ''id=0,streams=v id=1,streams=a'',
          ''-y'', filepath_Join [workDir, ''manifest.mpd'']])"

definition video_rung_args :: "string \<Rightarrow> string \<Rightarrow> nat \<Rightarrow> PkRung \<Rightarrow> string list" where
  "video_rung_args gop abr i r =
     [''-map'', ''0:v:0'', ''-map'', ''0:a:0?'',
      ''-c:v:'' @ utoa i, ''libx264'',
      ''-preset:v:'' @ utoa i, ''veryfast'',
      ''-tune:v:'' @ utoa i, ''zerolatency'',
      ''-b:v:'' @ utoa i, itoa (pr_VideoBitrate r) @ ''k'',
      ''-s:v:'' @ utoa i, itoa (pr_Width r) @ ''x'' @ itoa (pr_Height r),
      ''-g:v:'' @ utoa i, gop,
      ''-keyint_min:v:'' @ utoa i, gop,
      ''-c:a:'' @ utoa i, ''aac'',
      ''-b:a:'' @ utoa i, abr]"

definition audio_rung_args :: "nat \<Rightarrow> PkRung \<Rightarrow> string list" where
  "audio_rung_args idx r =
     (let bitrate = (if pr_AudioBitrate r \<le> 0 then 64 else pr_AudioBitrate r)
      in [''-map'', ''0:a:0'', ''-c:a:'' @ utoa idx, ''aac'', ''-b:a:'' @ utoa idx, itoa bitrate @ ''k''])"

definition abrArgs :: "Packager \<Rightarrow> string list \<Rightarrow> string list" where
  "abrArgs p common =
     (case splitLadder (op_Ladder (pk_opts p)) of (video, audio) \<Rightarrow>
      let gop = (if op_LowLatency (pk_opts p) then ''24'' else ''48'');
          abr = itoa (audioBitrate (op_Ladder (pk_opts p))) @ ''k'';
          args = common @ concat (map (\<lambda>(i, r). video_rung_args gop abr i r) (enumerate 0 video));
          args = args @ concat (map (\<lambda>(j, r). audio_rung_args (length video + j) r) (enumerate 0 audio))
      in if pk_format p = FormatDASH then args @ dashABRArgs (pk_workDir p) (op_LowLatency (pk_opts p))
         else args @ hlsABRArgs (pk_workDir p) (pk_manifest p) (pk_opts p) video audio)"

definition ffmpegArgs :: "Packager \<Rightarrow> string list" where
  "ffmpegArgs p =
     (let common = [''-hide_banner'', ''-loglevel'', ''warning'', ''-fflags'', ''+nobuffer'', ''-i'', pk_sourceURL p]
      in if length (op_Ladder (pk_opts p)) > 0 then abrArgs p common else singleRenditionArgs p common)"

section \<open>Facts\<close>

lemma splitLadder_filter:
  "splitLadder ladder = (filter (\<lambda>r. \<not> pr_AudioOnly r) ladder, filter pr_AudioOnly ladder)"
  by (induction ladder) auto

lemma splitLadder_length: "splitLadder ladder = (video, audio) \<Longrightarrow> length video + length audio = length ladder"
  by (induction ladder arbitrary: video audio) (auto split: prod.splits if_splits)

lemma audioBitrate_max: "audioBitrate ladder = fold max (map pr_AudioBitrate ladder) 128"
proof -
  have "foldl (\<lambda>best r. if pr_AudioBitrate r > best then pr_AudioBitrate r else best) b ladder =
      fold max (map pr_AudioBitrate ladder) b" for b
    by (induction ladder arbitrary: b) (auto simp: max_def)
  then show ?thesis by (simp add: audioBitrate_def)
qed

text \<open>The outputs that ffmpeg is asked for, by audio index.\<close>

lemma abr_audio_outputs:
  assumes "k < length (op_Ladder (pk_opts p))"
  shows "''-c:a:'' @ utoa k \<in> set (abrArgs p common)"
proof -
  obtain video audio where sp: "splitLadder (op_Ladder (pk_opts p)) = (video, audio)" by fastforce
  define v where "v = concat (map (\<lambda>(i, r). video_rung_args (if op_LowLatency (pk_opts p) then ''24'' else ''48'')
      (itoa (audioBitrate (op_Ladder (pk_opts p))) @ ''k'') i r) (enumerate 0 video))"
  define a where "a = concat (map (\<lambda>(j, r). audio_rung_args (length video + j) r) (enumerate 0 audio))"
  have len: "length video + length audio = length (op_Ladder (pk_opts p))" by (rule splitLadder_length [OF sp])
  have "''-c:a:'' @ utoa k \<in> set v \<union> set a"
  proof (cases "k < length video")
    case True
    then have "(k, video ! k) \<in> set (enumerate 0 video)" by (auto simp: in_set_enumerate_eq)
    then show ?thesis by (auto simp: v_def video_rung_args_def intro!: bexI [of _ "(k, video ! k)"])
  next
    case False
    then have "(k - length video, audio ! (k - length video)) \<in> set (enumerate 0 audio)"
      using assms len by (auto simp: in_set_enumerate_eq)
    then show ?thesis using False
      by (auto simp: a_def audio_rung_args_def Let_def intro!: bexI [of _ "(k - length video, audio ! (k - length video))"])
  qed
  moreover have "set v \<union> set a \<subseteq> set (abrArgs p common)"
    by (auto simp: abrArgs_def sp v_def a_def Let_def)
  ultimately show ?thesis by blast
qed

end
