(* ===== verification/Packager.thy ===== *)
theory Packager
  imports Packager_Args HTTP_FLV
begin

text \<open>
  HLS and DASH packaging (\<open>internal/svc/pkger\<close>): the life of a packager, the manager that
  owns them and the file handler. The file system, the process table and the clock are
  parameters: whether a directory can be made and a process started, whether a manifest is
  there when it is polled, and the time.
\<close>

section \<open>Packager\<close>

record pk_env =
  en_mkdirOK :: bool
  en_startOK :: bool
  en_now :: int

definition Packager_Start :: "pk_env \<Rightarrow> Packager \<Rightarrow> Packager \<times> go_error option" where
  "Packager_Start env p =
     (if pk_cmd p \<noteq> None then (p, None)
      else if \<not> en_mkdirOK env then
        (p\<lparr>pk_startErr := Some (Errorf ''mkdir workdir'')\<rparr>, Some (Errorf ''mkdir workdir''))
      else if \<not> en_startOK env then
        (p\<lparr>pk_startErr := Some (Errorf ''start ffmpeg'')\<rparr>, Some (Errorf ''start ffmpeg''))
      else
        (p\<lparr>pk_cmd := Some (ffmpegArgs p), pk_cancel := True, pk_startedAt := en_now env,
           pk_lastAccess := en_now env\<rparr>, None))"

definition Packager_reap :: "Packager \<Rightarrow> Packager" where
  "Packager_reap p = p\<lparr>pk_stopped := True\<rparr>"

text \<open>
  \<open>WaitReady\<close>: each poll before the deadline sees whether the manifest is there and the packager
  as it is then, and waits until the next tick unless the context is done; the last poll is
  the first one after the deadline.
\<close>

type_synonym pk_poll = "bool \<times> Packager"

definition poll_result :: "pk_poll \<Rightarrow> go_error option option" where
  "poll_result x =
     (case x of (ready, p) \<Rightarrow>
        if ready then Some None
        else if pk_startErr p \<noteq> None then Some (pk_startErr p)
        else if pk_stopped p then Some (Some (Errorf ''packager exited before producing manifest''))
        else None)"

fun Packager_WaitReady :: "(pk_poll \<times> bool) list \<Rightarrow> pk_poll \<Rightarrow> go_error option" where
  "Packager_WaitReady [] late =
     (case poll_result late of Some r \<Rightarrow> r | None \<Rightarrow> Some (Errorf ''packager not ready before timeout''))"
| "Packager_WaitReady ((poll, ctxDone) # polls) late =
     (case poll_result poll of
        Some r \<Rightarrow> r
      | None \<Rightarrow> if ctxDone then Some (Errorf ''context done'') else Packager_WaitReady polls late)"

definition Packager_Touch :: "int \<Rightarrow> Packager \<Rightarrow> Packager" where
  "Packager_Touch now p = p\<lparr>pk_lastAccess := now\<rparr>"

definition Packager_LastAccess :: "Packager \<Rightarrow> int" where
  "Packager_LastAccess p = pk_lastAccess p"

definition Packager_WorkDir :: "Packager \<Rightarrow> string" where "Packager_WorkDir p = pk_workDir p"

definition Packager_Manifest :: "Packager \<Rightarrow> string" where "Packager_Manifest p = pk_manifest p"

text \<open>\<open>Stop\<close> cancels the context once, which kills the process.\<close>

definition Packager_Stop :: "Packager \<Rightarrow> Packager" where
  "Packager_Stop p = p\<lparr>pk_cancel := False\<rparr>"

section \<open>Manager\<close>

text \<open>\<open>mg_pkgers = None\<close> is the nil map that \<open>Stop\<close> leaves behind.\<close>

record PkManager =
  mg_httpPort :: int
  mg_idleTTL :: int
  mg_opts :: Options
  mg_pkgers :: "(string, Packager) gomap option"
  mg_rootDir :: string

definition PkNewManager :: "string option \<Rightarrow> int \<Rightarrow> int \<Rightarrow> Options \<Rightarrow> PkManager result" where
  "PkNewManager mkdirTemp httpPort idleTTL opts =
     (case mkdirTemp of
        None \<Rightarrow> Inl (Errorf ''mkdir root'')
      | Some rootDir \<Rightarrow>
          Inr \<lparr>mg_httpPort = httpPort, mg_idleTTL = idleTTL, mg_opts = opts, mg_pkgers = Some [], mg_rootDir = rootDir\<rparr>)"

definition keyFor :: "string \<Rightarrow> string \<Rightarrow> Format \<Rightarrow> string" where
  "keyFor app name format = app @ ''|'' @ name @ ''|'' @ format_text format"

datatype pk_result = PkError go_error | PkOk Packager | PkPanic

definition source_path :: "string \<Rightarrow> string \<Rightarrow> string" where
  "source_path app name = ''/'' @ app @ ''/'' @ name @ ''.flv''"

definition PkManager_GetOrCreate ::
    "pk_env \<Rightarrow> Bus \<Rightarrow> string \<Rightarrow> string \<Rightarrow> Format \<Rightarrow> PkManager \<Rightarrow> PkManager \<times> pk_result" where
  "PkManager_GetOrCreate env b app name format m =
     (let live = (case Registry_Get (NewStreamKey app name) b of
                    None \<Rightarrow> False | Some p \<Rightarrow> Stream_HasPublisher (stream_at b p))
      in if \<not> live then (m, PkError (Errorf (''stream not live: '' @ app @ ''/'' @ name)))
         else
           (let key = keyFor app name format in
            case gomap_get (case mg_pkgers m of None \<Rightarrow> [] | Some ps \<Rightarrow> ps) key of
              Some p \<Rightarrow>
                let p = Packager_Touch (en_now env) p
                in (m\<lparr>mg_pkgers := map_option (gomap_set key p) (mg_pkgers m)\<rparr>, PkOk p)
            | None \<Rightarrow>
                let workDir = filepath_Join [mg_rootDir m, app @ ''-'' @ name @ ''-'' @ format_text format];
                    sourceURL = ''http://127.0.0.1:'' @ itoa (mg_httpPort m) @ source_path app name;
                    p = newPackager app name format sourceURL workDir (mg_opts m)
                in (case Packager_Start env p of
                      (p, Some e) \<Rightarrow> (m, PkError e)
                    | (p, None) \<Rightarrow>
                        (case mg_pkgers m of
                           None \<Rightarrow> (m, PkPanic)
                         | Some ps \<Rightarrow> (m\<lparr>mg_pkgers := Some (gomap_set key p ps)\<rparr>, PkOk p)))))"

text \<open>\<open>Stop\<close> and \<open>gcOnce\<close> return the packagers they stopped.\<close>

definition PkManager_Stop :: "PkManager \<Rightarrow> PkManager \<times> Packager list" where
  "PkManager_Stop m =
     (m\<lparr>mg_pkgers := None\<rparr>,
      map (Packager_Stop \<circ> snd) (case mg_pkgers m of None \<Rightarrow> [] | Some ps \<Rightarrow> ps))"

definition gcOnce :: "int \<Rightarrow> PkManager \<Rightarrow> PkManager \<times> Packager list" where
  "gcOnce now m =
     (case mg_pkgers m of
        None \<Rightarrow> (m, [])
      | Some ps \<Rightarrow>
          (let idle = (\<lambda>(k, p). now - Packager_LastAccess p \<ge> mg_idleTTL m)
           in (m\<lparr>mg_pkgers := Some (filter (\<lambda>e. \<not> idle e) ps)\<rparr>, map (Packager_Stop \<circ> snd) (filter idle ps))))"

text \<open>
  The collecting goroutine: what it waits for comes as a list, a tick with its time or the end
  of the context. The flag tells whether it has returned and closed \<open>gcDone\<close>.
\<close>

datatype gc_event = GcTick int | GcDone

fun gcLoop :: "gc_event list \<Rightarrow> PkManager \<Rightarrow> (PkManager \<times> Packager list) \<times> bool" where
  "gcLoop [] m = ((m, []), False)"
| "gcLoop (GcDone # es) m = ((m, []), True)"
| "gcLoop (GcTick now # es) m =
     (case gcOnce now m of (m, stopped) \<Rightarrow>
        (case gcLoop es m of ((m, later), closed) \<Rightarrow> ((m, stopped @ later), closed)))"

section \<open>Handler\<close>

fun contains :: "string list \<Rightarrow> string \<Rightarrow> bool" where
  "contains [] s = False"
| "contains (x # elems) s = (if x = s then True else contains elems s)"

lemma contains_list_ex [simp]: "contains elems s = list_ex (\<lambda>x. x = s) elems"
  by (induction elems) auto

definition isSafeSegment :: "string \<Rightarrow> bool" where
  "isSafeSegment s \<longleftrightarrow>
     (if s = '''' \<or> s = ''.'' \<or> s = ''..'' then False else \<not> ContainsAny s [CHR ''/'', CHR 0x5C])"

definition splitPath :: "string \<Rightarrow> string list \<Rightarrow> (string \<times> string \<times> string) option" where
  "splitPath rel exts =
     (if rel = '''' \<or> Contains rel ''..'' then None
      else
        (let parts = Split rel (CHR ''/'') in
         if length parts < 3 then None
         else if \<not> contains exts (path_Ext (parts ! (length parts - 1))) then None
         else if \<not> list_all isSafeSegment (drop 2 parts) then None
         else Some (parts ! 0, parts ! 1, Join (drop 2 parts) ''/'')))"

definition legacyManifestRedirect :: "string \<Rightarrow> string \<Rightarrow> Format \<Rightarrow> string option" where
  "legacyManifestRedirect rel pre format =
     (if rel = '''' \<or> Contains rel ''..'' then None
      else
        (let parts = Split rel (CHR ''/'') in
         if length parts \<noteq> 2 then None
         else
           (let base = parts ! 1; ext = path_Ext base in
            if ext \<noteq> ''.m3u8'' \<and> ext \<noteq> ''.mpd'' then None
            else
              (let stem = TrimSuffix base ext in
               if stem = '''' then None
               else
                 (let canonical = (if format = FormatDASH then ''manifest.mpd'' else ''index.m3u8'')
                  in Some (pre @ parts ! 0 @ ''/'' @ stem @ ''/'' @ canonical))))))"

text \<open>The answer: a status without or with a text, a redirect, or a file with its content type.\<close>

datatype pk_response =
    PkStatus nat
  | PkHttpError nat string
  | PkRedirect nat string
  | PkFile "string option" string
  | PkCrash

record pk_request =
  pq_Method :: string
  pq_Path :: string
  pq_RawQuery :: string
  pq_hasFFmpeg :: bool
  pq_polls :: "(pk_poll \<times> bool) list"
  pq_late :: pk_poll

definition content_type :: "string \<Rightarrow> string option" where
  "content_type file =
     (if HasSuffix file ''.m3u8'' then Some ''application/vnd.apple.mpegurl''
      else if HasSuffix file ''.mpd'' then Some ''application/dash+xml''
      else None)"

definition serve_file :: "pk_request \<Rightarrow> Packager \<Rightarrow> string \<Rightarrow> pk_response" where
  "serve_file r pkg file =
     (case (if filepath_Base file = Packager_Manifest pkg then Packager_WaitReady (pq_polls r) (pq_late r) else None) of
        Some e \<Rightarrow> PkHttpError 503 (''manifest not ready: '' @ err_text e)
      | None \<Rightarrow>
          (let full = filepath_Join [Packager_WorkDir pkg, file] in
           if \<not> HasPrefix full (Packager_WorkDir pkg @ ''/'') then PkHttpError 403 ''forbidden''
           else PkFile (content_type file) full))"

definition serve ::
    "pk_env \<Rightarrow> Bus \<Rightarrow> pk_request \<Rightarrow> Format \<Rightarrow> string \<Rightarrow> string list \<Rightarrow> PkManager \<Rightarrow> PkManager \<times> pk_response" where
  "serve env b r format pre exts m =
     (if pq_Method r \<noteq> ''GET'' \<and> pq_Method r \<noteq> ''HEAD'' then (m, PkStatus 405)
      else if \<not> pq_hasFFmpeg r then (m, PkHttpError 503 ''ffmpeg not available on this server'')
      else
        (let rel = TrimPrefix (pq_Path r) pre in
         case legacyManifestRedirect rel pre format of
           Some to \<Rightarrow> (m, PkRedirect 301 to)
         | None \<Rightarrow>
             (case splitPath rel exts of
                None \<Rightarrow> (m, PkHttpError 400 ''invalid path'')
              | Some (app, name, file) \<Rightarrow>
                  (case PkManager_GetOrCreate env b app name format m of
                     (m, PkError e) \<Rightarrow> (m, PkHttpError 404 (err_text e))
                   | (m, PkPanic) \<Rightarrow> (m, PkCrash)
                   | (m, PkOk pkg) \<Rightarrow>
                       let pkg = Packager_Touch (en_now env) pkg;
                           m = m\<lparr>mg_pkgers := map_option (gomap_set (keyFor app name format) pkg) (mg_pkgers m)\<rparr>
                       in (m, serve_file r pkg file)))))"

definition serveHLS :: "pk_env \<Rightarrow> Bus \<Rightarrow> pk_request \<Rightarrow> PkManager \<Rightarrow> PkManager \<times> pk_response" where
  "serveHLS env b r m = serve env b r FormatHLS ''/hls/'' [''.m3u8'', ''.ts'', ''.m4s'', ''.mp4''] m"

definition serveDASH :: "pk_env \<Rightarrow> Bus \<Rightarrow> pk_request \<Rightarrow> PkManager \<Rightarrow> PkManager \<times> pk_response" where
  "serveDASH env b r m = serve env b r FormatDASH ''/dash/'' [''.mpd'', ''.m4s'', ''.mp4''] m"

definition PkNewService :: "string option \<Rightarrow> int \<Rightarrow> Options \<Rightarrow> PkManager result" where
  "PkNewService mkdirTemp httpPort opts = PkNewManager mkdirTemp httpPort (60 * 1000000000) opts"

text \<open>The routes \<open>/hls/\<close> and \<open>/dash/\<close>, behind the play keys when there are any.\<close>

definition pk_route ::
    "KeySet option \<Rightarrow> pk_env \<Rightarrow> Bus \<Rightarrow> PkManager \<Rightarrow> Format \<Rightarrow> pk_request \<Rightarrow> (PkManager \<times> pk_response) http_result" where
  "pk_route playKeys env b m format =
     (let h = (\<lambda>r. Served (case format of FormatHLS \<Rightarrow> serveHLS env b r m | FormatDASH \<Rightarrow> serveDASH env b r m))
      in if playKeys = None then h else Gate playKeys pq_RawQuery h)"

section \<open>Invariant\<close>

definition pk_ok :: "string list \<Rightarrow> string \<Rightarrow> Packager \<Rightarrow> bool" where
  "pk_ok root k p \<longleftrightarrow>
     (\<exists>e. plain_elem e \<and> pk_workDir p = abs_path (root @ [e])) \<and>
     k = keyFor (pk_app p) (pk_name p) (pk_format p) \<and>
     pk_cmd p \<noteq> None \<and> pk_startErr p = None \<and> pk_manifest p = manifestName (pk_format p) (pk_opts p)"

definition mg_inv :: "string list \<Rightarrow> PkManager \<Rightarrow> bool" where
  "mg_inv root m \<longleftrightarrow> root \<noteq> [] \<and> list_all plain_elem root \<and> mg_rootDir m = abs_path root \<and>
     (\<forall>ps. mg_pkgers m = Some ps \<longrightarrow> gomap_wf ps \<and> (\<forall>k p. gomap_get ps k = Some p \<longrightarrow> pk_ok root k p))"

lemma work_elem: "CHR ''/'' \<notin> set app \<Longrightarrow> CHR ''/'' \<notin> set name \<Longrightarrow> plain_elem (app @ ''-'' @ name @ ''-'' @ format_text f)"
proof -
  assume "CHR ''/'' \<notin> set app" "CHR ''/'' \<notin> set name"
  moreover have "2 < length (app @ ''-'' @ name @ ''-'' @ format_text f)" by (simp add: format_text_def split: Format.splits)
  then have "app @ ''-'' @ name @ ''-'' @ format_text f \<noteq> ''.''" "app @ ''-'' @ name @ ''-'' @ format_text f \<noteq> ''..''"
    by (metis length_Cons list.size(3) less_irrefl numeral_2_eq_2 less_SucI lessI not_less_eq)+
  ultimately show ?thesis by (auto simp: plain_elem_def format_text_def split: Format.splits)
qed

lemma Join_root:
  assumes "list_all plain_elem root" "root \<noteq> []" "plain_elem e"
  shows "filepath_Join [abs_path root, e] = abs_path (root @ [e])"
  using Join_abs [of root "[e]"] assms by simp

lemma pk_ok_touch: "pk_ok root k p \<Longrightarrow> pk_ok root k (Packager_Touch t p)"
  by (simp add: pk_ok_def Packager_Touch_def)

lemma mg_inv_set:
  assumes "mg_inv root m" "pk_ok root k p"
  shows "mg_inv root (m\<lparr>mg_pkgers := map_option (gomap_set k p) (mg_pkgers m)\<rparr>)"
  using assms by (auto simp: mg_inv_def split: if_splits)

lemma GetOrCreate_inv:
  assumes inv: "mg_inv root m" and seg: "CHR ''/'' \<notin> set app" "CHR ''/'' \<notin> set name"
    and eq: "PkManager_GetOrCreate env b app name format m = (m', res)"
  shows "mg_inv root m'" "res = PkOk p \<Longrightarrow> pk_ok root (keyFor app name format) p"
proof -
  let ?k = "keyFor app name format"
  let ?ps = "case mg_pkgers m of None \<Rightarrow> [] | Some ps \<Rightarrow> ps"
  have old: "pk_ok root ?k q" if "gomap_get ?ps ?k = Some q" for q
    using inv that by (auto simp: mg_inv_def split: option.splits)
  let ?dir = "filepath_Join [mg_rootDir m, app @ ''-'' @ name @ ''-'' @ format_text format]"
  have dir: "?dir = abs_path (root @ [app @ ''-'' @ name @ ''-'' @ format_text format])"
    using inv Join_root work_elem [OF seg] by (simp add: mg_inv_def)
  have new: "pk_ok root ?k q" if "Packager_Start env (newPackager app name format url ?dir (mg_opts m)) = (q, None)" for q url
    using that work_elem [OF seg, of format] unfolding dir
    by (auto simp: Packager_Start_def newPackager_def pk_ok_def split: if_splits)
  have "mg_inv root m' \<and> (\<forall>p. res = PkOk p \<longrightarrow> pk_ok root ?k p)"
  proof (cases "gomap_get ?ps ?k")
    case (Some q)
    then show ?thesis using eq inv mg_inv_set [OF inv pk_ok_touch [OF old [OF Some]]] pk_ok_touch [OF old [OF Some]]
      by (auto simp: PkManager_GetOrCreate_def Let_def split: if_splits)
  next
    case None
    obtain q e where st: "Packager_Start env (newPackager app name format
        (''http://127.0.0.1:'' @ itoa (mg_httpPort m) @ source_path app name) ?dir (mg_opts m)) = (q, e)" by fastforce
    show ?thesis
    proof (cases e)
      case (Some x)
      then show ?thesis using eq None st inv by (auto simp: PkManager_GetOrCreate_def Let_def split: if_splits)
    next
      case e: None
      have "m' = m \<or> (\<exists>ps. mg_pkgers m = Some ps \<and> m' = m\<lparr>mg_pkgers := map_option (gomap_set ?k q) (mg_pkgers m)\<rparr>)"
        "res = PkOk p \<Longrightarrow> p = q" for p
        using eq None st e by (auto simp: PkManager_GetOrCreate_def Let_def split: if_splits option.splits)
      then show ?thesis using new [OF st [unfolded e]] mg_inv_set [OF inv] inv by auto
    qed
  qed
  then show "mg_inv root m'" "res = PkOk p \<Longrightarrow> pk_ok root ?k p" by auto
qed

lemma gomap_filter:
  assumes "gomap_wf ps"
  shows "gomap_wf (filter P ps)" "gomap_get (filter P ps) k = Some v \<Longrightarrow> gomap_get ps k = Some v"
  using assms by (auto simp: gomap_wf_def gomap_get_def distinct_map inj_on_def)


section \<open>The manager over time\<close>

text \<open>
  Requests start or reuse packagers, processes end on their own, the collector reaps and the
  server stops everything.
\<close>

inductive pk_step :: "PkManager \<Rightarrow> PkManager \<Rightarrow> bool" where
  pk_request: "CHR ''/'' \<notin> set app \<Longrightarrow> CHR ''/'' \<notin> set name \<Longrightarrow>
    pk_step m (fst (PkManager_GetOrCreate env b app name format m))"
| pk_served: "pk_step m (fst (serve env b r format pre exts m))"
| pk_exit: "mg_pkgers m = Some ps \<Longrightarrow> gomap_get ps k = Some p \<Longrightarrow>
    pk_step m (m\<lparr>mg_pkgers := Some (gomap_set k (Packager_reap p) ps)\<rparr>)"
| pk_gc: "pk_step m (fst (gcOnce now m))"
| pk_stop: "pk_step m (fst (PkManager_Stop m))"

definition pk_start :: "string list \<Rightarrow> PkManager \<Rightarrow> bool" where
  "pk_start root m \<longleftrightarrow> root \<noteq> [] \<and> list_all plain_elem root \<and>
     (\<exists>port opts. PkNewService (Some (abs_path root)) port opts = Inr m)"

lemma splitPath_parts:
  assumes "splitPath rel exts = Some (app, name, file)"
  shows "CHR ''/'' \<notin> set app" "CHR ''/'' \<notin> set name"
    "\<exists>es. es \<noteq> [] \<and> list_all plain_elem es \<and> file = Join es ''/''"
proof -
  let ?ps = "Split rel (CHR ''/'')"
  have len: "3 \<le> length ?ps" and app: "app = ?ps ! 0" and name: "name = ?ps ! 1"
    and fl: "file = Join (drop 2 ?ps) ''/''" and safe: "list_all isSafeSegment (drop 2 ?ps)"
    using assms by (auto simp: splitPath_def Let_def split: if_splits)
  show "CHR ''/'' \<notin> set app" "CHR ''/'' \<notin> set name"
    by (rule Split_sep_free [of _ rel], simp add: app name, rule nth_mem, use len in linarith)+
  have "list_all plain_elem (drop 2 ?ps)"
    using safe by (auto simp: list_all_iff isSafeSegment_def plain_elem_def ContainsAny_def list_ex_iff split: if_splits)
  then show "\<exists>es. es \<noteq> [] \<and> list_all plain_elem es \<and> file = Join es ''/''"
    using len fl by (intro exI [of _ "drop 2 ?ps"]) auto
qed

lemma serve_file_inside:
  assumes "pk_ok root k p" "list_all plain_elem root" "root \<noteq> []" "es \<noteq> []" "list_all plain_elem es"
  shows "serve_file r p (Join es ''/'') = PkFile ct full \<Longrightarrow> \<exists>e. plain_elem e \<and> full = abs_path (root @ e # es)"
    and "serve_file r p (Join es ''/'') \<noteq> PkHttpError 403 txt"
proof -
  obtain e where e: "plain_elem e" "pk_workDir p = abs_path (root @ [e])" using assms(1) by (auto simp: pk_ok_def)
  have full: "filepath_Join [pk_workDir p, Join es ''/''] = abs_path ((root @ [e]) @ es)"
    unfolding e(2) by (rule Join_abs) (use assms e in auto)
  have "HasPrefix (abs_path ((root @ [e]) @ es)) (abs_path (root @ [e]) @ ''/'')"
    by (rule abs_path_inside) (use assms in auto)
  then have pre: "HasPrefix (filepath_Join [pk_workDir p, Join es ''/'']) (pk_workDir p @ ''/'')"
    using full e(2) by simp
  show "serve_file r p (Join es ''/'') = PkFile ct full \<Longrightarrow> \<exists>e. plain_elem e \<and> full = abs_path (root @ e # es)"
    using e pre full by (auto simp: serve_file_def Packager_WorkDir_def Let_def split: option.splits if_splits)
  show "serve_file r p (Join es ''/'') \<noteq> PkHttpError 403 txt"
    using pre by (auto simp: serve_file_def Packager_WorkDir_def Let_def split: option.splits if_splits)
qed

lemma serve_inv:
  assumes inv: "mg_inv root m" and eq: "serve env b r format pre exts m = (m', resp)"
  shows "mg_inv root m'"
    and "resp = PkFile ct full \<Longrightarrow> \<exists>e es. list_all plain_elem (e # es) \<and> es \<noteq> [] \<and> full = abs_path (root @ e # es)"
    and "resp \<noteq> PkHttpError 403 txt"
proof -
  have "mg_inv root m' \<and> (resp = PkFile ct full \<longrightarrow> (\<exists>e es. list_all plain_elem (e # es) \<and> es \<noteq> [] \<and> full = abs_path (root @ e # es))) \<and>
    resp \<noteq> PkHttpError 403 txt"
  proof (cases "\<exists>app name file m1 pkg. splitPath (TrimPrefix (pq_Path r) pre) exts = Some (app, name, file) \<and>
      PkManager_GetOrCreate env b app name format m = (m1, PkOk pkg) \<and>
      m' = m1\<lparr>mg_pkgers := map_option (gomap_set (keyFor app name format) (Packager_Touch (en_now env) pkg)) (mg_pkgers m1)\<rparr> \<and>
      resp = serve_file r (Packager_Touch (en_now env) pkg) file")
    case True
    then obtain app name fl m1 pkg where sp: "splitPath (TrimPrefix (pq_Path r) pre) exts = Some (app, name, fl)"
      and g: "PkManager_GetOrCreate env b app name format m = (m1, PkOk pkg)"
      and m': "m' = m1\<lparr>mg_pkgers := map_option (gomap_set (keyFor app name format) (Packager_Touch (en_now env) pkg)) (mg_pkgers m1)\<rparr>"
      and resp: "resp = serve_file r (Packager_Touch (en_now env) pkg) fl" by blast
    note parts = splitPath_parts [OF sp]
    note gi = GetOrCreate_inv [OF inv parts(1,2) g]
    have ok: "pk_ok root (keyFor app name format) (Packager_Touch (en_now env) pkg)" by (rule pk_ok_touch) (rule gi(2), rule refl)
    obtain es where es: "es \<noteq> []" "list_all plain_elem es" "fl = Join es ''/''" using parts(3) by blast
    have root: "list_all plain_elem root" "root \<noteq> []" using inv by (auto simp: mg_inv_def)
    show ?thesis using mg_inv_set [OF gi(1) ok] serve_file_inside [OF ok root es(1,2), of r] es
      by (fastforce simp: m' resp)
  next
    case False
    have keep: "mg_inv root m1" if "splitPath rel exts = Some (app, name, fl)" "PkManager_GetOrCreate env b app name format m = (m1, res)"
      for rel app name fl m1 res using GetOrCreate_inv(1) [OF inv splitPath_parts(1,2) [OF that(1)] that(2)] .
    from False have "mg_inv root m' \<and> resp \<noteq> PkFile ct full \<and> resp \<noteq> PkHttpError 403 txt"
      using eq inv keep
      by (auto simp: serve_def Let_def split: if_splits option.splits prod.splits pk_result.splits)
    then show ?thesis by simp
  qed
  then show "mg_inv root m'"
    "resp = PkFile ct full \<Longrightarrow> \<exists>e es. list_all plain_elem (e # es) \<and> es \<noteq> [] \<and> full = abs_path (root @ e # es)"
    "resp \<noteq> PkHttpError 403 txt" by blast+
qed

interpretation pkrun: inductive_invariant "pk_start root" pk_step "mg_inv root"
proof
  show "mg_inv root m" if "pk_start root m" for m
    using that by (auto simp: pk_start_def mg_inv_def PkNewService_def PkNewManager_def gomap_wf_def gomap_get_def)
next
  fix m m' assume inv: "mg_inv root m" and "pk_step m m'"
  from this(2) show "mg_inv root m'"
  proof cases
    case (pk_request app name env b format)
    then show ?thesis using GetOrCreate_inv(1) [OF inv] by (metis surjective_pairing)
  next
    case (pk_served env b r format pre exts)
    then show ?thesis using serve_inv(1) [OF inv] by (metis surjective_pairing)
  next
    case (pk_exit ps k p)
    then have "pk_ok root k (Packager_reap p)" using inv by (auto simp: mg_inv_def pk_ok_def Packager_reap_def)
    then show ?thesis using mg_inv_set [OF inv] pk_exit by simp
  next
    case (pk_gc now)
    show ?thesis
    proof (cases "mg_pkgers m")
      case None
      then show ?thesis using inv pk_gc by (simp add: gcOnce_def)
    next
      case (Some ps)
      then have wf: "gomap_wf ps" using inv by (simp add: mg_inv_def)
      show ?thesis using inv pk_gc Some gomap_filter [OF wf] by (auto simp: gcOnce_def mg_inv_def Let_def)
    qed
  next
    case pk_stop
    then show ?thesis using inv by (simp add: PkManager_Stop_def mg_inv_def)
  qed
qed

text \<open>
  What the collector leaves: the packagers that were used within their time at every tick. The
  others are stopped.
\<close>

definition gc_ticks :: "gc_event list \<Rightarrow> int list" where
  "gc_ticks es = List.map_filter (\<lambda>e. case e of GcTick t \<Rightarrow> Some t | GcDone \<Rightarrow> None) (takeWhile (\<lambda>e. e \<noteq> GcDone) es)"

lemma gcLoop_keeps:
  assumes "mg_pkgers m = Some ps"
  shows "case gcLoop es m of ((m', stopped), closed) \<Rightarrow>
    mg_pkgers m' = Some (filter (\<lambda>(k, p). \<forall>now \<in> set (gc_ticks es). now - Packager_LastAccess p < mg_idleTTL m) ps) \<and>
    list_all (\<lambda>p. \<not> pk_cancel p) stopped \<and> (closed \<longleftrightarrow> GcDone \<in> set es)"
  using assms
proof (induction es m arbitrary: ps rule: gcLoop.induct)
  case (3 now es m)
  obtain m1 st1 where g: "gcOnce now m = (m1, st1)" by fastforce
  then have m1: "mg_pkgers m1 = Some (filter (\<lambda>(k, p). now - Packager_LastAccess p < mg_idleTTL m) ps)" "mg_idleTTL m1 = mg_idleTTL m"
    "list_all (\<lambda>p. \<not> pk_cancel p) st1"
    using 3(2) by (auto simp: gcOnce_def Let_def case_prod_unfold not_le list_all_iff Packager_Stop_def)
  show ?case using 3(1) [OF g [symmetric] m1(1)] m1 g
    by (auto simp: gc_ticks_def List.map_filter_simps case_prod_unfold conj_commute split: prod.splits)
qed (simp_all add: gc_ticks_def List.map_filter_simps)

section \<open>Properties\<close>

text \<open>
  C12. No request reads outside the packager directories: whatever was asked before, a file
  that \<open>/hls/\<close> or \<open>/dash/\<close> serves lies below one packager directory directly under the
  manager's root, with only plain names on the way, and the extra traversal check never
  refuses a request that got past the path parser.
\<close>

theorem packager_serves_inside:
  assumes "reachable_from (pk_start root) pk_step m" "serve env b r format pre exts m = (m', resp)"
  shows "case resp of
      PkFile ct full \<Rightarrow> \<exists>e es. list_all plain_elem (e # es) \<and> es \<noteq> [] \<and> full = abs_path (root @ e # es)
    | PkHttpError code txt \<Rightarrow> code \<noteq> 403
    | _ \<Rightarrow> True"
  using serve_inv(2,3) [OF pkrun.inv_reachable [OF assms(1)] assms(2)]
  by (fastforce split: pk_response.splits)

definition example_pk_request :: "string \<Rightarrow> pk_request" where
  "example_pk_request path =
     (let p = newPackager ''live'' ''cam'' FormatHLS '''' '''' \<lparr>op_LowLatency = False, op_Ladder = []\<rparr>
      in \<lparr>pq_Method = ''GET'', pq_Path = path, pq_RawQuery = '''', pq_hasFFmpeg = True, pq_polls = [((True, p), False)], pq_late = (True, p)\<rparr>)"

abbreviation example_pk_env :: pk_env where
  "example_pk_env \<equiv> \<lparr>en_mkdirOK = True, en_startOK = True, en_now = 0\<rparr>"

definition example_pk_manager :: PkManager where
  "example_pk_manager = \<lparr>mg_httpPort = 8081, mg_idleTTL = 60 * 1000000000, mg_opts = \<lparr>op_LowLatency = False, op_Ladder = []\<rparr>,
     mg_pkgers = Some [], mg_rootDir = abs_path [''tmp'']\<rparr>"

definition example_live_bus :: Bus where
  "example_live_bus = \<lparr>bus_streams = [(example_key, 0)], bus_heap = [fst (Stream_AttachPublisher 1 (NewStream example_key))]\<rparr>"

theorem packager_serves_inside_witness:
  "\<exists>m' ct full e es. serve example_pk_env example_live_bus (example_pk_request ''/hls/live/cam/index.m3u8'') FormatHLS ''/hls/''
      [''.m3u8'', ''.ts'', ''.m4s'', ''.mp4''] example_pk_manager = (m', PkFile ct full) \<and>
     list_all plain_elem (e # es) \<and> full = abs_path (''tmp'' # e # es)"
proof -
  have start: "pk_start [''tmp''] example_pk_manager"
    by (auto simp: pk_start_def plain_elem_def PkNewService_def PkNewManager_def example_pk_manager_def)
  have reach: "reachable_from (pk_start [''tmp'']) pk_step example_pk_manager" by (rule reach_start) (rule start)
  have rel: "TrimPrefix ''/hls/live/cam/index.m3u8'' ''/hls/'' = ''live/cam/index.m3u8''" by (simp add: TrimPrefix_def HasPrefix_def)
  have dots: "\<not> Contains ''live/cam/index.m3u8'' ''..''" by (simp add: HasPrefix_iff)
  have sp: "Split ''live/cam/index.m3u8'' (CHR ''/'') = [''live'', ''cam'', ''index.m3u8'']" by simp
  have ext: "path_Ext ''index.m3u8'' = ''.m3u8''" by (simp add: path_Ext_def)
  have safe: "isSafeSegment ''index.m3u8''" by (simp add: isSafeSegment_def ContainsAny_def)
  have path: "splitPath ''live/cam/index.m3u8'' [''.m3u8'', ''.ts'', ''.m4s'', ''.mp4''] = Some (''live'', ''cam'', ''index.m3u8'')"
    by (simp add: splitPath_def dots sp ext safe del: Contains.simps)
  have redir: "legacyManifestRedirect ''live/cam/index.m3u8'' ''/hls/'' FormatHLS = None"
    by (simp add: legacyManifestRedirect_def dots sp del: Contains.simps)
  have live: "Registry_Get (NewStreamKey ''live'' ''cam'') example_live_bus = Some 0" "Stream_HasPublisher (stream_at example_live_bus 0)"
    by (simp_all add: example_live_bus_def Registry_Get_def gomap_get_def NewStreamKey_def stream_at_def
        Stream_HasPublisher_def Stream_AttachPublisher_def NewStream_rep)
  obtain m' resp where s: "serve example_pk_env example_live_bus (example_pk_request ''/hls/live/cam/index.m3u8'') FormatHLS ''/hls/''
      [''.m3u8'', ''.ts'', ''.m4s'', ''.mp4''] example_pk_manager = (m', resp)" by fastforce
  moreover have "\<exists>ct full. resp = PkFile ct full"
  proof -
    have abs: "abs_path [''tmp''] = ''/tmp''" by (simp add: abs_path_def)
    have "filepath_Join [''/tmp'', ''live-cam-hls''] = ''/tmp/live-cam-hls''"
      "filepath_Join [''/tmp/live-cam-hls'', ''index.m3u8''] = ''/tmp/live-cam-hls/index.m3u8''"
      "HasPrefix ''/tmp/live-cam-hls/index.m3u8'' ''/tmp/live-cam-hls/''"
      by (simp_all add: filepath_Join_def filepath_Clean_def HasPrefix_def)
    then show ?thesis
      using s by (auto simp: serve_def example_pk_request_def rel path redir PkManager_GetOrCreate_def live Let_def gomap_get_def
          example_pk_manager_def abs format_text_def Packager_Start_def newPackager_def serve_file_def Packager_WaitReady.simps
          poll_result_def Packager_WorkDir_def Packager_Touch_def)
  qed
  ultimately obtain ct full where r: "resp = PkFile ct full" by blast
  from packager_serves_inside [OF reach s] obtain e es where "list_all plain_elem (e # es)" "full = abs_path ([''tmp''] @ e # es)"
    unfolding r by auto
  then show ?thesis using s unfolding r append_Cons append_Nil by blast
qed

text \<open>
  The convenience address of a manifest leads to the manifest: the redirect of
  \<open>/hls/app/name.m3u8\<close> (or \<open>.mpd\<close>, or below \<open>/dash/\<close>) points to an address that is parsed
  as the manifest of the stream \<open>app/name\<close> and is not redirected again.
\<close>

lemma legacy_redirect_lands:
  assumes "legacyManifestRedirect rel pre format = Some url"
  shows "\<exists>app stem ext rel'. rel = app @ ''/'' @ stem @ ext \<and> url = pre @ rel' \<and>
    legacyManifestRedirect rel' pre format = None \<and>
    splitPath rel' (case format of FormatHLS \<Rightarrow> [''.m3u8'', ''.ts'', ''.m4s'', ''.mp4''] | FormatDASH \<Rightarrow> [''.mpd'', ''.m4s'', ''.mp4'']) =
      Some (app, stem, manifestName format opts)"
proof -
  let ?ps = "Split rel (CHR ''/'')"
  define app where "app = ?ps ! 0"
  define base where "base = ?ps ! 1"
  define ext where "ext = path_Ext base"
  define stem where "stem = TrimSuffix base ext"
  define man where "man = manifestName format opts"
  define rel' where "rel' = app @ CHR ''/'' # stem @ CHR ''/'' # man"
  have dots: "\<not> Contains rel ''..''" and two: "length ?ps = 2" and ext: "ext = ''.m3u8'' \<or> ext = ''.mpd''"
    and stem: "stem \<noteq> ''''" and url: "url = pre @ rel'"
    using assms by (auto simp: legacyManifestRedirect_def Let_def app_def base_def ext_def stem_def man_def manifestName_def rel'_def
        simp del: Contains.simps split: if_splits)
  have ps: "?ps = [app, base]" using two by (auto simp: app_def base_def length_Suc_conv numeral_2_eq_2)
  then have rel: "rel = app @ CHR ''/'' # base" using Join_Split [of rel "CHR ''/''"] by simp
  have base: "base = stem @ ext"
    using path_Ext_suffix [of base] unfolding stem_def ext_def by (metis TrimSuffix_append)
  have slash: "CHR ''/'' \<notin> set app" "CHR ''/'' \<notin> set stem"
    using Split_sep_free [of app rel "CHR ''/''"] Split_sep_free [of base rel "CHR ''/''"] by (simp_all add: ps base)
  have man: "man = ''manifest.mpd'' \<or> man = ''index.m3u8''" by (cases format) (simp_all add: man_def manifestName_def)
  then have "CHR ''/'' \<notin> set man" by auto
  then have sp: "Split rel' (CHR ''/'') = [app, stem, man]"
    by (simp add: rel'_def Split_append Split_absent slash)
  have nodots: "\<not> Contains rel' ''..''"
  proof -
    have "\<not> Contains app ''..''" "\<not> Contains stem ''..''"
      using dots unfolding rel base
      by (auto simp: two_dots_across dest: Contains_more [of _ _ ext] simp del: Contains.simps)
    moreover have "\<not> Contains ''manifest.mpd'' ''..''" "\<not> Contains ''index.m3u8'' ''..''" by (simp_all add: HasPrefix_def)
    ultimately show ?thesis using man by (auto simp: rel'_def two_dots_across simp del: Contains.simps)
  qed
  have "legacyManifestRedirect rel' pre format = None" by (simp add: legacyManifestRedirect_def sp del: Contains.simps)
  moreover have "splitPath rel' (case format of FormatHLS \<Rightarrow> [''.m3u8'', ''.ts'', ''.m4s'', ''.mp4''] | FormatDASH \<Rightarrow> [''.mpd'', ''.m4s'', ''.mp4'']) =
      Some (app, stem, man)"
    using nodots sp by (cases format) (auto simp: splitPath_def man_def manifestName_def path_Ext_def isSafeSegment_def ContainsAny_def
        simp del: Contains.simps)
  ultimately show ?thesis using rel base url
    by (intro exI [of _ app] exI [of _ stem] exI [of _ ext] exI [of _ rel']) (simp add: man_def)
qed

lemma legacy_redirect_lands_witness:
  "\<exists>rel'. legacyManifestRedirect ''live/cam.m3u8'' ''/hls/'' FormatHLS = Some (''/hls/'' @ rel') \<and>
     splitPath rel' [''.m3u8'', ''.ts'', ''.m4s'', ''.mp4''] =
       Some (''live'', ''cam'', manifestName FormatHLS \<lparr>op_LowLatency = False, op_Ladder = []\<rparr>)"
proof -
  have redir: "legacyManifestRedirect ''live/cam.m3u8'' ''/hls/'' FormatHLS = Some ''/hls/live/cam/index.m3u8''"
    by (simp add: legacyManifestRedirect_def path_Ext_def TrimSuffix_def HasSuffix_def HasPrefix_def)
  obtain app stem ext rel' where parts: "''live/cam.m3u8'' = app @ ''/'' @ stem @ ext" "''/hls/live/cam/index.m3u8'' = ''/hls/'' @ rel'"
    and path: "splitPath rel' [''.m3u8'', ''.ts'', ''.m4s'', ''.mp4''] =
      Some (app, stem, manifestName FormatHLS \<lparr>op_LowLatency = False, op_Ladder = []\<rparr>)"
    using legacy_redirect_lands [OF redir, of "\<lparr>op_LowLatency = False, op_Ladder = []\<rparr>"] by auto
  have "splitPath ''live/cam/index.m3u8'' [''.m3u8'', ''.ts'', ''.m4s'', ''.mp4''] =
      Some (''live'', ''cam'', ''index.m3u8'')"
    by (simp add: splitPath_def path_Ext_def isSafeSegment_def ContainsAny_def HasPrefix_def)
  then show ?thesis using redir parts(2) path by auto
qed

lemma keyFor_plain:
  assumes eq: "keyFor app name format = keyFor app' name' format'"
    and bar: "CHR ''|'' \<notin> set app" "CHR ''|'' \<notin> set name"
  shows "app' = app" "name' = name" "format' = format"
proof -
  have "Split (keyFor app name format) (CHR ''|'') = [app, name, format_text format]"
    using bar by (cases format) (simp_all add: keyFor_def Split_append Split_absent format_text_def)
  moreover have fmt: "CHR ''|'' \<notin> set (format_text format')" by (cases format') (simp_all add: format_text_def)
  moreover have two: "count_list (keyFor app' name' format') (CHR ''|'') = 2"
    using eq [symmetric] bar by (cases format) (simp_all add: keyFor_def format_text_def count_notin)
  then have "count_list app' (CHR ''|'') = 0" "count_list name' (CHR ''|'') = 0" by (simp_all add: keyFor_def)
  then have "CHR ''|'' \<notin> set app'" "CHR ''|'' \<notin> set name'" by (simp_all add: count_list_0_iff)
  then have "Split (keyFor app' name' format') (CHR ''|'') = [app', name', format_text format']"
    using fmt by (simp add: keyFor_def Split_append Split_absent)
  ultimately have "[app, name, format_text format] = [app', name', format_text format']" using eq by simp
  then show "app' = app" "name' = name" "format' = format"
    by (auto simp: format_text_def split: Format.splits)
qed

text \<open>
  C25. A request gets a packager of its own stream, and only while that stream is live: when
  neither name holds a bar, the packager that \<open>GetOrCreate\<close> answers is for that application,
  name and format and its ffmpeg was started, whatever requests, exits, collections and stops
  came before.
\<close>

theorem packager_of_its_stream:
  assumes "reachable_from (pk_start root) pk_step m"
    and "CHR ''/'' \<notin> set app" "CHR ''/'' \<notin> set name" "CHR ''|'' \<notin> set app" "CHR ''|'' \<notin> set name"
    and "PkManager_GetOrCreate env b app name format m = (m', PkOk p)"
  shows "pk_app p = app \<and> pk_name p = name \<and> pk_format p = format \<and> pk_cmd p \<noteq> None \<and>
    (\<exists>q. Registry_Get (NewStreamKey app name) b = Some q \<and> Stream_HasPublisher (stream_at b q))"
proof -
  have ok: "pk_ok root (keyFor app name format) p"
    by (rule GetOrCreate_inv(2) [OF pkrun.inv_reachable [OF assms(1)] assms(2,3,6)]) (rule refl)
  then have "pk_app p = app" "pk_name p = name" "pk_format p = format"
    using keyFor_plain [OF _ assms(4,5)] unfolding pk_ok_def by blast+
  moreover have "pk_cmd p \<noteq> None" using ok by (simp add: pk_ok_def)
  moreover have "\<exists>q. Registry_Get (NewStreamKey app name) b = Some q \<and> Stream_HasPublisher (stream_at b q)"
    using assms(6) by (auto simp: PkManager_GetOrCreate_def Let_def split: if_splits option.splits)
  ultimately show ?thesis by simp
qed

lemma example_pk_start: "pk_start [''tmp''] example_pk_manager"
  by (auto simp: pk_start_def plain_elem_def PkNewService_def PkNewManager_def example_pk_manager_def)

lemma example_pk_live:
  "Registry_Get (NewStreamKey ''live'' ''cam'') example_live_bus = Some 0" "Stream_HasPublisher (stream_at example_live_bus 0)"
  by (simp_all add: example_live_bus_def Registry_Get_def gomap_get_def NewStreamKey_def stream_at_def
      Stream_HasPublisher_def Stream_AttachPublisher_def NewStream_rep)

theorem packager_of_its_stream_witness:
  "\<exists>m' p. PkManager_GetOrCreate example_pk_env example_live_bus ''live'' ''cam'' FormatHLS example_pk_manager = (m', PkOk p) \<and>
     pk_app p = ''live'' \<and> pk_name p = ''cam''"
proof -
  have reach: "reachable_from (pk_start [''tmp'']) pk_step example_pk_manager" by (rule reach_start) (rule example_pk_start)
  obtain m' p where g: "PkManager_GetOrCreate example_pk_env example_live_bus ''live'' ''cam'' FormatHLS example_pk_manager = (m', PkOk p)"
    by (simp add: PkManager_GetOrCreate_def example_pk_live example_pk_manager_def gomap_get_def Packager_Start_def newPackager_def Let_def)
  then show ?thesis using packager_of_its_stream [OF reach _ _ _ _ g] by auto
qed

section \<open>Where the packaging falls short\<close>

text \<open>
  The manager's key joins the names with bars. The stream \<open>b|c\<close> of the application \<open>a\<close> is
  served the packager of the stream \<open>c\<close> of \<open>a|b\<close>.
\<close>

lemma packager_key_collision:
  assumes live: "Registry_Get (NewStreamKey a (b @ ''|'' @ c)) bus = Some q" "Stream_HasPublisher (stream_at bus q)"
    and first: "PkManager_GetOrCreate env0 bus0 (a @ ''|'' @ b) c format m = (m', PkOk p)" "mg_pkgers m = Some []"
  shows "\<exists>m'' p'. PkManager_GetOrCreate env bus a (b @ ''|'' @ c) format m' = (m'', PkOk p') \<and>
    pk_app p' = a @ ''|'' @ b \<and> pk_name p' = c"
proof -
  have key: "keyFor a (b @ ''|'' @ c) format = keyFor (a @ ''|'' @ b) c format" by (simp add: keyFor_def)
  have p: "pk_app p = a @ ''|'' @ b" "pk_name p = c" "mg_pkgers m' = Some [(keyFor (a @ ''|'' @ b) c format, p)]"
    using first by (auto simp: PkManager_GetOrCreate_def Let_def gomap_get_def gomap_set_def newPackager_def Packager_Start_def
        split: if_splits option.splits)
  have "gomap_get [(keyFor (a @ ''|'' @ b) c format, p)] (keyFor (a @ ''|'' @ b) c format) = Some p" by (simp add: gomap_get_def)
  with p live show ?thesis unfolding PkManager_GetOrCreate_def key by (simp add: Let_def Packager_Touch_def)
qed

text \<open>
  A packager whose ffmpeg has ended is never replaced while it is asked for: it is touched and
  answered again, the collector keeps it, and its manifest waits for a process that is gone.
\<close>

lemma dead_packager_kept:
  assumes live: "Registry_Get (NewStreamKey app name) b = Some q" "Stream_HasPublisher (stream_at b q)"
    and dead: "mg_pkgers m = Some ps" "gomap_get ps (keyFor app name format) = Some p" "pk_stopped p"
    and now: "now - en_now env < mg_idleTTL m"
  shows "\<exists>m' ps'. PkManager_GetOrCreate env b app name format m = (m', PkOk (Packager_Touch (en_now env) p)) \<and>
    pk_stopped (Packager_Touch (en_now env) p) \<and>
    mg_pkgers (fst (gcOnce now m')) = Some ps' \<and>
    (keyFor app name format, Packager_Touch (en_now env) p) \<in> set ps'"
proof -
  have "(keyFor app name format, Packager_Touch (en_now env) p) \<in>
      set (gomap_set (keyFor app name format) (Packager_Touch (en_now env) p) ps)"
    by (metis gomap_set_def map_of_SomeD map_upd_Some_unfold update_conv')
  with assms show ?thesis
    by (auto simp: PkManager_GetOrCreate_def Let_def gcOnce_def Packager_Touch_def Packager_LastAccess_def)
qed

text \<open>
  A packager reads its stream over the play endpoint without a key. With play keys configured
  every such request is refused, so nothing is ever packaged.
\<close>

lemma packager_source_unauthorized:
  assumes "NewKeySet keys = Some ks" "rq_RawQuery r = ''''"
  shows "http_flv_route (Some ks) env hj b r = HttpError 401 ''unauthorized''"
  using assms by (simp add: http_flv_route_def Gate_def KeySet_Allow_def ParseQuery_def parse_part_def Values_Get_def
      List.map_filter_def)

text \<open>
  \<open>Stop\<close> clears the map before it cancels the context: a new packager that still starts in
  between is stored into a nil map.
\<close>

lemma GetOrCreate_after_Stop_panics:
  assumes "Registry_Get (NewStreamKey app name) b = Some q" "Stream_HasPublisher (stream_at b q)" "en_mkdirOK env" "en_startOK env"
  shows "snd (PkManager_GetOrCreate env b app name format (fst (PkManager_Stop m))) = PkPanic"
  using assms by (simp add: PkManager_GetOrCreate_def PkManager_Stop_def Let_def gomap_get_def Packager_Start_def newPackager_def)

text \<open>
  Neither do the directories keep streams apart: the packagers of the stream \<open>c\<close> of \<open>a-b\<close> and
  of the stream \<open>b-c\<close> of \<open>a\<close> write their segments into the same directory.
\<close>

lemma packager_dir_collision:
  assumes "PkManager_GetOrCreate env1 b1 (a @ ''-'' @ b) c format m = (m', PkOk p)" "mg_pkgers m = Some []"
    and "PkManager_GetOrCreate env2 b2 a (b @ ''-'' @ c) format m' = (m'', PkOk q)"
  shows "pk_workDir q = pk_workDir p"
proof -
  let ?dir = "filepath_Join [mg_rootDir m, a @ ''-'' @ b @ ''-'' @ c @ ''-'' @ format_text format]"
  have p: "pk_workDir p = ?dir" "mg_rootDir m' = mg_rootDir m" "mg_pkgers m' = Some [(keyFor (a @ ''-'' @ b) c format, p)]"
    using assms(1,2) by (auto simp: PkManager_GetOrCreate_def Let_def gomap_get_def gomap_set_def newPackager_def Packager_Start_def
        split: if_splits option.splits)
  show ?thesis
  proof (cases "keyFor a (b @ ''-'' @ c) format = keyFor (a @ ''-'' @ b) c format")
    case True
    then show ?thesis using assms(3) p
      by (auto simp: PkManager_GetOrCreate_def Let_def gomap_get_def Packager_Touch_def split: if_splits option.splits)
  next
    case False
    then show ?thesis using assms(3) p
      by (auto simp: PkManager_GetOrCreate_def Let_def gomap_get_def newPackager_def Packager_Start_def split: if_splits option.splits)
  qed
qed

end
