(* ===== verification/Config.thy ===== *)
theory Config
  imports Go_Prelude Go_Path
begin

text \<open>
  The configuration (\<open>internal/config\<close>): its structure, the defaults and the validation. The
  YAML decoder and the file system are parameters of \<open>Load\<close>. Go's \<open>int\<close> fields are unbounded
  integers here; a decoded value always fits. The quoted names are left out of the texts of errors.
\<close>

section \<open>Structure\<close>

record LadderRung =
  lr_Name :: string
  lr_Width :: int
  lr_Height :: int
  lr_VideoBitrate :: int
  lr_AudioBitrate :: int
  lr_AudioOnly :: bool

record HLSConfig =
  hls_LowLatency :: bool
  hls_Ladder :: "LadderRung list"

record AuthConfig =
  ac_PublishKeys :: "string list"
  ac_PlayKeys :: "string list"

record ServerConfig =
  sc_HealthPort :: int
  sc_HTTPPort :: int
  sc_RTMPPort :: int

record RelayConfig =
  rc_App :: string
  rc_Name :: string
  rc_Mode :: string
  rc_RemoteURL :: string
  rc_Reconnect :: bool

record TranscodeProfile =
  tp_Name :: string
  tp_App :: string
  tp_Stream :: string
  tp_Format :: string
  tp_OutputURL :: string

record TranscodeConfig =
  tc_Enabled :: bool
  tc_Profiles :: "TranscodeProfile list"

record Config =
  cf_Server :: ServerConfig
  cf_Auth :: AuthConfig
  cf_HLS :: HLSConfig
  cf_Relays :: "RelayConfig list"
  cf_Transcode :: "TranscodeConfig option"

section \<open>Loading\<close>

definition setDefaults :: "Config \<Rightarrow> Config" where
  "setDefaults c =
     (let s = cf_Server c;
          s = (if sc_HealthPort s = 0 then s\<lparr>sc_HealthPort := 8080\<rparr> else s);
          s = (if sc_HTTPPort s = 0 then s\<lparr>sc_HTTPPort := 8081\<rparr> else s);
          s = (if sc_RTMPPort s = 0 then s\<lparr>sc_RTMPPort := 1935\<rparr> else s)
      in c\<lparr>cf_Server := s\<rparr>)"

definition Load :: "(string \<Rightarrow> bytes option) \<Rightarrow> (bytes \<Rightarrow> Config option) \<Rightarrow> string \<Rightarrow> Config result" where
  "Load readFile decodeYAML path =
     (case readFile path of
        None \<Rightarrow> Inl (Errorf ''read config file'')
      | Some data \<Rightarrow>
          (case decodeYAML data of
             None \<Rightarrow> Inl (Errorf ''decode config'')
           | Some cfg \<Rightarrow> Inr (setDefaults cfg)))"

section \<open>Validation\<close>

definition ladder_char :: "char \<Rightarrow> bool" where
  "ladder_char r \<longleftrightarrow>
     (let n = (of_char r :: nat) in
      97 \<le> n \<and> n \<le> 122 \<or> 65 \<le> n \<and> n \<le> 90 \<or> 48 \<le> n \<and> n \<le> 57 \<or> n = 95 \<or> n = 45)"

definition isLadderName :: "string \<Rightarrow> bool" where
  "isLadderName s \<longleftrightarrow> s \<noteq> '''' \<and> list_all ladder_char s"

definition ladder_error :: "nat \<Rightarrow> string \<Rightarrow> go_error" where
  "ladder_error i msg = Errorf (''ladder['' @ utoa i @ '']'' @ msg)"

fun HLSConfig_Validate_loop :: "nat \<Rightarrow> string list \<Rightarrow> LadderRung list \<Rightarrow> go_error option" where
  "HLSConfig_Validate_loop i seen [] = None"
| "HLSConfig_Validate_loop i seen (r # rs) =
     (if lr_Name r = '''' then Some (ladder_error i '': name is required'')
      else if \<not> isLadderName (lr_Name r) then Some (ladder_error i '': name must be alphanumeric (no slashes / dots)'')
      else if lr_Name r \<in> set seen then Some (ladder_error i '': duplicate name'')
      else
        (let seen = lr_Name r # seen in
         if lr_AudioOnly r then HLSConfig_Validate_loop (Suc i) seen rs
         else if lr_Width r \<le> 0 \<or> lr_Height r \<le> 0 then
           Some (ladder_error i '': width and height required for video rungs'')
         else if lr_VideoBitrate r \<le> 0 then Some (ladder_error i '': video_bitrate must be positive (kbit/s)'')
         else HLSConfig_Validate_loop (Suc i) seen rs))"

definition HLSConfig_Validate :: "HLSConfig \<Rightarrow> go_error option" where
  "HLSConfig_Validate h = HLSConfig_Validate_loop 0 [] (hls_Ladder h)"

definition ServerConfig_Validate :: "ServerConfig \<Rightarrow> go_error option" where
  "ServerConfig_Validate s =
     (if sc_HealthPort s \<le> 0 \<or> sc_HealthPort s > 65535 then
        Some (Errorf (''health_port must be between 1 and 65535, got '' @ itoa (sc_HealthPort s)))
      else if sc_HTTPPort s \<le> 0 \<or> sc_HTTPPort s > 65535 then
        Some (Errorf (''http_port must be between 1 and 65535, got '' @ itoa (sc_HTTPPort s)))
      else if sc_RTMPPort s \<le> 0 \<or> sc_RTMPPort s > 65535 then
        Some (Errorf (''rtmp_port must be between 1 and 65535, got '' @ itoa (sc_RTMPPort s)))
      else if sc_HealthPort s = sc_HTTPPort s then
        Some (Errorf (''health_port and http_port must be different, both are '' @ itoa (sc_HealthPort s)))
      else if sc_HealthPort s = sc_RTMPPort s then
        Some (Errorf (''health_port and rtmp_port must be different, both are '' @ itoa (sc_HealthPort s)))
      else if sc_HTTPPort s = sc_RTMPPort s then
        Some (Errorf (''http_port and rtmp_port must be different, both are '' @ itoa (sc_HTTPPort s)))
      else None)"

definition Config_Validate :: "Config \<Rightarrow> go_error option" where
  "Config_Validate c =
     (case ServerConfig_Validate (cf_Server c) of
        Some e \<Rightarrow> Some (Errorf (''server config: '' @ err_text e))
      | None \<Rightarrow>
          (case HLSConfig_Validate (cf_HLS c) of
             Some e \<Rightarrow> Some (Errorf (''hls config: '' @ err_text e))
           | None \<Rightarrow> None))"

section \<open>What a valid configuration satisfies\<close>

definition rung_ok :: "LadderRung \<Rightarrow> bool" where
  "rung_ok r \<longleftrightarrow> isLadderName (lr_Name r) \<and>
     (lr_AudioOnly r \<or> 0 < lr_Width r \<and> 0 < lr_Height r \<and> 0 < lr_VideoBitrate r)"

definition ladder_ok :: "LadderRung list \<Rightarrow> bool" where
  "ladder_ok rs \<longleftrightarrow> list_all rung_ok rs \<and> distinct (map lr_Name rs)"

definition ports_ok :: "ServerConfig \<Rightarrow> bool" where
  "ports_ok s \<longleftrightarrow> list_all (\<lambda>p. 1 \<le> p \<and> p \<le> 65535) [sc_HealthPort s, sc_HTTPPort s, sc_RTMPPort s] \<and>
     distinct [sc_HealthPort s, sc_HTTPPort s, sc_RTMPPort s]"

lemma Validate_loop_iff:
  "HLSConfig_Validate_loop i seen rs = None \<longleftrightarrow> ladder_ok rs \<and> set (map lr_Name rs) \<inter> set seen = {}"
proof (induction i seen rs rule: HLSConfig_Validate_loop.induct)
  case (1 i seen)
  show ?case by (simp add: ladder_ok_def)
next
  case (2 i seen r rs)
  consider "\<not> isLadderName (lr_Name r) \<or> lr_Name r \<in> set seen"
    | "isLadderName (lr_Name r)" "lr_Name r \<notin> set seen" "lr_AudioOnly r"
    | "isLadderName (lr_Name r)" "lr_Name r \<notin> set seen" "\<not> lr_AudioOnly r" by blast
  then show ?case
  proof cases
    case 1
    then show ?thesis by (auto simp: ladder_ok_def rung_ok_def)
  next
    case c: 2
    then have "lr_Name r \<noteq> ''''" by (auto simp: isLadderName_def)
    then show ?thesis using c 2(1) by (auto simp: ladder_ok_def rung_ok_def Let_def)
  next
    case c: 3
    then have "lr_Name r \<noteq> ''''" by (auto simp: isLadderName_def)
    then show ?thesis using c 2(2) by (auto simp: ladder_ok_def rung_ok_def Let_def)
  qed
qed

lemma ServerConfig_Validate_iff: "ServerConfig_Validate s = None \<longleftrightarrow> ports_ok s"
  by (auto simp: ServerConfig_Validate_def ports_ok_def)

lemma ladder_name_plain:
  assumes "isLadderName s"
  shows "plain_elem s" "\<not> Contains s ''..''" "CHR ''.'' \<notin> set s" "CHR 0x5C \<notin> set s"
proof -
  have c: "\<not> ladder_char (CHR ''/'')" "\<not> ladder_char (CHR ''.'')" "\<not> ladder_char (CHR 0x5C)"
    by (simp_all add: ladder_char_def)
  have all: "\<And>x. x \<in> set s \<Longrightarrow> ladder_char x" using assms by (simp add: isLadderName_def list_all_iff)
  then show "CHR ''.'' \<notin> set s" "CHR 0x5C \<notin> set s" using c by auto
  then show "\<not> Contains s ''..''" by (auto simp: Contains_infix)
  show "plain_elem s" using assms all c \<open>CHR ''.'' \<notin> set s\<close> by (auto simp: plain_elem_def isLadderName_def)
qed

lemma Validate_parts:
  "Config_Validate c = None \<longleftrightarrow> ports_ok (cf_Server c) \<and> ladder_ok (hls_Ladder (cf_HLS c))"
proof -
  have "Config_Validate c = None \<longleftrightarrow> ServerConfig_Validate (cf_Server c) = None \<and> HLSConfig_Validate (cf_HLS c) = None"
    by (simp add: Config_Validate_def split: option.splits)
  then show ?thesis by (simp add: ServerConfig_Validate_iff HLSConfig_Validate_def Validate_loop_iff)
qed


text \<open>
  A file without a server section is usable: the defaults that \<open>Load\<close> fills in are valid
  ports, and \<open>Load\<close> overrides nothing that the file sets.
\<close>

theorem Load_defaults:
  assumes "readFile path = Some data" "decodeYAML data = Some cfg"
  shows "\<exists>c. Load readFile decodeYAML path = Inr c \<and>
    c\<lparr>cf_Server := cf_Server cfg\<rparr> = cfg \<and>
    (sc_HealthPort (cf_Server cfg) \<noteq> 0 \<longrightarrow> sc_HealthPort (cf_Server c) = sc_HealthPort (cf_Server cfg)) \<and>
    (sc_HTTPPort (cf_Server cfg) \<noteq> 0 \<longrightarrow> sc_HTTPPort (cf_Server c) = sc_HTTPPort (cf_Server cfg)) \<and>
    (sc_RTMPPort (cf_Server cfg) \<noteq> 0 \<longrightarrow> sc_RTMPPort (cf_Server c) = sc_RTMPPort (cf_Server cfg)) \<and>
    (cf_Server cfg = \<lparr>sc_HealthPort = 0, sc_HTTPPort = 0, sc_RTMPPort = 0\<rparr> \<longrightarrow> ports_ok (cf_Server c))"
  using assms by (auto simp: Load_def setDefaults_def Let_def ports_ok_def)

definition empty_config :: Config where
  "empty_config = \<lparr>cf_Server = \<lparr>sc_HealthPort = 0, sc_HTTPPort = 0, sc_RTMPPort = 0\<rparr>,
     cf_Auth = \<lparr>ac_PublishKeys = [], ac_PlayKeys = []\<rparr>,
     cf_HLS = \<lparr>hls_LowLatency = False, hls_Ladder = []\<rparr>, cf_Relays = [], cf_Transcode = None\<rparr>"

theorem Load_defaults_witness:
  "\<exists>c. Load (\<lambda>_. Some []) (\<lambda>_. Some empty_config) ''x'' = Inr c \<and> ports_ok (cf_Server c)"
  using Load_defaults [of "\<lambda>_. Some []" "''x''" "[]" "\<lambda>_. Some empty_config" empty_config]
  by (auto simp: empty_config_def)

end
