(* ===== verification/Relay.thy ===== *)
theory Relay
  imports Config Go_Path
begin

text \<open>
  Relays (\<open>internal/svc/relay\<close>): tasks that pull a remote stream into the server or push a local
  one out with an ffmpeg process, the loop that keeps that process running, and the manager of
  the configured tasks. The process, the clock and the cancellation of the context are seen
  through what the loop observes of them, one record per turn.
\<close>

section \<open>Tasks\<close>

text \<open>
  \<open>task.go\<close>. The stop channel is closed exactly when \<open>bt_stopped\<close> is set; the registry a task
  keeps is never used.
\<close>

record BaseTask =
  bt_app :: string
  bt_name :: string
  bt_remoteURL :: string
  bt_reconnect :: bool
  bt_running :: bool
  bt_stopped :: bool
  bt_rtmpPort :: int
  bt_httpPort :: int
  bt_pubKey :: string
  bt_playKey :: string

definition NewBaseTask :: "string \<Rightarrow> string \<Rightarrow> string \<Rightarrow> bool \<Rightarrow> BaseTask" where
  "NewBaseTask app name remoteURL reconnect =
     \<lparr>bt_app = app, bt_name = name, bt_remoteURL = remoteURL, bt_reconnect = reconnect,
      bt_running = False, bt_stopped = False, bt_rtmpPort = 1935, bt_httpPort = 8081,
      bt_pubKey = '''', bt_playKey = ''''\<rparr>"

text \<open>
  The accessors read a field; those that take the lock read it in one step. The stop channel is
  read as whether it is closed.
\<close>

abbreviation BaseTask_App :: "BaseTask \<Rightarrow> string" where "BaseTask_App t \<equiv> bt_app t"
abbreviation BaseTask_Name :: "BaseTask \<Rightarrow> string" where "BaseTask_Name t \<equiv> bt_name t"
abbreviation BaseTask_RemoteURL :: "BaseTask \<Rightarrow> string" where "BaseTask_RemoteURL t \<equiv> bt_remoteURL t"
abbreviation BaseTask_IsRunning :: "BaseTask \<Rightarrow> bool" where "BaseTask_IsRunning t \<equiv> bt_running t"
abbreviation BaseTask_StopChan :: "BaseTask \<Rightarrow> bool" where "BaseTask_StopChan t \<equiv> bt_stopped t"
abbreviation BaseTask_PublishKey :: "BaseTask \<Rightarrow> string" where "BaseTask_PublishKey t \<equiv> bt_pubKey t"
abbreviation BaseTask_PlayKey :: "BaseTask \<Rightarrow> string" where "BaseTask_PlayKey t \<equiv> bt_playKey t"
abbreviation BaseTask_RTMPPort :: "BaseTask \<Rightarrow> int" where "BaseTask_RTMPPort t \<equiv> bt_rtmpPort t"
abbreviation BaseTask_HTTPPort :: "BaseTask \<Rightarrow> int" where "BaseTask_HTTPPort t \<equiv> bt_httpPort t"

definition BaseTask_SetRunning :: "bool \<Rightarrow> BaseTask \<Rightarrow> BaseTask" where
  "BaseTask_SetRunning running t = t\<lparr>bt_running := running\<rparr>"

definition BaseTask_Stop :: "BaseTask \<Rightarrow> BaseTask" where
  "BaseTask_Stop t = (if bt_stopped t then t else t\<lparr>bt_stopped := True\<rparr>)"

definition BaseTask_SetEndpoints :: "int \<Rightarrow> int \<Rightarrow> string \<Rightarrow> string \<Rightarrow> BaseTask \<Rightarrow> BaseTask" where
  "BaseTask_SetEndpoints rtmpPort httpPort publishKey playKey t =
     t\<lparr>bt_rtmpPort := rtmpPort, bt_httpPort := httpPort, bt_pubKey := publishKey, bt_playKey := playKey\<rparr>"

definition localRTMPTarget :: "BaseTask \<Rightarrow> string" where
  "localRTMPTarget t =
     (let url = ''rtmp://127.0.0.1:'' @ itoa (BaseTask_RTMPPort t) @ ''/'' @ bt_app t @ ''/'' @ bt_name t
      in if BaseTask_PublishKey t \<noteq> '''' then url @ ''?key='' @ BaseTask_PublishKey t else url)"

definition localFLVSource :: "BaseTask \<Rightarrow> string" where
  "localFLVSource t =
     (let url = ''http://127.0.0.1:'' @ itoa (BaseTask_HTTPPort t) @ ''/'' @ bt_app t @ ''/'' @ bt_name t @ ''.flv''
      in if BaseTask_PlayKey t \<noteq> '''' then url @ ''?key='' @ BaseTask_PlayKey t else url)"

section \<open>The ffmpeg loop\<close>

text \<open>
  What one turn of the loop sees: whether the context or the stop channel is done at its top,
  what running ffmpeg returned, whether either is done after that, and whether the wait for the
  next attempt was cut short.
\<close>

record relay_turn =
  tn_doneAtTop :: bool
  tn_run :: "go_error option"
  tn_doneAfter :: bool
  tn_doneInWait :: bool

abbreviation millisecond :: int where "millisecond \<equiv> 1000000"

definition minBackoff :: int where "minBackoff = 500 * millisecond"
definition maxBackoff :: int where "maxBackoff = 5000 * millisecond"

definition next_backoff :: "int \<Rightarrow> int" where
  "next_backoff backoff =
     (if backoff < maxBackoff then
        (let backoff = backoff * 2 in if backoff > maxBackoff then maxBackoff else backoff)
      else backoff)"

text \<open>
  The result: the waits between attempts, oldest first, and the value returned, \<open>None\<close> while
  the loop is still going after the given turns.
\<close>

fun ffmpeg_loop :: "bool \<Rightarrow> int \<Rightarrow> relay_turn list \<Rightarrow> int list \<times> go_error option option" where
  "ffmpeg_loop reconnect backoff [] = ([], None)"
| "ffmpeg_loop reconnect backoff (t # ts) =
     (if tn_doneAtTop t then ([], Some None)
      else if tn_doneAfter t then ([], Some None)
      else if \<not> reconnect then ([], Some (tn_run t))
      else if tn_doneInWait t then ([backoff], Some None)
      else (case ffmpeg_loop reconnect (next_backoff backoff) ts of (waits, r) \<Rightarrow> (backoff # waits, r)))"

definition runFFmpegLoop :: "bool \<Rightarrow> string \<Rightarrow> relay_turn list \<Rightarrow> BaseTask \<Rightarrow> int list \<times> go_error option option" where
  "runFFmpegLoop hasFFmpeg label turns t =
     (if \<not> hasFFmpeg then ([], Some (Some (Errorf (''relay '' @ label @ '': ffmpeg not on PATH''))))
      else ffmpeg_loop (bt_reconnect t) minBackoff turns)"

section \<open>Pull and push\<close>

datatype Task = PullTask BaseTask | PushTask BaseTask

fun base_of :: "Task \<Rightarrow> BaseTask" where
  "base_of (PullTask t) = t"
| "base_of (PushTask t) = t"

fun on_base :: "(BaseTask \<Rightarrow> BaseTask) \<Rightarrow> Task \<Rightarrow> Task" where
  "on_base f (PullTask t) = PullTask (f t)"
| "on_base f (PushTask t) = PushTask (f t)"

definition pull_args :: "BaseTask \<Rightarrow> string list" where
  "pull_args t =
     [''-hide_banner'', ''-loglevel'', ''warning'', ''-i'', BaseTask_RemoteURL t, ''-c'', ''copy'', ''-f'', ''flv'',
      localRTMPTarget t]"

definition push_args :: "BaseTask \<Rightarrow> string list" where
  "push_args t =
     [''-hide_banner'', ''-loglevel'', ''warning'', ''-fflags'', ''+nobuffer'', ''-i'', localFLVSource t,
      ''-c'', ''copy'', ''-f'', ''flv'', BaseTask_RemoteURL t]"

text \<open>
  \<open>Start\<close> sets the running flag, runs the loop and clears the flag when it returns: the task
  afterwards, the arguments every ffmpeg of it is started with, and the loop's result.
\<close>

definition PullTask_Start :: "bool \<Rightarrow> relay_turn list \<Rightarrow> BaseTask \<Rightarrow> BaseTask \<times> string list \<times> int list \<times> go_error option option" where
  "PullTask_Start hasFFmpeg turns t =
     (let t = BaseTask_SetRunning True t;
          args = pull_args t
      in (case runFFmpegLoop hasFFmpeg (''pull '' @ BaseTask_App t @ ''/'' @ BaseTask_Name t) turns t of (waits, r) \<Rightarrow>
            (if r = None then t else BaseTask_SetRunning False t, args, waits, r)))"

definition PushTask_Start :: "bool \<Rightarrow> relay_turn list \<Rightarrow> BaseTask \<Rightarrow> BaseTask \<times> string list \<times> int list \<times> go_error option option" where
  "PushTask_Start hasFFmpeg turns t =
     (let t = BaseTask_SetRunning True t;
          args = push_args t
      in (case runFFmpegLoop hasFFmpeg (''push '' @ BaseTask_App t @ ''/'' @ BaseTask_Name t) turns t of (waits, r) \<Rightarrow>
            (if r = None then t else BaseTask_SetRunning False t, args, waits, r)))"

text \<open>The method of the \<open>Task\<close> interface.\<close>

definition Task_Start :: "bool \<Rightarrow> relay_turn list \<Rightarrow> Task \<Rightarrow> Task \<times> string list \<times> int list \<times> go_error option option" where
  "Task_Start hasFFmpeg turns task =
     (case task of
        PullTask t \<Rightarrow> map_prod PullTask id (PullTask_Start hasFFmpeg turns t)
      | PushTask t \<Rightarrow> map_prod PushTask id (PushTask_Start hasFFmpeg turns t))"

definition NewPullTask :: "string \<Rightarrow> string \<Rightarrow> string \<Rightarrow> bool \<Rightarrow> Task" where
  "NewPullTask app name remoteURL reconnect = PullTask (NewBaseTask app name remoteURL reconnect)"

definition NewPushTask :: "string \<Rightarrow> string \<Rightarrow> string \<Rightarrow> bool \<Rightarrow> Task" where
  "NewPushTask app name remoteURL reconnect = PushTask (NewBaseTask app name remoteURL reconnect)"

lemmas task_start_defs = Task_Start_def PullTask_Start_def PushTask_Start_def

section \<open>Manager\<close>

text \<open>
  \<open>manager.go\<close>. \<open>sl_done\<close>: the goroutine of the slot has returned, so its channel is closed;
  \<open>rm_cancelled\<close>: the manager's context is cancelled.
\<close>

record slot =
  sl_cfg :: RelayConfig
  sl_task :: Task
  sl_done :: bool

record RelayManager =
  rm_slots :: "(string, slot) gomap"
  rm_cancelled :: bool
  rm_rtmpPort :: int
  rm_httpPort :: int
  rm_publishKey :: string
  rm_playKey :: string

definition slotKey :: "string \<Rightarrow> string \<Rightarrow> string" where
  "slotKey app name = app @ ''|'' @ name"

definition RelayNewManager :: RelayManager where
  "RelayNewManager = \<lparr>rm_slots = [], rm_cancelled = False, rm_rtmpPort = 1935, rm_httpPort = 8081,
     rm_publishKey = '''', rm_playKey = ''''\<rparr>"

definition RelayManager_SetEndpoints :: "int \<Rightarrow> int \<Rightarrow> string \<Rightarrow> string \<Rightarrow> RelayManager \<Rightarrow> RelayManager" where
  "RelayManager_SetEndpoints rtmpPort httpPort publishKey playKey m =
     m\<lparr>rm_rtmpPort := rtmpPort, rm_httpPort := httpPort, rm_publishKey := publishKey, rm_playKey := playKey\<rparr>"

definition validateRelay :: "RelayConfig \<Rightarrow> go_error option" where
  "validateRelay cfg =
     (if rc_App cfg = '''' \<or> rc_Name cfg = '''' then Some (Errorf ''relay config missing app or name'')
      else if rc_Mode cfg \<noteq> ''pull'' \<and> rc_Mode cfg \<noteq> ''push'' then
        Some (Errorf (''invalid relay mode: '' @ rc_Mode cfg @ '' (must be '' @ [CHR 0x27] @ ''pull'' @ [CHR 0x27] @ '' or '' @ [CHR 0x27] @ ''push'' @ [CHR 0x27] @ '')''))
      else if rc_RemoteURL cfg = '''' then Some (Errorf ''relay config missing remote_url'')
      else None)"

definition spawn :: "RelayManager \<Rightarrow> RelayConfig \<Rightarrow> slot" where
  "spawn m cfg =
     (let task =
            (if rc_Mode cfg = ''pull''
             then NewPullTask (rc_App cfg) (rc_Name cfg) (rc_RemoteURL cfg) (rc_Reconnect cfg)
             else NewPushTask (rc_App cfg) (rc_Name cfg) (rc_RemoteURL cfg) (rc_Reconnect cfg));
          task = on_base (BaseTask_SetEndpoints (rm_rtmpPort m) (rm_httpPort m) (rm_publishKey m) (rm_playKey m)) task
      in \<lparr>sl_cfg = cfg, sl_task = task, sl_done = False\<rparr>)"

lemmas spawn_defs = spawn_def NewPullTask_def NewPushTask_def

fun StartTasks_loop :: "RelayConfig list \<Rightarrow> RelayManager \<Rightarrow> RelayManager \<times> go_error option" where
  "StartTasks_loop [] m = (m, None)"
| "StartTasks_loop (cfg # cfgs) m =
     (case validateRelay cfg of
        Some err \<Rightarrow> (m, Some err)
      | None \<Rightarrow>
          (let key = slotKey (rc_App cfg) (rc_Name cfg) in
           if gomap_get (rm_slots m) key \<noteq> None then
             (m, Some (Errorf (''duplicate relay for '' @ rc_App cfg @ ''/'' @ rc_Name cfg)))
           else StartTasks_loop cfgs (m\<lparr>rm_slots := gomap_set key (spawn m cfg) (rm_slots m)\<rparr>)))"

definition RelayManager_StartTasks :: "Config \<Rightarrow> RelayManager \<Rightarrow> RelayManager \<times> go_error option" where
  "RelayManager_StartTasks cfg m = StartTasks_loop (cf_Relays cfg) m"

text \<open>
  Receiving from \<open>done\<close> returns when the slot's goroutine has: its task is no longer running.
  \<open>Restart\<close> also returns the slot it replaced.
\<close>

definition slot_stop :: "slot \<Rightarrow> slot" where
  "slot_stop s = s\<lparr>sl_task := on_base BaseTask_Stop (sl_task s)\<rparr>"

definition slot_wait :: "slot \<Rightarrow> slot" where
  "slot_wait s = s\<lparr>sl_task := on_base (BaseTask_SetRunning False) (sl_task s), sl_done := True\<rparr>"

definition RelayManager_Restart ::
    "string \<Rightarrow> string \<Rightarrow> RelayManager \<Rightarrow> RelayManager \<times> (go_error + slot)" where
  "RelayManager_Restart app name m =
     (let key = slotKey app name in
      case gomap_get (rm_slots m) key of
        None \<Rightarrow> (m, Inl (Errorf (''no relay configured for '' @ app @ ''/'' @ name)))
      | Some s \<Rightarrow>
          (let s = slot_wait (slot_stop s)
           in (m\<lparr>rm_slots := gomap_set key (spawn m (sl_cfg s)) (rm_slots m)\<rparr>, Inr s)))"

definition RelayManager_Stop :: "RelayManager \<Rightarrow> RelayManager" where
  "RelayManager_Stop m =
     (let m = m\<lparr>rm_cancelled := True\<rparr>;
          m = m\<lparr>rm_slots := map (\<lambda>(k, s). (k, slot_stop s)) (rm_slots m)\<rparr>
      in m\<lparr>rm_slots := map (\<lambda>(k, s). (k, slot_wait s)) (rm_slots m)\<rparr>)"

definition RelayManager_TaskCount :: "RelayManager \<Rightarrow> nat" where
  "RelayManager_TaskCount m = length (rm_slots m)"

record TaskInfo =
  ti_App :: string
  ti_Name :: string
  ti_Mode :: string
  ti_RemoteURL :: string
  ti_Running :: bool

definition RelayManager_GetTasks :: "RelayManager \<Rightarrow> TaskInfo list" where
  "RelayManager_GetTasks m =
     map (\<lambda>(k, s). \<lparr>ti_App = rc_App (sl_cfg s), ti_Name = rc_Name (sl_cfg s), ti_Mode = rc_Mode (sl_cfg s),
            ti_RemoteURL = rc_RemoteURL (sl_cfg s), ti_Running = BaseTask_IsRunning (base_of (sl_task s))\<rparr>) (rm_slots m)"

section \<open>The loop\<close>

definition stop_seen :: "relay_turn \<Rightarrow> bool" where
  "stop_seen u \<longleftrightarrow> tn_doneAtTop u \<or> tn_doneAfter u \<or> tn_doneInWait u"

lemma backoff_iterate: "(next_backoff ^^ i) minBackoff = min (500 * millisecond * 2 ^ i) (5000 * millisecond)"
  by (induction i) (auto simp: next_backoff_def minBackoff_def maxBackoff_def Let_def min_def)

lemma ffmpeg_loop_waits:
  "fst (ffmpeg_loop reconnect backoff ts) =
     map (\<lambda>i. (next_backoff ^^ i) backoff) [0..<length (fst (ffmpeg_loop reconnect backoff ts))]"
proof (induction reconnect backoff ts rule: ffmpeg_loop.induct)
  case (2 reconnect backoff t ts)
  show ?case
  proof (cases "tn_doneAtTop t \<or> tn_doneAfter t \<or> \<not> reconnect \<or> tn_doneInWait t")
    case False
    let ?w = "fst (ffmpeg_loop reconnect (next_backoff backoff) ts)"
    have "?w = map (\<lambda>i. (next_backoff ^^ i) (next_backoff backoff)) [0..<length ?w]" using 2 False by blast
    moreover have "[0..<Suc n] = 0 # map Suc [0..<n]" for n by (simp add: map_Suc_upt upt_conv_Cons)
    ultimately show ?thesis using False
      by (simp add: case_prod_beta comp_def funpow_swap1 del: upt_Suc funpow.simps) (simp add: funpow_swap1)
  qed auto
qed simp

lemma ffmpeg_loop_result:
  "snd (ffmpeg_loop True backoff ts) = (if list_ex stop_seen ts then Some None else None)"
  by (induction True backoff ts rule: ffmpeg_loop.induct) (auto simp: stop_seen_def split: prod.splits)

section \<open>Invariant\<close>

text \<open>The task that belongs to a configured relay, up to its running and stopped flags.\<close>

definition task_for :: "RelayManager \<Rightarrow> RelayConfig \<Rightarrow> Task \<Rightarrow> bool" where
  "task_for m cfg task \<longleftrightarrow>
     (\<exists>running stopped. task = on_base (\<lambda>t. t\<lparr>bt_running := running, bt_stopped := stopped\<rparr>) (sl_task (spawn m cfg)))"

definition slot_ok :: "RelayManager \<Rightarrow> string \<Rightarrow> slot \<Rightarrow> bool" where
  "slot_ok m k s \<longleftrightarrow> k = slotKey (rc_App (sl_cfg s)) (rc_Name (sl_cfg s)) \<and> validateRelay (sl_cfg s) = None \<and>
     task_for m (sl_cfg s) (sl_task s) \<and> \<not> (sl_done s \<and> bt_running (base_of (sl_task s)))"

definition relay_inv :: "RelayManager \<Rightarrow> bool" where
  "relay_inv m \<longleftrightarrow> gomap_wf (rm_slots m) \<and> (\<forall>k s. gomap_get (rm_slots m) k = Some s \<longrightarrow> slot_ok m k s)"

text \<open>
  What happens to the manager: tasks are started, restarted and stopped, and the goroutine of a
  slot starts its task and returns. \<open>SetEndpoints\<close> comes first.
\<close>

inductive relay_step :: "RelayManager \<Rightarrow> RelayManager \<Rightarrow> bool" where
  relay_start: "relay_step m (fst (RelayManager_StartTasks cfg m))"
| relay_restart: "relay_step m (fst (RelayManager_Restart app name m))"
| relay_stop: "relay_step m (RelayManager_Stop m)"
| relay_run: "gomap_get (rm_slots m) k = Some s \<Longrightarrow> \<not> sl_done s \<Longrightarrow>
    relay_step m (m\<lparr>rm_slots := gomap_set k (s\<lparr>sl_task := on_base (BaseTask_SetRunning True) (sl_task s)\<rparr>) (rm_slots m)\<rparr>)"
| relay_return: "gomap_get (rm_slots m) k = Some s \<Longrightarrow>
    relay_step m (m\<lparr>rm_slots := gomap_set k (slot_wait s) (rm_slots m)\<rparr>)"

definition relay_init :: "RelayManager \<Rightarrow> bool" where
  "relay_init m \<longleftrightarrow> (\<exists>rp hp pk lk. m = RelayManager_SetEndpoints rp hp pk lk RelayNewManager)"

lemma on_base_twice: "on_base f (on_base g x) = on_base (f \<circ> g) x" by (cases x) simp_all

lemma task_for_on_base:
  assumes "task_for m cfg task"
    and flags: "\<And>running stopped. \<exists>running' stopped'. f \<circ> (\<lambda>t. t\<lparr>bt_running := running, bt_stopped := stopped\<rparr>) =
      (\<lambda>t. t\<lparr>bt_running := running', bt_stopped := stopped'\<rparr>)"
  shows "task_for m cfg (on_base f task)"
proof -
  obtain running stopped where
    t: "task = on_base (\<lambda>t. t\<lparr>bt_running := running, bt_stopped := stopped\<rparr>) (sl_task (spawn m cfg))"
    using assms(1) by (auto simp: task_for_def)
  obtain running' stopped' where "f \<circ> (\<lambda>t. t\<lparr>bt_running := running, bt_stopped := stopped\<rparr>) =
      (\<lambda>t. t\<lparr>bt_running := running', bt_stopped := stopped'\<rparr>)" using flags by blast
  then show ?thesis unfolding t task_for_def on_base_twice by auto
qed

lemma task_for_flags:
  "task_for m cfg task \<Longrightarrow> task_for m cfg (on_base (BaseTask_SetRunning r) task)"
  "task_for m cfg task \<Longrightarrow> task_for m cfg (on_base BaseTask_Stop task)"
proof (erule task_for_on_base)
  show "\<exists>running' stopped'. BaseTask_SetRunning r \<circ> (\<lambda>t. t\<lparr>bt_running := running, bt_stopped := stopped\<rparr>) =
      (\<lambda>t. t\<lparr>bt_running := running', bt_stopped := stopped'\<rparr>)" for running stopped
    by (intro exI [of _ r] exI [of _ stopped]) (auto simp: fun_eq_iff BaseTask_SetRunning_def)
next
  show "task_for m cfg (on_base BaseTask_Stop task)" if "task_for m cfg task"
    using that
  proof (rule task_for_on_base)
    show "\<exists>running' stopped'. BaseTask_Stop \<circ> (\<lambda>t. t\<lparr>bt_running := running, bt_stopped := stopped\<rparr>) =
      (\<lambda>t. t\<lparr>bt_running := running', bt_stopped := stopped'\<rparr>)" for running stopped
      by (intro exI [of _ running] exI [of _ True]) (auto simp: fun_eq_iff BaseTask_Stop_def)
  qed
qed

lemma spawn_cfg [simp]: "sl_cfg (spawn m cfg) = cfg" "sl_done (spawn m cfg) = False"
  by (simp_all add: spawn_defs Let_def)

lemma spawn_slots [simp]: "spawn (m\<lparr>rm_slots := x\<rparr>) = spawn m"
  by (simp add: spawn_defs fun_eq_iff)

lemma task_for_spawn: "task_for m cfg (sl_task (spawn m cfg))"
  unfolding task_for_def
  by (intro exI [of _ False]) (auto simp: spawn_defs Let_def NewBaseTask_def BaseTask_SetEndpoints_def)

lemma base_on_base [simp]: "base_of (on_base f t) = f (base_of t)" by (cases t) simp_all

lemma slot_ok_spawn: "validateRelay cfg = None \<Longrightarrow> slot_ok m (slotKey (rc_App cfg) (rc_Name cfg)) (spawn m cfg)"
  by (simp add: slot_ok_def task_for_spawn)

lemma slot_ok_stop: "slot_ok m k s \<Longrightarrow> slot_ok m k (slot_stop s)"
  by (auto simp: slot_ok_def slot_stop_def task_for_flags BaseTask_Stop_def)

lemma slot_ok_wait: "slot_ok m k s \<Longrightarrow> slot_ok m k (slot_wait s)"
  by (auto simp: slot_ok_def slot_wait_def task_for_flags BaseTask_SetRunning_def)

text \<open>The endpoints of a manager are all that tasks depend on.\<close>

lemma slot_ok_ext [simp]:
  "slot_ok (m\<lparr>rm_slots := x\<rparr>) = slot_ok m" "slot_ok (m\<lparr>rm_cancelled := c\<rparr>) = slot_ok m"
  by (simp_all add: fun_eq_iff slot_ok_def task_for_def spawn_defs)

lemma relay_inv_set:
  assumes "relay_inv m" "slot_ok m k s"
  shows "relay_inv (m\<lparr>rm_slots := gomap_set k s (rm_slots m)\<rparr>)"
  using assms by (auto simp: relay_inv_def split: if_splits)

lemma StartTasks_loop_inv: "relay_inv m \<Longrightarrow> relay_inv (fst (StartTasks_loop cfgs m))"
proof (induction cfgs m rule: StartTasks_loop.induct)
  case (2 cfg cfgs m)
  show ?case
  proof (cases "validateRelay cfg = None \<and> gomap_get (rm_slots m) (slotKey (rc_App cfg) (rc_Name cfg)) = None")
    case True
    then show ?thesis using 2 relay_inv_set [OF 2(2) slot_ok_spawn] by (auto simp: Let_def)
  qed (use 2(2) in \<open>auto simp: Let_def split: option.splits\<close>)
qed simp

lemma gomap_get_map: "gomap_get (map (\<lambda>(k, v). (k, f v)) m) k = map_option f (gomap_get m k)"
  by (simp add: gomap_get_def map_of_map)

lemma gomap_wf_map: "gomap_wf (map (\<lambda>(k, v). (k, f v)) m) = gomap_wf m"
  by (simp add: gomap_wf_def comp_def case_prod_beta)

lemma relay_inv_map:
  assumes "relay_inv m" "\<And>k s. slot_ok m k s \<Longrightarrow> slot_ok m k (f s)"
  shows "relay_inv (m\<lparr>rm_slots := map (\<lambda>(k, s). (k, f s)) (rm_slots m)\<rparr>)"
  using assms by (auto simp: relay_inv_def gomap_get_map gomap_wf_map)

interpretation relayrun: inductive_invariant relay_init relay_step relay_inv
proof
  show "relay_inv m" if "relay_init m" for m
    using that by (auto simp: relay_init_def RelayManager_SetEndpoints_def RelayNewManager_def relay_inv_def)
next
  fix m m' assume inv: "relay_inv m" and "relay_step m m'"
  from this(2) show "relay_inv m'"
  proof cases
    case (relay_start cfg)
    then show ?thesis using StartTasks_loop_inv [OF inv] by (simp add: RelayManager_StartTasks_def)
  next
    case (relay_restart app name)
    have "slot_ok m (slotKey app name) (spawn m (sl_cfg s))" if "gomap_get (rm_slots m) (slotKey app name) = Some s" for s
      using inv that slot_ok_spawn [of "sl_cfg s" m] by (auto simp: relay_inv_def slot_ok_def)
    then show ?thesis using relay_restart inv relay_inv_set [OF inv]
      by (auto simp: RelayManager_Restart_def Let_def slot_wait_def slot_stop_def split: option.splits)
  next
    case relay_stop
    have "relay_inv (m\<lparr>rm_cancelled := True\<rparr>)" using inv by (simp add: relay_inv_def)
    from relay_inv_map [OF relay_inv_map [OF this]] show ?thesis
      unfolding relay_stop RelayManager_Stop_def Let_def by (simp add: slot_ok_stop slot_ok_wait)
  next
    case (relay_run k s)
    then have "slot_ok m k s" using inv by (simp add: relay_inv_def)
    then show ?thesis unfolding relay_run(1)
      by (intro relay_inv_set [OF inv]) (use relay_run in \<open>auto simp: slot_ok_def task_for_flags\<close>)
  next
    case (relay_return k s)
    then have "slot_ok m k s" using inv by (simp add: relay_inv_def)
    then show ?thesis unfolding relay_return(1) by (intro relay_inv_set [OF inv] slot_ok_wait)
  qed
qed

section \<open>Starting\<close>

definition relay_key :: "RelayConfig \<Rightarrow> string" where
  "relay_key cfg = slotKey (rc_App cfg) (rc_Name cfg)"

definition relays_ok :: "RelayConfig list \<Rightarrow> bool" where
  "relays_ok cfgs \<longleftrightarrow> list_all (\<lambda>c. validateRelay c = None) cfgs \<and> distinct (map relay_key cfgs)"

lemma relays_ok_Cons:
  "relays_ok (c # cs) \<longleftrightarrow> validateRelay c = None \<and> relays_ok cs \<and> (\<forall>c' \<in> set cs. relay_key c' \<noteq> relay_key c)"
  by (auto simp: relays_ok_def) (metis imageI)

lemma StartTasks_loop_iff:
  "snd (StartTasks_loop cfgs m) = None \<longleftrightarrow>
     relays_ok cfgs \<and> (\<forall>c \<in> set cfgs. gomap_get (rm_slots m) (relay_key c) = None)"
proof (induction cfgs m rule: StartTasks_loop.induct)
  case (2 cfg cfgs m)
  let ?k = "slotKey (rc_App cfg) (rc_Name cfg)"
  show ?case
  proof (cases "validateRelay cfg = None \<and> gomap_get (rm_slots m) ?k = None")
    case True
    then have "snd (StartTasks_loop (cfg # cfgs) m) = None \<longleftrightarrow>
        relays_ok cfgs \<and> (\<forall>c \<in> set cfgs. relay_key c \<noteq> ?k \<and> gomap_get (rm_slots m) (relay_key c) = None)"
      using 2 by (auto simp: Let_def split: if_splits)
    then show ?thesis using True by (auto simp: relays_ok_Cons relay_key_def)
  qed (auto simp: relays_ok_def relay_key_def Let_def split: option.splits)
qed (simp add: relays_ok_def)

text \<open>What the relays look like after a start: those before the first refused one run.\<close>

fun startable :: "string set \<Rightarrow> RelayConfig list \<Rightarrow> RelayConfig list" where
  "startable used [] = []"
| "startable used (c # cs) =
     (if validateRelay c = None \<and> relay_key c \<notin> used then c # startable (insert (relay_key c) used) cs else [])"

lemma startable_all: "startable used cs = cs \<longleftrightarrow> relays_ok cs \<and> relay_key ` set cs \<inter> used = {}"
  by (induction used cs rule: startable.induct) (auto simp: relays_ok_def)

lemma StartTasks_loop_get:
  "gomap_get (rm_slots (fst (StartTasks_loop cfgs m))) k =
     (case find (\<lambda>c. relay_key c = k) (startable {k. gomap_get (rm_slots m) k \<noteq> None} cfgs) of
        Some c \<Rightarrow> Some (spawn m c)
      | None \<Rightarrow> gomap_get (rm_slots m) k)"
proof (induction cfgs m rule: StartTasks_loop.induct)
  case (2 cfg cfgs m)
  let ?k = "slotKey (rc_App cfg) (rc_Name cfg)"
  show ?case
  proof (cases "validateRelay cfg = None \<and> gomap_get (rm_slots m) ?k = None")
    case True
    let ?m = "m\<lparr>rm_slots := gomap_set ?k (spawn m cfg) (rm_slots m)\<rparr>"
    define U where "U = {k. gomap_get (rm_slots m) k \<noteq> None}"
    have used: "{k. gomap_get (rm_slots ?m) k \<noteq> None} = insert ?k U" by (auto simp: U_def)
    have step: "StartTasks_loop (cfg # cfgs) m = StartTasks_loop cfgs ?m" using True by (simp add: Let_def)
    have st: "startable U (cfg # cfgs) = cfg # startable (insert ?k U) cfgs" using True by (simp add: U_def relay_key_def)
    have IH: "gomap_get (rm_slots (fst (StartTasks_loop cfgs ?m))) k =
        (case find (\<lambda>c. relay_key c = k) (startable (insert ?k U) cfgs) of
           Some c \<Rightarrow> Some (spawn m c) | None \<Rightarrow> gomap_get (rm_slots ?m) k)"
      using 2(1) [OF _ refl] True unfolding used spawn_slots by simp
    have fresh: "relay_key c \<in> used \<Longrightarrow> c \<notin> set (startable used cs)" for c used cs
      by (induction used cs rule: startable.induct) auto
    have "find (\<lambda>c. relay_key c = ?k) (startable (insert ?k U) cfgs) = None"
      using fresh by (fastforce simp: find_None_iff)
    then show ?thesis
      unfolding step IH U_def [symmetric] st by (auto simp: relay_key_def split: option.splits)
  qed (auto simp: Let_def relay_key_def split: option.splits)
qed simp

section \<open>Properties\<close>

text \<open>One pull relay, for the examples.\<close>

definition example_relay :: RelayConfig where
  "example_relay = \<lparr>rc_App = ''live'', rc_Name = ''cam'', rc_Mode = ''pull'', rc_RemoteURL = ''rtmp://h/a/b'', rc_Reconnect = True\<rparr>"

definition example_relay_manager :: RelayManager where
  "example_relay_manager =
     fst (RelayManager_StartTasks (empty_config\<lparr>cf_Relays := [example_relay]\<rparr>) (RelayManager_SetEndpoints 1935 8081 ''k'' '''' RelayNewManager))"

lemma example_relay_reachable: "reachable_from relay_init relay_step example_relay_manager"
  unfolding example_relay_manager_def
  by (rule reach_step, rule reach_start) (auto simp: relay_init_def intro: relay_start)

lemma example_relay_slot: "gomap_get (rm_slots example_relay_manager) ''live|cam'' = Some (spawn example_relay_manager example_relay)"
proof -
  have "slotKey ''live'' ''cam'' = ''live|cam''" by (simp add: slotKey_def)
  then show ?thesis
    by (simp add: example_relay_manager_def RelayManager_StartTasks_def example_relay_def validateRelay_def
        RelayManager_SetEndpoints_def RelayNewManager_def Let_def spawn_defs)
qed

text \<open>
  The waits between attempts are half a second, doubling up to five seconds and staying
  there, whatever ends the attempts; a loop without reconnection never waits.
\<close>

lemma relay_backoff:
  "fst (runFFmpegLoop hasFFmpeg label turns t) =
     map (\<lambda>i. min (500 * millisecond * 2 ^ i) (5000 * millisecond)) [0..<length (fst (runFFmpegLoop hasFFmpeg label turns t))]"
proof (cases hasFFmpeg)
  case True
  then show ?thesis
    using ffmpeg_loop_waits [of "bt_reconnect t" minBackoff turns] unfolding backoff_iterate by (simp add: runFFmpegLoop_def)
qed (simp add: runFFmpegLoop_def)

text \<open>
  When a relay ends. Without ffmpeg it fails at once. With reconnection it keeps going
  through every exit of ffmpeg and returns, without error, in the first turn that sees the
  context cancelled or the task stopped. Without reconnection it runs ffmpeg once and returns
  what that run returned, unless it was stopped.
\<close>

lemma relay_loop_result:
  "snd (runFFmpegLoop hasFFmpeg label turns t) =
     (if \<not> hasFFmpeg then Some (Some (Errorf (''relay '' @ label @ '': ffmpeg not on PATH'')))
      else if bt_reconnect t then (if list_ex stop_seen turns then Some None else None)
      else map_option (\<lambda>u. if tn_doneAtTop u \<or> tn_doneAfter u then None else tn_run u)
        (if turns = [] then None else Some (hd turns)))"
proof (cases "hasFFmpeg \<and> bt_reconnect t")
  case True
  then show ?thesis using ffmpeg_loop_result [of minBackoff turns] by (simp add: runFFmpegLoop_def del: ffmpeg_loop.simps)
qed (cases turns, auto simp: runFFmpegLoop_def)

lemma StartTasks_result:
  "case RelayManager_StartTasks cfg (RelayManager_SetEndpoints rp hp pk lk RelayNewManager) of (m, err) \<Rightarrow>
     (err = None \<longleftrightarrow> relays_ok (cf_Relays cfg)) \<and>
     (err = None \<longleftrightarrow> startable {} (cf_Relays cfg) = cf_Relays cfg) \<and>
     (\<forall>k. gomap_get (rm_slots m) k =
        map_option (spawn m) (find (\<lambda>c. relay_key c = k) (startable {} (cf_Relays cfg))))"
proof -
  let ?m = "RelayManager_SetEndpoints rp hp pk lk RelayNewManager"
  have empty: "rm_slots ?m = []" by (simp add: RelayManager_SetEndpoints_def RelayNewManager_def)
  obtain m err where st: "StartTasks_loop (cf_Relays cfg) ?m = (m, err)" by fastforce
  have ends: "spawn (fst (StartTasks_loop cs m0)) = spawn m0" for cs m0
    by (induction cs m0 rule: StartTasks_loop.induct) (auto simp: Let_def split: option.splits)
  show ?thesis
    using StartTasks_loop_iff [of "cf_Relays cfg" ?m] startable_all [of "{}" "cf_Relays cfg"]
      StartTasks_loop_get [of "cf_Relays cfg" ?m] ends [of "cf_Relays cfg" ?m]
    by (simp add: RelayManager_StartTasks_def st empty split: option.splits)
qed

text \<open>
  Starting the configured relays succeeds exactly when each is valid and no two have the
  same application and name key; the relays before the first refused one then run, each under
  its key with a fresh task for its configuration, and no other.
\<close>

theorem StartTasks_spec:
  "case RelayManager_StartTasks cfg (RelayManager_SetEndpoints rp hp pk lk RelayNewManager) of (m, err) \<Rightarrow>
     (err = None \<longleftrightarrow> relays_ok (cf_Relays cfg)) \<and>
     (err = None \<longleftrightarrow> startable {} (cf_Relays cfg) = cf_Relays cfg) \<and>
     (\<forall>k. gomap_get (rm_slots m) k =
        map_option (spawn m) (find (\<lambda>c. relay_key c = k) (startable {} (cf_Relays cfg))))"
  by (rule StartTasks_result)

text \<open>
  C32. Restarting a configured relay ends its old task (stopped, no longer running, goroutine
  returned) and puts in its place a fresh one that runs ffmpeg with the same arguments; the
  other relays and the number of tasks stay as they were.
\<close>

theorem relay_restart_spec:
  assumes "reachable_from relay_init relay_step m" "gomap_get (rm_slots m) (slotKey app name) = Some s"
  shows "\<exists>m' old new. RelayManager_Restart app name m = (m', Inr old) \<and>
    sl_done old \<and> bt_stopped (base_of (sl_task old)) \<and> \<not> bt_running (base_of (sl_task old)) \<and>
    gomap_get (rm_slots m') (slotKey app name) = Some new \<and> sl_cfg new = sl_cfg s \<and>
    \<not> bt_stopped (base_of (sl_task new)) \<and>
    fst (snd (Task_Start hasFFmpeg turns (sl_task new))) = fst (snd (Task_Start hasFFmpeg turns (sl_task s))) \<and>
    (\<forall>k. k = slotKey app name \<or> gomap_get (rm_slots m') k = gomap_get (rm_slots m) k) \<and>
    RelayManager_TaskCount m' = RelayManager_TaskCount m"
proof -
  have inv: "relay_inv m" by (rule relayrun.inv_reachable [OF assms(1)])
  then have ok: "task_for m (sl_cfg s) (sl_task s)" using assms(2) by (simp add: relay_inv_def slot_ok_def)
  have args: "fst (snd (Task_Start hasFFmpeg turns (sl_task (spawn m (sl_cfg s))))) = fst (snd (Task_Start hasFFmpeg turns (sl_task s)))"
    using ok by (cases "sl_task (spawn m (sl_cfg s))")
      (auto simp: task_for_def task_start_defs Let_def pull_args_def push_args_def localRTMPTarget_def localFLVSource_def
        BaseTask_SetRunning_def split: prod.splits)
  have keys: "length (rm_slots m) = length (gomap_keys (rm_slots m))" for m by (simp add: gomap_keys_def)
  have wf: "gomap_wf (rm_slots m)" using inv by (simp add: relay_inv_def)
  have "set (gomap_keys (gomap_set (slotKey app name) x (rm_slots m))) = set (gomap_keys (rm_slots m))" for x
    using gm.keys_get [of "slotKey app name" "rm_slots m"] assms(2) by (auto simp: gm.keys_set)
  then have len: "length (gomap_set (slotKey app name) x (rm_slots m)) = length (rm_slots m)" for x
    using gm.len_card [OF wf] gm.len_card [OF gm.wf_set [OF wf]] by (simp add: gomap_keys_def)
  have new: "\<not> bt_stopped (base_of (sl_task (spawn m (sl_cfg s))))"
    by (simp add: spawn_defs Let_def NewBaseTask_def BaseTask_SetEndpoints_def)
  show ?thesis
    using assms(2) args len new
    by (auto simp: RelayManager_Restart_def Let_def slot_wait_def slot_stop_def BaseTask_Stop_def BaseTask_SetRunning_def
        RelayManager_TaskCount_def)
qed

theorem relay_restart_spec_witness:
  "\<exists>m' old. RelayManager_Restart ''live'' ''cam'' example_relay_manager = (m', Inr old) \<and> sl_done old \<and>
     RelayManager_TaskCount m' = RelayManager_TaskCount example_relay_manager"
proof -
  have key: "slotKey ''live'' ''cam'' = ''live|cam''" by (simp add: slotKey_def)
  show ?thesis
    using relay_restart_spec [OF example_relay_reachable, of "''live''" "''cam''", unfolded key, OF example_relay_slot] by blast
qed

lemma relay_task_args:
  assumes "reachable_from relay_init relay_step m" "gomap_get (rm_slots m) k = Some s"
  shows "validateRelay (sl_cfg s) = None \<and>
    (let c = sl_cfg s;
         key = (\<lambda>k. if k = '''' then '''' else ''?key='' @ k);
         common = [''-hide_banner'', ''-loglevel'', ''warning'']
     in fst (snd (Task_Start hasFFmpeg turns (sl_task s))) =
       (if rc_Mode c = ''pull'' then
          common @ [''-i'', rc_RemoteURL c, ''-c'', ''copy'', ''-f'', ''flv'',
            ''rtmp://127.0.0.1:'' @ itoa (rm_rtmpPort m) @ ''/'' @ rc_App c @ ''/'' @ rc_Name c @ key (rm_publishKey m)]
        else
          common @ [''-fflags'', ''+nobuffer'', ''-i'',
            ''http://127.0.0.1:'' @ itoa (rm_httpPort m) @ ''/'' @ rc_App c @ ''/'' @ rc_Name c @ ''.flv'' @ key (rm_playKey m),
            ''-c'', ''copy'', ''-f'', ''flv'', rc_RemoteURL c]))"
proof -
  have ok: "slot_ok m k s" using relayrun.inv_reachable [OF assms(1)] assms(2) by (simp add: relay_inv_def)
  then obtain running stopped where
    "sl_task s = on_base (\<lambda>t. t\<lparr>bt_running := running, bt_stopped := stopped\<rparr>) (sl_task (spawn m (sl_cfg s)))"
    by (auto simp: slot_ok_def task_for_def)
  then have "fst (snd (Task_Start hasFFmpeg turns (sl_task s))) =
      (let t = base_of (sl_task (spawn m (sl_cfg s))) in if rc_Mode (sl_cfg s) = ''pull'' then pull_args t else push_args t)"
    by (simp add: task_start_defs Let_def spawn_defs pull_args_def push_args_def localRTMPTarget_def localFLVSource_def
        BaseTask_SetRunning_def split: prod.splits)
  with ok show ?thesis
    by (simp add: slot_ok_def spawn_defs Let_def NewBaseTask_def BaseTask_SetEndpoints_def pull_args_def push_args_def
        localRTMPTarget_def localFLVSource_def)
qed

text \<open>
  What the processes of a running server do: in every state, the task of a slot is the one
  its configuration asks for, and its ffmpeg reads the remote address and publishes to the
  server's own ingest under that application and name (pull), or reads the server's own play
  address and publishes to the remote one (push), with the keys of the manager.
\<close>

theorem relay_tasks_follow_config:
  assumes "reachable_from relay_init relay_step m" "gomap_get (rm_slots m) k = Some s"
  shows "validateRelay (sl_cfg s) = None \<and>
    (let c = sl_cfg s;
         key = (\<lambda>k. if k = '''' then '''' else ''?key='' @ k);
         common = [''-hide_banner'', ''-loglevel'', ''warning'']
     in fst (snd (Task_Start hasFFmpeg turns (sl_task s))) =
       (if rc_Mode c = ''pull'' then
          common @ [''-i'', rc_RemoteURL c, ''-c'', ''copy'', ''-f'', ''flv'',
            ''rtmp://127.0.0.1:'' @ itoa (rm_rtmpPort m) @ ''/'' @ rc_App c @ ''/'' @ rc_Name c @ key (rm_publishKey m)]
        else
          common @ [''-fflags'', ''+nobuffer'', ''-i'',
            ''http://127.0.0.1:'' @ itoa (rm_httpPort m) @ ''/'' @ rc_App c @ ''/'' @ rc_Name c @ ''.flv'' @ key (rm_playKey m),
            ''-c'', ''copy'', ''-f'', ''flv'', rc_RemoteURL c]))"
  by (rule relay_task_args [OF assms])

theorem relay_tasks_follow_config_witness:
  "fst (snd (Task_Start True [] (sl_task (spawn example_relay_manager example_relay)))) =
     [''-hide_banner'', ''-loglevel'', ''warning'', ''-i'', ''rtmp://h/a/b'', ''-c'', ''copy'', ''-f'', ''flv'',
      ''rtmp://127.0.0.1:'' @ itoa 1935 @ ''/live/cam?key=k'']"
proof -
  have ends: "rm_rtmpPort example_relay_manager = 1935" "rm_publishKey example_relay_manager = ''k''"
    by (simp_all add: example_relay_manager_def RelayManager_StartTasks_def example_relay_def validateRelay_def
        RelayManager_SetEndpoints_def RelayNewManager_def Let_def)
  show ?thesis
    using relay_tasks_follow_config [OF example_relay_reachable example_relay_slot, of True "[]"]
    by (simp add: Let_def ends) (simp add: example_relay_def)
qed

end
