(* ===== verification/API_Metrics.thy ===== *)
theory API_Metrics
  imports Registry Relay "HOL-Library.Log_Nat" "HOL-Library.Multiset"
begin

text \<open>
  What the server tells about itself: the JSON API (\<open>internal/svc/api\<close>), the Prometheus
  collector (\<open>internal/svc/metrics\<close>) and the health check (\<open>internal/svc/health\<close>). Both the API
  and the collector reach the relays through an interface; here its methods are arguments of
  the handlers. A JSON document is the value it encodes, a sample the value it carries;
  the \<open>int64\<close> seconds of the clock are 64-bit words read as two's complement.
\<close>

section \<open>API\<close>

record ServerResponse =
  srv_Version :: string
  srv_Uptime :: u64
  srv_GoVersion :: string
  srv_EnabledServices :: "string list"

record StreamInfo =
  si_App :: string
  si_Name :: string
  si_HasPublisher :: bool
  si_SubscriberCount :: nat
  si_MessagesPublished :: u64
  si_MessagesDropped :: u64

record RelayTaskInfo =
  rt_App :: string
  rt_Name :: string
  rt_Mode :: string
  rt_RemoteURL :: string
  rt_Running :: bool

datatype api_data =
    ServerData ServerResponse
  | StreamsData "StreamInfo list"
  | RelayData "RelayTaskInfo list"
  | StatusData string
  | ErrorData string

type_synonym api_response = "nat \<times> api_data"

definition writeError :: "nat \<Rightarrow> string \<Rightarrow> api_response" where
  "writeError status message = (status, ErrorData message)"

definition handleServer :: "string \<Rightarrow> u64 \<Rightarrow> u64 \<Rightarrow> string \<Rightarrow> api_response" where
  "handleServer goVersion startTime now httpMethod =
     (if httpMethod \<noteq> ''GET'' then writeError 405 ''method not allowed''
      else
        (let uptime = now - startTime
         in (200, ServerData \<lparr>srv_Version = ''1.0.0'', srv_Uptime = uptime, srv_GoVersion = goVersion,
               srv_EnabledServices = [''rtmp_ingest'', ''http_flv'', ''ws_flv'', ''relay'', ''metrics'']\<rparr>)))"

definition stream_info :: "Bus \<Rightarrow> StreamKey \<Rightarrow> nat \<Rightarrow> StreamInfo" where
  "stream_info b key p =
     (let stream = stream_at b p
      in \<lparr>si_App = sk_App key, si_Name = sk_Name key, si_HasPublisher = Stream_HasPublisher stream,
          si_SubscriberCount = Stream_SubscriberCount stream, si_MessagesPublished = Stream_MessagesPublished stream,
          si_MessagesDropped = Stream_TotalDropped stream\<rparr>)"

definition handleStreams :: "string \<Rightarrow> Bus \<Rightarrow> api_response" where
  "handleStreams httpMethod b =
     (if httpMethod \<noteq> ''GET'' then writeError 405 ''method not allowed''
      else
        (let keys = Registry_List b;
             streams = foldl (\<lambda>streams key.
               case Registry_Get key b of None \<Rightarrow> streams | Some p \<Rightarrow> streams @ [stream_info b key p]) [] keys
         in (200, StreamsData streams)))"

definition handleRelay :: "('m \<Rightarrow> TaskInfo list) \<Rightarrow> string \<Rightarrow> 'm \<Rightarrow> api_response" where
  "handleRelay GetTasks httpMethod m =
     (if httpMethod \<noteq> ''GET'' then writeError 405 ''method not allowed''
      else
        (let relayTasks = GetTasks m;
             tasks = map (\<lambda>rt. \<lparr>rt_App = ti_App rt, rt_Name = ti_Name rt, rt_Mode = ti_Mode rt,
               rt_RemoteURL = ti_RemoteURL rt, rt_Running = ti_Running rt\<rparr>) relayTasks
         in (200, RelayData tasks)))"

text \<open>\<open>body\<close>: the application and name decoded from the request body, \<open>None\<close> when it is not valid.\<close>

definition handleRelayRestart ::
    "(string \<Rightarrow> string \<Rightarrow> 'm \<Rightarrow> 'm \<times> string option) \<Rightarrow> string \<Rightarrow> (string \<times> string) option \<Rightarrow> 'm \<Rightarrow> 'm \<times> api_response" where
  "handleRelayRestart Restart httpMethod body m =
     (if httpMethod \<noteq> ''POST'' then (m, writeError 405 ''method not allowed'')
      else
        (case body of
           None \<Rightarrow> (m, writeError 400 ''invalid request body'')
         | Some (app, name) \<Rightarrow>
             if app = '''' \<or> name = '''' then (m, writeError 400 ''app and name are required'')
             else
               (case Restart app name m of
                  (m, Some err) \<Rightarrow> (m, writeError 404 err)
                | (m, None) \<Rightarrow> (m, (200, StatusData ''restarted'')))))"

section \<open>Health\<close>

definition handleHealth :: "string \<Rightarrow> nat" where
  "handleHealth httpMethod = (if httpMethod \<noteq> ''GET'' then 405 else 200)"

section \<open>Metrics\<close>

text \<open>The value of \<open>float64(n)\<close> for a natural number: 53 significant bits, rounded to nearest even.\<close>

definition float64 :: "nat \<Rightarrow> nat" where
  "float64 n =
     (if n < 2 ^ 53 then n
      else
        (let e = floorlog 2 n - 53;
             q = n div 2 ^ e;
             r = n mod 2 ^ e;
             q = (if 2 * r > 2 ^ e \<or> 2 * r = 2 ^ e \<and> odd q then Suc q else q)
         in q * 2 ^ e))"

datatype sample =
    Subscribers nat string string
  | Published nat string string
  | Dropped nat string string
  | Streams nat
  | Publishers nat
  | RelayTasks nat

text \<open>The descriptors of \<open>newCollector\<close>: name and variable labels, without the help texts.\<close>

record Desc =
  ds_fqName :: string
  ds_variableLabels :: "string list"

definition streamsDesc :: Desc where "streamsDesc = \<lparr>ds_fqName = ''nonchalant_streams'', ds_variableLabels = []\<rparr>"

definition publishersDesc :: Desc where "publishersDesc = \<lparr>ds_fqName = ''nonchalant_publishers'', ds_variableLabels = []\<rparr>"

definition subscribersDesc :: Desc where
  "subscribersDesc = \<lparr>ds_fqName = ''nonchalant_subscribers'', ds_variableLabels = [''app'', ''name'']\<rparr>"

definition publishedDesc :: Desc where
  "publishedDesc = \<lparr>ds_fqName = ''nonchalant_messages_published_total'', ds_variableLabels = [''app'', ''name'']\<rparr>"

definition droppedDesc :: Desc where
  "droppedDesc = \<lparr>ds_fqName = ''nonchalant_messages_dropped_total'', ds_variableLabels = [''app'', ''name'']\<rparr>"

definition relayTasksDesc :: Desc where "relayTasksDesc = \<lparr>ds_fqName = ''nonchalant_relay_tasks'', ds_variableLabels = []\<rparr>"

definition collector_Describe :: "Desc list" where
  "collector_Describe = [streamsDesc, publishersDesc, subscribersDesc, publishedDesc, droppedDesc, relayTasksDesc]"

fun sample_desc :: "sample \<Rightarrow> Desc \<times> string list" where
  "sample_desc (Subscribers v app name) = (subscribersDesc, [app, name])"
| "sample_desc (Published v app name) = (publishedDesc, [app, name])"
| "sample_desc (Dropped v app name) = (droppedDesc, [app, name])"
| "sample_desc (Streams v) = (streamsDesc, [])"
| "sample_desc (Publishers v) = (publishersDesc, [])"
| "sample_desc (RelayTasks v) = (relayTasksDesc, [])"

lemmas desc_defs = streamsDesc_def publishersDesc_def subscribersDesc_def publishedDesc_def droppedDesc_def relayTasksDesc_def

text \<open>\<open>relays\<close>: the relay manager with its \<open>TaskCount\<close>, \<open>None\<close> for a nil interface.\<close>

fun Collect_loop :: "Bus \<Rightarrow> StreamKey list \<Rightarrow> nat \<Rightarrow> nat \<times> sample list" where
  "Collect_loop b [] publishers = (publishers, [])"
| "Collect_loop b (key # keys) publishers =
     (case Registry_Get key b of
        None \<Rightarrow> Collect_loop b keys publishers
      | Some p \<Rightarrow>
          (let stream = stream_at b p;
               publishers = (if Stream_HasPublisher stream then publishers + 1 else publishers)
           in (case Collect_loop b keys publishers of (n, samples) \<Rightarrow>
                 (n,
                  [Subscribers (float64 (Stream_SubscriberCount stream)) (sk_App key) (sk_Name key),
                   Published (float64 (unat (Stream_MessagesPublished stream))) (sk_App key) (sk_Name key),
                   Dropped (float64 (unat (Stream_TotalDropped stream))) (sk_App key) (sk_Name key)] @ samples))))"

definition collector_Collect :: "('m \<Rightarrow> nat) \<Rightarrow> 'm option \<Rightarrow> Bus \<Rightarrow> sample list" where
  "collector_Collect TaskCount relays b =
     (let keys = Registry_List b in
      case Collect_loop b keys 0 of (publishers, samples) \<Rightarrow>
        samples @ [Streams (float64 (length keys)), Publishers (float64 publishers)] @
        (case relays of None \<Rightarrow> [] | Some m \<Rightarrow> [RelayTasks (float64 (TaskCount m))]))"

section \<open>The same streams everywhere\<close>

text \<open>The registered streams with their numbers, as a list in the order of the registry.\<close>

definition stream_infos :: "Bus \<Rightarrow> StreamInfo list" where
  "stream_infos b = map (\<lambda>(key, p). stream_info b key p) (bus_streams b)"

definition info_samples :: "StreamInfo \<Rightarrow> sample list" where
  "info_samples i =
     [Subscribers (float64 (si_SubscriberCount i)) (si_App i) (si_Name i),
      Published (float64 (unat (si_MessagesPublished i))) (si_App i) (si_Name i),
      Dropped (float64 (unat (si_MessagesDropped i))) (si_App i) (si_Name i)]"

lemma listed_streams:
  assumes "gomap_wf (bus_streams b)"
  shows "map (\<lambda>k. (k, Registry_Get k b)) (Registry_List b) = map (\<lambda>(k, p). (k, Some p)) (bus_streams b)"
  using assms by (auto simp: Registry_List_def Registry_Get_def gomap_get_def gomap_keys_def gomap_wf_def)

lemma foldl_infos:
  "foldl (\<lambda>streams key. case Registry_Get key b of None \<Rightarrow> streams | Some p \<Rightarrow> streams @ [stream_info b key p]) acc keys =
     acc @ List.map_filter (\<lambda>(k, p). map_option (stream_info b k) p) (map (\<lambda>k. (k, Registry_Get k b)) keys)"
  by (induction keys arbitrary: acc) (auto simp: List.map_filter_simps split: option.splits)

lemma handleStreams_infos:
  assumes "bus_inv b"
  shows "handleStreams ''GET'' b = (200, StreamsData (stream_infos b))"
proof -
  have "List.map_filter (\<lambda>(k, p). map_option (stream_info b k) p) (map (\<lambda>(k, p). (k, Some p)) xs) =
      map (\<lambda>(k, p). stream_info b k p) xs" for xs
    by (induction xs) (auto simp: List.map_filter_simps)
  then show ?thesis using listed_streams [of b] assms by (simp add: handleStreams_def foldl_infos stream_infos_def bus_inv_def)
qed

lemma stream_info_fields:
  "si_App (stream_info b k p) = sk_App k" "si_Name (stream_info b k p) = sk_Name k"
  "si_HasPublisher (stream_info b k p) = Stream_HasPublisher (stream_at b p)"
  "si_SubscriberCount (stream_info b k p) = Stream_SubscriberCount (stream_at b p)"
  "si_MessagesPublished (stream_info b k p) = Stream_MessagesPublished (stream_at b p)"
  "si_MessagesDropped (stream_info b k p) = Stream_TotalDropped (stream_at b p)"
  by (simp_all add: stream_info_def Let_def)

lemma Collect_loop_infos:
  assumes "\<And>k p. (k, p) \<in> set kps \<Longrightarrow> Registry_Get k b = Some p"
  shows "Collect_loop b (map fst kps) n =
    (n + length (filter si_HasPublisher (map (\<lambda>(k, p). stream_info b k p) kps)),
     concat (map info_samples (map (\<lambda>(k, p). stream_info b k p) kps)))"
  using assms
proof (induction kps arbitrary: n)
  case (Cons kp kps)
  obtain k p where kp: "kp = (k, p)" by fastforce
  have "Collect_loop b (map fst kps) n = (n + length (filter si_HasPublisher (map (\<lambda>(k, p). stream_info b k p) kps)),
      concat (map info_samples (map (\<lambda>(k, p). stream_info b k p) kps)))" for n
    using Cons by simp
  then show ?case using Cons.prems [of k p]
    by (cases "Stream_HasPublisher (stream_at b p)") 
      (simp_all add: kp info_samples_def [of "stream_info b k p"] stream_info_fields Let_def)
qed simp

lemma wf_get: "gomap_wf m \<Longrightarrow> (k, v) \<in> set m \<Longrightarrow> gomap_get m k = Some v"
  by (simp add: gomap_wf_def gomap_get_def)

section \<open>The relays behind their interface\<close>

text \<open>
  What the API and the metrics rely on of a relay manager: the count is that of the listed
  tasks, a refused restart changes nothing, a restart keeps the configuration of every task,
  and it succeeds for the listed tasks and, names with a bar apart, only for those.
\<close>

definition task_config :: "TaskInfo \<Rightarrow> string \<times> string \<times> string \<times> string" where
  "task_config t = (ti_App t, ti_Name t, ti_Mode t, ti_RemoteURL t)"

locale relay_control =
  fixes ok :: "'m \<Rightarrow> bool"
    and TaskCount :: "'m \<Rightarrow> nat"
    and GetTasks :: "'m \<Rightarrow> TaskInfo list"
    and Restart :: "string \<Rightarrow> string \<Rightarrow> 'm \<Rightarrow> 'm \<times> string option"
  assumes count_tasks: "ok m \<Longrightarrow> TaskCount m = length (GetTasks m)"
    and restart_ok: "ok m \<Longrightarrow> ok (fst (Restart a n m))"
    and restart_refused: "Restart a n m = (m', Some e) \<Longrightarrow> m' = m"
    and restart_config: "ok m \<Longrightarrow> mset (map task_config (GetTasks (fst (Restart a n m)))) = mset (map task_config (GetTasks m))"
    and restart_listed: "ok m \<Longrightarrow> t \<in> set (GetTasks m) \<Longrightarrow> snd (Restart (ti_App t) (ti_Name t) m) = None"
    and restart_only: "ok m \<Longrightarrow> CHR ''|'' \<notin> set a \<Longrightarrow> CHR ''|'' \<notin> set n \<Longrightarrow> snd (Restart a n m) = None \<Longrightarrow>
      \<exists>t \<in> set (GetTasks m). ti_App t = a \<and> ti_Name t = n"
begin

lemma restart_handler:
  assumes "ok m" "a \<noteq> ''''" "n \<noteq> ''''" "CHR ''|'' \<notin> set a" "CHR ''|'' \<notin> set n"
    and "handleRelayRestart Restart ''POST'' (Some (a, n)) m = (m', status, body)"
  shows "(status = 200 \<longleftrightarrow> (\<exists>t \<in> set (GetTasks m). ti_App t = a \<and> ti_Name t = n)) \<and>
    (status = 200 \<or> status = 404 \<and> m' = m) \<and>
    mset (map task_config (GetTasks m')) = mset (map task_config (GetTasks m)) \<and> TaskCount m' = TaskCount m"
proof -
  obtain m1 e where r: "Restart a n m = (m1, e)" by fastforce
  have m1: "m' = m1" and st: "status = (if e = None then 200 else 404)"
    using assms(2,3,6) r by (auto simp: handleRelayRestart_def writeError_def split: option.splits)
  have cfg: "mset (map task_config (GetTasks m1)) = mset (map task_config (GetTasks m))"
    using restart_config [OF assms(1), where a = a and n = n] r by simp
  then have "length (GetTasks m1) = length (GetTasks m)" by (metis size_mset length_map)
  then have "TaskCount m1 = TaskCount m" using count_tasks assms(1) restart_ok [OF assms(1), where a = a and n = n] r by simp
  moreover have "e = None \<longleftrightarrow> (\<exists>t \<in> set (GetTasks m). ti_App t = a \<and> ti_Name t = n)"
    using restart_listed [OF assms(1)] restart_only [OF assms(1,4,5)] r by (metis snd_conv)
  ultimately show ?thesis using cfg m1 st restart_refused [where a = a and n = n and m = m and m' = m1] r by (cases e) auto
qed

lemma gauge_counts_listed:
  assumes "ok m" "handleRelay GetTasks ''GET'' m = (status, RelayData ts)"
  shows "status = 200 \<and> RelayTasks (float64 (length ts)) \<in> set (collector_Collect TaskCount (Some m) b)"
  using assms count_tasks by (auto simp: handleRelay_def collector_Collect_def Let_def case_prod_beta)

end

text \<open>The relay manager keeps the interface: \<open>Restart\<close> with the text of its error.\<close>

definition relay_restart_op :: "string \<Rightarrow> string \<Rightarrow> RelayManager \<Rightarrow> RelayManager \<times> string option" where
  "relay_restart_op app name m =
     (case RelayManager_Restart app name m of
        (m, Inl (Errorf e)) \<Rightarrow> (m, Some e)
      | (m, Inl _) \<Rightarrow> (m, Some '''')
      | (m, Inr _) \<Rightarrow> (m, None))"

lemma slotKey_plain:
  assumes eq: "slotKey a n = slotKey a' n'" and bar: "CHR ''|'' \<notin> set a" "CHR ''|'' \<notin> set n"
  shows "a' = a" "n' = n"
proof -
  have "Split (slotKey a n) (CHR ''|'') = [a, n]" using bar by (simp add: slotKey_def Split_append Split_absent)
  moreover have "count_list (slotKey a' n') (CHR ''|'') = 1"
    using eq [symmetric] bar by (simp add: slotKey_def count_notin)
  then have "count_list a' (CHR ''|'') = 0" "count_list n' (CHR ''|'') = 0" by (simp_all add: slotKey_def)
  then have "CHR ''|'' \<notin> set a'" "CHR ''|'' \<notin> set n'" by (simp_all add: count_list_0_iff)
  then have "Split (slotKey a' n') (CHR ''|'') = [a', n']" by (simp add: slotKey_def Split_append Split_absent)
  ultimately have "[a, n] = [a', n']" unfolding eq by (rule HOL.trans [OF sym])
  then show "a' = a" "n' = n" by simp_all
qed

lemma update_same_image:
  "map_of m k = Some v \<Longrightarrow> f (k, w) = f (k, v) \<Longrightarrow> map f (AList.update k w m) = map f m"
  by (induction m) auto

lemma relay_slot_task:
  assumes "relay_inv m" "t \<in> set (RelayManager_GetTasks m)"
  obtains s where "gomap_get (rm_slots m) (slotKey (ti_App t) (ti_Name t)) = Some s"
proof -
  obtain k s where ks: "(k, s) \<in> set (rm_slots m)" "ti_App t = rc_App (sl_cfg s)" "ti_Name t = rc_Name (sl_cfg s)"
    using assms(2) by (auto simp: RelayManager_GetTasks_def)
  then have "gomap_get (rm_slots m) k = Some s" using assms(1) wf_get by (auto simp: relay_inv_def)
  then show ?thesis using that ks assms(1) by (auto simp: relay_inv_def slot_ok_def)
qed

lemma relay_restart_op_cases:
  "relay_restart_op a n m =
     (case gomap_get (rm_slots m) (slotKey a n) of
        None \<Rightarrow> (m, Some (''no relay configured for '' @ a @ ''/'' @ n))
      | Some s \<Rightarrow> (m\<lparr>rm_slots := gomap_set (slotKey a n) (spawn m (sl_cfg s)) (rm_slots m)\<rparr>, None))"
  by (simp add: relay_restart_op_def RelayManager_Restart_def Let_def slot_wait_def slot_stop_def split: option.splits)

lemma restart_keeps_configs:
  "map task_config (RelayManager_GetTasks (fst (relay_restart_op a n m))) = map task_config (RelayManager_GetTasks m)"
proof (cases "gomap_get (rm_slots m) (slotKey a n)")
  case (Some s)
  let ?cfg = "\<lambda>(k :: string, s). (rc_App (sl_cfg s), rc_Name (sl_cfg s), rc_Mode (sl_cfg s), rc_RemoteURL (sl_cfg s))"
  have tasks: "map task_config (RelayManager_GetTasks m') = map ?cfg (rm_slots m')" for m'
    by (auto simp: RelayManager_GetTasks_def task_config_def)
  have "map ?cfg (AList.update (slotKey a n) (spawn m (sl_cfg s)) (rm_slots m)) = map ?cfg (rm_slots m)"
    using Some by (intro update_same_image [where v = s]) (simp_all add: gomap_get_def)
  then show ?thesis using Some unfolding tasks by (simp add: relay_restart_op_cases gomap_set_def)
qed (simp add: relay_restart_op_cases)

lemma relay_slot_listed:
  assumes "relay_inv m" "gomap_get (rm_slots m) (slotKey a n) = Some s" "CHR ''|'' \<notin> set a" "CHR ''|'' \<notin> set n"
  shows "\<exists>t \<in> set (RelayManager_GetTasks m). ti_App t = a \<and> ti_Name t = n"
proof -
  have "slot_ok m (slotKey a n) s" using assms(1,2) by (simp add: relay_inv_def)
  then have "slotKey a n = slotKey (rc_App (sl_cfg s)) (rc_Name (sl_cfg s))" unfolding slot_ok_def by (rule conjunct1)
  note names = slotKey_plain [OF this assms(3,4)]
  have "(slotKey a n, s) \<in> set (rm_slots m)" using assms(2) by (simp add: gomap_get_def map_of_SomeD)
  then show ?thesis using names by (force simp: RelayManager_GetTasks_def)
qed

interpretation relayctl: relay_control relay_inv RelayManager_TaskCount RelayManager_GetTasks relay_restart_op
proof
  fix m :: RelayManager and a n :: string
  show "RelayManager_TaskCount m = length (RelayManager_GetTasks m)"
    by (simp add: RelayManager_TaskCount_def RelayManager_GetTasks_def)
  show "m' = m" if "relay_restart_op a n m = (m', Some e)" for m' e
    using that by (simp add: relay_restart_op_cases split: option.splits)
  assume inv: "relay_inv m"
  have "fst (relay_restart_op a n m) = fst (RelayManager_Restart a n m)"
    by (auto simp: relay_restart_op_def split: prod.splits sum.splits go_error.splits)
  then have "relay_step m (fst (relay_restart_op a n m))" by (metis relay_restart)
  then show "relay_inv (fst (relay_restart_op a n m))" by (rule relayrun.inv_step [OF inv])
  show "mset (map task_config (RelayManager_GetTasks (fst (relay_restart_op a n m)))) =
      mset (map task_config (RelayManager_GetTasks m))" by (simp only: restart_keeps_configs)
  show "snd (relay_restart_op (ti_App t) (ti_Name t) m) = None" if "t \<in> set (RelayManager_GetTasks m)" for t
    by (rule relay_slot_task [OF inv that]) (simp add: relay_restart_op_cases)
  show "\<exists>t \<in> set (RelayManager_GetTasks m). ti_App t = a \<and> ti_Name t = n"
    if "CHR ''|'' \<notin> set a" "CHR ''|'' \<notin> set n" "snd (relay_restart_op a n m) = None"
    using that relay_slot_listed [OF inv] by (auto simp: relay_restart_op_cases split: option.splits)
qed

lemma distinct_stream_infos:
  assumes "gomap_wf (bus_streams b)"
  shows "distinct (map (\<lambda>i. (si_App i, si_Name i)) (stream_infos b))"
proof -
  have "map (\<lambda>i. (si_App i, si_Name i)) (stream_infos b) = map (\<lambda>k. (sk_App k, sk_Name k)) (map fst (bus_streams b))"
    by (simp add: stream_infos_def stream_info_def Let_def comp_def case_prod_beta)
  moreover have "inj (\<lambda>k::StreamKey. (sk_App k, sk_Name k))" by (auto intro: injI StreamKey.equality)
  ultimately show ?thesis
    using assms by (simp only: gomap_wf_def distinct_map [of _ "map fst (bus_streams b)"] inj_on_subset [OF _ subset_UNIV])
qed

section \<open>Properties\<close>



text \<open>
  C23. The metrics and the API agree: a scrape emits, for every stream that \<open>/api/streams\<close>
  lists, the listed subscribers, published and dropped messages, and then the number of listed
  streams, of those with a publisher, and of the relays that \<open>/api/relay\<close> lists. Numbers below
  \<open>2 ^ 53\<close> are exact.
\<close>

theorem metrics_agree_with_api:
  assumes "reachable_from (\<lambda>b. b = NewRegistry) bus_step b" "reachable_from relay_init relay_step m"
    and "handleStreams ''GET'' b = (200, StreamsData infos)" "handleRelay RelayManager_GetTasks ''GET'' m = (200, RelayData tasks)"
  shows "collector_Collect RelayManager_TaskCount (Some m) b =
      concat (map info_samples infos) @
      [Streams (float64 (length infos)), Publishers (float64 (length (filter si_HasPublisher infos))),
       RelayTasks (float64 (length tasks))] \<and>
    (\<forall>n < 2 ^ 53. float64 n = n)"
proof -
  have inv: "bus_inv b" using assms(1) by (rule brun.inv_reachable)
  then have infos: "infos = stream_infos b" using handleStreams_infos assms(3) by simp
  have tasks: "RelayManager_TaskCount m = length tasks"
    using assms(4) relayctl.count_tasks [OF relayrun.inv_reachable [OF assms(2)]] by (auto simp: handleRelay_def)
  have "\<And>k p. (k, p) \<in> set (bus_streams b) \<Longrightarrow> Registry_Get k b = Some p"
    using inv wf_get by (auto simp: bus_inv_def Registry_Get_def)
  note loop = Collect_loop_infos [OF this, of "bus_streams b" 0]
  show ?thesis
    using loop by (simp add: collector_Collect_def Registry_List_def gomap_keys_def infos stream_infos_def tasks)
      (simp add: float64_def)
qed

theorem metrics_agree_with_api_witness:
  "collector_Collect RelayManager_TaskCount (Some example_relay_manager) NewRegistry =
     [Streams 0, Publishers 0, RelayTasks 1]"
proof -
  have "length (RelayManager_GetTasks example_relay_manager) = 1"
    by (simp add: RelayManager_GetTasks_def example_relay_manager_def RelayManager_StartTasks_def example_relay_def
        validateRelay_def RelayManager_SetEndpoints_def RelayNewManager_def Let_def gomap_set_def)
  then obtain t where "RelayManager_GetTasks example_relay_manager = [t]" by (auto simp: length_Suc_conv)
  then obtain ts where r: "handleRelay RelayManager_GetTasks ''GET'' example_relay_manager = (200, RelayData ts)" "length ts = 1"
    by (simp add: handleRelay_def)
  have s: "handleStreams ''GET'' NewRegistry = (200, StreamsData [])"
    by (simp add: handleStreams_def Registry_List_def NewRegistry_def gomap_keys_def)
  have reach: "reachable_from (\<lambda>b. b = NewRegistry) bus_step NewRegistry" by (rule reach_start) simp
  show ?thesis
    using metrics_agree_with_api [OF reach example_relay_reachable s r(1)] r(2) by (simp add: float64_def)
qed

lemma info_samples_descs:
  "map sample_desc (info_samples i) =
     [(subscribersDesc, [si_App i, si_Name i]), (publishedDesc, [si_App i, si_Name i]), (droppedDesc, [si_App i, si_Name i])]"
  by (simp add: info_samples_def)

lemma descs_distinct: "distinct (map ds_fqName collector_Describe)"
  by (simp add: collector_Describe_def desc_defs)

lemma distinct_info_samples:
  assumes "distinct (map (\<lambda>i. (si_App i, si_Name i)) is)"
  shows "distinct (map sample_desc (concat (map info_samples is)))"
proof -
  have mem: "fst d \<in> {subscribersDesc, publishedDesc, droppedDesc} \<and> (\<exists>i \<in> set is. snd d = [si_App i, si_Name i])"
    if "d \<in> set (map sample_desc (concat (map info_samples is)))" for d "is"
    using that by (induction "is") (auto simp: info_samples_def)
  show "distinct (map sample_desc (concat (map info_samples is)))" using assms
  proof (induction "is")
    case (Cons i "is")
    have "d \<notin> set (map sample_desc (info_samples i))" if "d \<in> set (map sample_desc (concat (map info_samples is)))" for d
      using mem [OF that] Cons.prems unfolding info_samples_descs by auto
    moreover have "distinct (map sample_desc (info_samples i))" by (simp add: info_samples_descs desc_defs)
    ultimately show ?case using Cons by auto
  qed simp
qed



text \<open>
  \<open>nonchalant_messages_dropped_total\<close> is exported as a counter but is the sum over the viewers
  that are attached: it falls when a viewer that has lost messages leaves.
\<close>

lemma dropped_counter_falls:
  assumes "gomap_wf (st_subscribers s)" "gomap_get (st_subscribers s) i = Some sub"
  shows "Stream_TotalDropped s = Stream_TotalDropped (Stream_DetachSubscriber i s) + sub_dropped sub"
proof -
  have sum: "foldl (\<lambda>total (_, sub). total + sub_dropped sub) n xs = n + sum_list (map (sub_dropped \<circ> snd) xs)" for n :: u64 and xs :: "(u64 \<times> Subscriber) list"
    by (induction xs arbitrary: n) (auto simp: algebra_simps)
  have "sum_list (map (sub_dropped \<circ> snd) xs) = sum_list (map (sub_dropped \<circ> snd) (gomap_delete i xs)) + sub_dropped sub"
    if "gomap_wf xs" "gomap_get xs i = Some sub" for xs :: "(u64 \<times> Subscriber) list"
    using that
  proof (induction xs)
    case (Cons x xs)
    have "gomap_delete i xs = xs" if "i \<notin> set (map fst xs)"
      using that by (simp add: gomap_delete_def delete_id)
    then show ?case using Cons by (auto simp: gomap_wf_def gomap_get_def gomap_delete_def algebra_simps split: if_splits)
  qed (simp add: gomap_get_def)
  then show ?thesis using assms by (simp add: Stream_TotalDropped_def Stream_DetachSubscriber_def sum)
qed

text \<open>
  \<open>POST /api/relay/restart\<close>: for names without a bar it answers 200 exactly when such a
  relay is configured and 404 otherwise, in which case nothing changed; either way the same
  relays are configured, with the same mode and address, and as many tasks as before.
\<close>

lemma api_restart:
  assumes "reachable_from relay_init relay_step m"
    and "a \<noteq> ''''" "n \<noteq> ''''" "CHR ''|'' \<notin> set a" "CHR ''|'' \<notin> set n"
    and "handleRelayRestart relay_restart_op ''POST'' (Some (a, n)) m = (m', status, body)"
  shows "(status = 200 \<longleftrightarrow> (\<exists>t \<in> set (RelayManager_GetTasks m). ti_App t = a \<and> ti_Name t = n)) \<and>
    (status = 200 \<or> status = 404 \<and> m' = m) \<and>
    mset (map task_config (RelayManager_GetTasks m')) = mset (map task_config (RelayManager_GetTasks m)) \<and>
    RelayManager_TaskCount m' = RelayManager_TaskCount m"
  by (rule relayctl.restart_handler [OF relayrun.inv_reachable [OF assms(1)] assms(2-6)])

lemma api_restart_witness:
  "fst (snd (handleRelayRestart relay_restart_op ''POST'' (Some (''live'', ''cam'')) example_relay_manager)) = 200"
proof -
  obtain m' status body where
    h: "handleRelayRestart relay_restart_op ''POST'' (Some (''live'', ''cam'')) example_relay_manager = (m', status, body)"
    by (metis prod.collapse)
  have "(''live|cam'', spawn example_relay_manager example_relay) \<in> set (rm_slots example_relay_manager)"
    using example_relay_slot by (simp add: gomap_get_def map_of_SomeD)
  then have "\<exists>t \<in> set (RelayManager_GetTasks example_relay_manager). ti_App t = ''live'' \<and> ti_Name t = ''cam''"
    by (force simp: RelayManager_GetTasks_def example_relay_def)
  then show ?thesis using api_restart [OF example_relay_reachable _ _ _ _ h] h by simp
qed

end
