(* ===== verification/Transcode.thy ===== *)
theory Transcode
  imports HTTP_FLV Config
begin

text \<open>
  Transcoding (\<open>internal/svc/transcode\<close>) and the wrapper around the ffmpeg libraries
  (\<open>internal/ffx\<close>), in both builds: without the tag \<open>ffmpeg\<close> everything is a stub, with it the
  parts exist but the manager starts none of them and no packet can be written. A nil pointer
  is \<open>None\<close>.
\<close>

section \<open>The wrapper\<close>

text \<open>Without the tag.\<close>

definition ErrFFmpegNotAvailable :: go_error where
  "ErrFFmpegNotAvailable = Errorf ''FFmpeg support not compiled in (build with -tags ffmpeg)''"

definition stub_Init :: "go_error option" where "stub_Init = Some ErrFFmpegNotAvailable"

definition stub_IsAvailable :: bool where "stub_IsAvailable = False"

definition stub_NewInput :: "string \<Rightarrow> unit result" where "stub_NewInput url = Inl ErrFFmpegNotAvailable"

definition stub_ReadPacket :: "bytes result" where "stub_ReadPacket = Inl ErrFFmpegNotAvailable"

definition stub_NewOutput :: "string \<Rightarrow> string \<Rightarrow> unit result" where "stub_NewOutput url format = Inl ErrFFmpegNotAvailable"

definition stub_WritePacket :: "bytes \<Rightarrow> go_error option" where "stub_WritePacket data = Some ErrFFmpegNotAvailable"

text \<open>With the tag; the flag is the package variable \<open>initialized\<close>.\<close>

definition ErrFFmpegInitFailed :: go_error where
  "ErrFFmpegInitFailed = Errorf ''FFmpeg initialization failed''"

definition ffx_Init :: "bool \<Rightarrow> bool \<times> go_error option" where "ffx_Init initialized = (True, None)"

definition ffx_Cleanup :: "bool \<Rightarrow> bool" where "ffx_Cleanup initialized = False"

definition ffx_IsAvailable :: "bool \<Rightarrow> bool" where "ffx_IsAvailable initialized = initialized"

record Input =
  in_url :: string

record Output =
  out_url :: string
  out_format :: string

definition NewInput :: "bool \<Rightarrow> string \<Rightarrow> Input result" where
  "NewInput initialized url =
     (if \<not> initialized then Inl ErrFFmpegInitFailed else Inr \<lparr>in_url = url\<rparr>)"

definition Input_Close :: "Input option \<Rightarrow> go_error option" where
  "Input_Close inp = None"

definition Input_ReadPacket :: "Input option \<Rightarrow> bytes result" where
  "Input_ReadPacket inp = (if inp = None then Inl (Errorf ''input is nil'') else Inl (Errorf ''not implemented''))"

definition NewOutput :: "bool \<Rightarrow> string \<Rightarrow> string \<Rightarrow> Output result" where
  "NewOutput initialized url format =
     (if \<not> initialized then Inl ErrFFmpegInitFailed else Inr \<lparr>out_url = url, out_format = format\<rparr>)"

definition Output_Close :: "Output option \<Rightarrow> go_error option" where
  "Output_Close out = None"

definition Output_WritePacket :: "bytes \<Rightarrow> Output option \<Rightarrow> go_error option" where
  "Output_WritePacket data out = (if out = None then Some (Errorf ''output is nil'') else Some (Errorf ''not implemented''))"

section \<open>Pipelines\<close>

record Pipeline =
  pl_input :: "Input option"
  pl_output :: "Output option"

definition NewPipeline :: "bool \<Rightarrow> string \<Rightarrow> string \<Rightarrow> string \<Rightarrow> Pipeline result" where
  "NewPipeline initialized inputURL outputURL format =
     (case NewInput initialized inputURL of
        Inl err \<Rightarrow> Inl err
      | Inr inp \<Rightarrow>
          (case NewOutput initialized outputURL format of
             Inl err \<Rightarrow> Inl err
           | Inr out \<Rightarrow> Inr \<lparr>pl_input = Some inp, pl_output = Some out\<rparr>))"

definition Pipeline_Close :: "Pipeline \<Rightarrow> go_error option" where
  "Pipeline_Close p =
     (let err = (case pl_output p of None \<Rightarrow> None | Some out \<Rightarrow> Output_Close (Some out))
      in (case pl_input p of
            None \<Rightarrow> err
          | Some inp \<Rightarrow> (case Input_Close (Some inp) of Some e \<Rightarrow> Some e | None \<Rightarrow> err)))"

definition Pipeline_Process :: "bytes \<Rightarrow> Pipeline option \<Rightarrow> go_error option" where
  "Pipeline_Process data p =
     (case p of
        None \<Rightarrow> Some (Errorf ''pipeline is nil'')
      | Some p \<Rightarrow> Output_WritePacket data (pl_output p))"

section \<open>Tasks\<close>

record TranscodeTask =
  tk_stream :: "nat option"
  tk_subscriber :: "u64 option"
  tk_subscriberID :: u64
  tk_pipeline :: "Pipeline option"
  tk_cancelled :: bool

definition NewTask :: "nat option \<Rightarrow> Pipeline option \<Rightarrow> TranscodeTask" where
  "NewTask stream pipeline =
     \<lparr>tk_stream = stream, tk_subscriber = None, tk_subscriberID = 0, tk_pipeline = pipeline, tk_cancelled = False\<rparr>"

text \<open>Without a stream \<open>Start\<close> dereferences nil: \<open>None\<close> is that panic.\<close>

definition TranscodeTask_Start :: "TranscodeTask \<Rightarrow> Bus \<Rightarrow> (TranscodeTask \<times> Bus) option" where
  "TranscodeTask_Start t b =
     (case tk_stream t of
        None \<Rightarrow> None
      | Some p \<Rightarrow>
          (case Stream_AttachSubscriber (stream_at b p) of (st, i) \<Rightarrow>
             Some (t\<lparr>tk_subscriber := Some i, tk_subscriberID := i\<rparr>, with_stream p (\<lambda>_. st) b)))"

text \<open>
  The loop, turn by turn: what the rest of the server did before it, and whether the context
  is done at its top. Its result lists what the pipeline returned for each message.
\<close>

fun TranscodeTask_process ::
    "turn list \<Rightarrow> nat \<Rightarrow> u64 \<Rightarrow> TranscodeTask \<Rightarrow> Bus \<Rightarrow> Bus \<times> loop_result \<times> go_error option list" where
  "TranscodeTask_process [] p i t b = (b, Running, [])"
| "TranscodeTask_process ((others, ctxDone) # sched) p i t b =
     (if ctxDone then (others b, Returned None, [])
      else
        (case read_bus_subscriber p i (others b) of
           None \<Rightarrow> TranscodeTask_process sched p i t (others b)
         | Some (b', None) \<Rightarrow> (b', Panicked, [])
         | Some (b', Some msg) \<Rightarrow>
             (case TranscodeTask_process sched p i t b' of (b'', r, es) \<Rightarrow>
                (b'', r, Pipeline_Process (mm_Payload msg) (tk_pipeline t) # es))))"

text \<open>The pipeline is closed as well, which changes nothing and whose result is dropped.\<close>

definition TranscodeTask_Stop :: "TranscodeTask \<Rightarrow> Bus \<Rightarrow> TranscodeTask \<times> Bus" where
  "TranscodeTask_Stop t b =
     (let t = t\<lparr>tk_cancelled := True\<rparr>
      in (t, (case tk_stream t of
                Some p \<Rightarrow> if tk_subscriberID t \<noteq> 0 then with_stream p (Stream_DetachSubscriber (tk_subscriberID t)) b else b
              | None \<Rightarrow> b)))"

section \<open>Manager\<close>

text \<open>With the tag; \<open>StartTasks\<close> returns without starting anything.\<close>

record TranscodeManager =
  tm_tasks :: "TranscodeTask list"
  tm_cancelled :: bool

definition TranscodeNewManager :: TranscodeManager where
  "TranscodeNewManager = \<lparr>tm_tasks = [], tm_cancelled = False\<rparr>"

definition TranscodeManager_StartTasks :: "Config \<Rightarrow> TranscodeManager \<Rightarrow> TranscodeManager \<times> go_error option" where
  "TranscodeManager_StartTasks cfg m = (m, None)"

definition TranscodeManager_Stop :: "TranscodeManager \<times> Bus \<Rightarrow> TranscodeManager \<times> Bus" where
  "TranscodeManager_Stop st =
     (case st of (m, b) \<Rightarrow>
      (m\<lparr>tm_cancelled := True, tm_tasks := map (\<lambda>t. t\<lparr>tk_cancelled := True\<rparr>) (tm_tasks m)\<rparr>,
       foldl (\<lambda>b t. snd (TranscodeTask_Stop t b)) b (tm_tasks m)))"

definition TranscodeManager_TaskCount :: "TranscodeManager \<Rightarrow> nat" where
  "TranscodeManager_TaskCount m = length (tm_tasks m)"

text \<open>Without the tag.\<close>

definition stub_StartTasks :: "Config \<Rightarrow> go_error option" where "stub_StartTasks cfg = None"

definition stub_Stop :: "go_error option" where "stub_Stop = None"

definition stub_TaskCount :: nat where "stub_TaskCount = 0"

text \<open>The stubs of pipelines and tasks: \<open>NewPipeline\<close> returns a nil pipeline without an error.\<close>

definition stub_NewPipeline :: "string \<Rightarrow> string \<Rightarrow> string \<Rightarrow> Pipeline option result" where
  "stub_NewPipeline inputURL outputURL format = Inr None"

definition stub_Process :: "bytes \<Rightarrow> go_error option" where "stub_Process data = None"

definition stub_Start :: "go_error option" where "stub_Start = None"

section \<open>Lemmas\<close>

lemma read_subscriber_heap:
  "read_bus_subscriber p i b = Some (b', x) \<Longrightarrow> length (bus_heap b') = length (bus_heap b)"
  by (auto simp: read_bus_subscriber_def Let_def with_stream_heap split: option.splits prod.splits bool.splits)

lemma process_heap:
  "list_all (heap_grows \<circ> fst) sched \<Longrightarrow> length (bus_heap b) \<le> length (bus_heap (fst (TranscodeTask_process sched p i t b)))"
proof (induction sched p i t b rule: TranscodeTask_process.induct)
  case (2 others ctxDone sched p i t b)
  have g: "length (bus_heap b) \<le> length (bus_heap (others b))" using 2(3) by (simp add: heap_grows_def)
  consider "ctxDone" | "\<not> ctxDone" "read_bus_subscriber p i (others b) = None"
    | b' where "\<not> ctxDone" "read_bus_subscriber p i (others b) = Some (b', None)"
    | b' msg where "\<not> ctxDone" "read_bus_subscriber p i (others b) = Some (b', Some msg)"
    by (metis option.exhaust surj_pair)
  then show ?case
  proof cases
    case 1
    then show ?thesis using g by simp
  next
    case empty: 2
    have "length (bus_heap (others b)) \<le> length (bus_heap (fst (TranscodeTask_process sched p i t (others b))))"
      using 2(1) [OF empty] 2(3) by simp
    then show ?thesis using empty g by simp
  next
    case (3 b')
    then show ?thesis using g read_subscriber_heap [OF 3(2)] by simp
  next
    case (4 b' msg)
    have "length (bus_heap b') \<le> length (bus_heap (fst (TranscodeTask_process sched p i t b')))"
      using 2(2) [OF 4(1) 4(2) refl refl] 2(3) by simp
    then show ?thesis using 4 g read_subscriber_heap [OF 4(2)] by (simp add: case_prod_beta)
  qed
qed simp

text \<open>
  A task that was started, worked for any time beside the rest of the server and was stopped
  leaves no subscriber behind.
\<close>

lemma task_detaches:
  assumes "tk_stream t = Some p" "p < length (bus_heap b)" "st_nextSubID (stream_at b p) \<noteq> 0"
    and "TranscodeTask_Start t b = Some (t1, b1)" "list_all (heap_grows \<circ> fst) sched"
    and "TranscodeTask_process sched p (st_nextSubID (stream_at b p)) t1 b1 = (b2, r)"
  shows "gomap_get (st_subscribers (stream_at (snd (TranscodeTask_Stop t1 b2)) p)) (st_nextSubID (stream_at b p)) = None"
proof -
  have t1: "tk_stream t1 = Some p" "tk_subscriberID t1 = st_nextSubID (stream_at b p)" "length (bus_heap b1) = length (bus_heap b)"
    using assms(1,4) by (auto simp: TranscodeTask_Start_def Stream_AttachSubscriber_def Let_def with_stream_heap)
  moreover have "p < length (bus_heap b2)" using process_heap [OF assms(5), of b1 p _ t1] assms(2,6) t1(3) by (metis fst_conv less_le_trans)
  ultimately show ?thesis using assms(3)
    by (simp add: TranscodeTask_Stop_def with_stream_heap Stream_DetachSubscriber_def)
qed

text \<open>
  Nothing is ever transcoded: every message a task reads is refused by its pipeline, and a
  manager never has a task, whatever profiles are configured.
\<close>

lemma process_refuses:
  "TranscodeTask_process sched p i t b = (b', r, es) \<Longrightarrow> list_all (\<lambda>e. e \<noteq> None) es"
  by (induction sched p i t b arbitrary: b' r es rule: TranscodeTask_process.induct)
    (auto simp: Pipeline_Process_def Output_WritePacket_def split: if_splits option.splits prod.splits)

lemma no_transcode_task: "TranscodeManager_TaskCount (fst (TranscodeManager_StartTasks cfg TranscodeNewManager)) = 0"
  by (simp add: TranscodeManager_TaskCount_def TranscodeManager_StartTasks_def TranscodeNewManager_def)

end
