(* ===== verification/Server.thy ===== *)
theory Server
  imports RTMP_Server WS_FLV Packager API_Metrics Transcode
begin

text \<open>
  The server that puts the services together (\<open>internal/server\<close>, \<open>cmd/nonchalant\<close>): its
  construction from the configuration, the routing of HTTP requests, start and shutdown. The
  routing follows \<open>http.ServeMux\<close> for paths without percent escapes and patterns without
  methods, hosts and wildcards, as all of the server's are. The transcode manager is that of the
  default build.
\<close>

section \<open>Routing\<close>

text \<open>\<open>cleanPath\<close> of \<open>net/http\<close>: cleaned, with its trailing slash kept.\<close>

definition cleanPath :: "string \<Rightarrow> string" where
  "cleanPath p =
     (if p = '''' then ''/''
      else
        (let p = (if hd p \<noteq> CHR ''/'' then CHR ''/'' # p else p);
             np = filepath_Clean p
         in if last p = CHR ''/'' \<and> np \<noteq> ''/'' then np @ ''/'' else np))"

text \<open>A pattern that ends in a slash matches all below it, others match only themselves.\<close>

definition pattern_matches :: "string \<Rightarrow> string \<Rightarrow> bool" where
  "pattern_matches pat path \<longleftrightarrow> (if last pat = CHR ''/'' then HasPrefix path pat else path = pat)"

definition mux_match :: "(string \<times> 'h) list \<Rightarrow> string \<Rightarrow> (string \<times> 'h) option" where
  "mux_match routes path =
     (case filter (\<lambda>r. pattern_matches (fst r) path) routes of
        [] \<Rightarrow> None
      | r # rs \<Rightarrow> Some (foldl (\<lambda>best r. if length (fst r) > length (fst best) then r else best) r rs))"

datatype 'h mux_result = MuxRedirect string | MuxServe 'h | MuxNotFound

definition mux_handler :: "(string \<times> 'h) list \<Rightarrow> string \<Rightarrow> 'h mux_result" where
  "mux_handler routes path =
     (let clean = cleanPath path in
      if clean \<notin> set (map fst routes) \<and> clean @ ''/'' \<in> set (map fst routes) then MuxRedirect (clean @ ''/'')
      else if clean \<noteq> path then MuxRedirect clean
      else (case mux_match routes path of None \<Rightarrow> MuxNotFound | Some (_, h) \<Rightarrow> MuxServe h))"

section \<open>Construction\<close>

text \<open>
  \<open>se_pkger = None\<close>: the packager could not be created. \<open>se_httpServing\<close> tells whether the
  HTTP server listens.
\<close>

record Server =
  se_addr :: string
  se_bus :: Bus
  se_publishKeys :: "KeySet option"
  se_playKeys :: "KeySet option"
  se_relayMgr :: RelayManager
  se_pkger :: "PkManager option"
  se_startTime :: u64
  se_rtmpServer :: RtmpServer
  se_httpServing :: bool

definition firstKey :: "string list \<Rightarrow> string" where
  "firstKey keys = (case find (\<lambda>k. k \<noteq> '''') keys of Some k \<Rightarrow> k | None \<Rightarrow> '''')"

definition ladderToPkger :: "LadderRung list \<Rightarrow> PkRung list" where
  "ladderToPkger rungs =
     map (\<lambda>r. \<lparr>pr_Name = lr_Name r, pr_Width = lr_Width r, pr_Height = lr_Height r,
            pr_VideoBitrate = lr_VideoBitrate r, pr_AudioBitrate = lr_AudioBitrate r, pr_AudioOnly = lr_AudioOnly r\<rparr>) rungs"

definition server_New :: "string option \<Rightarrow> u64 \<Rightarrow> Config \<Rightarrow> Server" where
  "server_New mkdirTemp now cfg =
     (let registry = NewRegistry;
          publishKeys = NewKeySet (ac_PublishKeys (cf_Auth cfg));
          playKeys = NewKeySet (ac_PlayKeys (cf_Auth cfg));
          relayMgr = RelayManager_SetEndpoints (sc_RTMPPort (cf_Server cfg)) (sc_HTTPPort (cf_Server cfg))
            (firstKey (ac_PublishKeys (cf_Auth cfg))) (firstKey (ac_PlayKeys (cf_Auth cfg))) RelayNewManager;
          pkgerSvc = (case PkNewService mkdirTemp (sc_HTTPPort (cf_Server cfg))
              \<lparr>op_LowLatency = hls_LowLatency (cf_HLS cfg), op_Ladder = ladderToPkger (hls_Ladder (cf_HLS cfg))\<rparr> of
              Inl _ \<Rightarrow> None | Inr m \<Rightarrow> Some m)
      in \<lparr>se_addr = '':'' @ itoa (sc_HTTPPort (cf_Server cfg)), se_bus = registry,
          se_publishKeys = publishKeys, se_playKeys = playKeys, se_relayMgr = relayMgr, se_pkger = pkgerSvc,
          se_startTime = now, se_rtmpServer = RtmpNewServer publishKeys, se_httpServing = False\<rparr>)"

datatype endpoint =
    EpHealth
  | EpApiServer
  | EpApiStreams
  | EpApiRelay
  | EpApiRelayRestart
  | EpMetrics
  | EpPprof
  | EpHLS
  | EpDASH
  | EpWS
  | EpFLV

text \<open>What each service registers, in the order of the calls in \<open>New\<close>.\<close>

definition health_RegisterRoutes :: "(string \<times> endpoint) list" where
  "health_RegisterRoutes = [(''/healthz'', EpHealth)]"

definition api_RegisterRoutes :: "(string \<times> endpoint) list" where
  "api_RegisterRoutes =
     [(''/api/server'', EpApiServer), (''/api/streams'', EpApiStreams), (''/api/relay'', EpApiRelay),
      (''/api/relay/restart'', EpApiRelayRestart)]"

definition metrics_RegisterRoutes :: "(string \<times> endpoint) list" where
  "metrics_RegisterRoutes = [(''/metrics'', EpMetrics)]"

definition pkger_RegisterRoutes :: "(string \<times> endpoint) list" where
  "pkger_RegisterRoutes = [(''/hls/'', EpHLS), (''/dash/'', EpDASH)]"

definition wsflv_RegisterRoutes :: "(string \<times> endpoint) list" where
  "wsflv_RegisterRoutes = [(''/ws/'', EpWS)]"

definition httpflv_RegisterRoutes :: "(string \<times> endpoint) list" where
  "httpflv_RegisterRoutes = [(''/'', EpFLV)]"

definition server_routes :: "Server \<Rightarrow> (string \<times> endpoint) list" where
  "server_routes s =
     health_RegisterRoutes @ api_RegisterRoutes @ metrics_RegisterRoutes @
     [(''/debug/pprof/'', EpPprof), (''/debug/pprof/cmdline'', EpPprof), (''/debug/pprof/profile'', EpPprof),
      (''/debug/pprof/symbol'', EpPprof), (''/debug/pprof/trace'', EpPprof)] @
     (case se_pkger s of None \<Rightarrow> [] | Some _ \<Rightarrow> pkger_RegisterRoutes) @
     wsflv_RegisterRoutes @ httpflv_RegisterRoutes"

lemmas server_routes_defs = server_routes_def health_RegisterRoutes_def api_RegisterRoutes_def metrics_RegisterRoutes_def
  pkger_RegisterRoutes_def wsflv_RegisterRoutes_def httpflv_RegisterRoutes_def

section \<open>Start and shutdown\<close>

text \<open>
  \<open>Start\<close>: \<open>None\<close> while it serves. \<open>rtmpListen\<close> and \<open>httpListen\<close> are the errors of opening the
  two ports, \<open>None\<close> for none. The accept loop of the RTMP server starts as a goroutine.
\<close>

definition server_Start :: "go_error option \<Rightarrow> go_error option \<Rightarrow> Config \<Rightarrow> Server \<Rightarrow> Server \<times> go_error option" where
  "server_Start rtmpListen httpListen cfg s =
     (case RelayManager_StartTasks cfg (se_relayMgr s) of
        (m, Some err) \<Rightarrow> (s\<lparr>se_relayMgr := m\<rparr>, Some (Errorf (''start relay tasks: '' @ err_text err)))
      | (m, None) \<Rightarrow>
          (let s = s\<lparr>se_relayMgr := m\<rparr> in
           case stub_StartTasks cfg of
             Some err \<Rightarrow> (s, Some (Errorf (''start transcode tasks: '' @ err_text err)))
           | None \<Rightarrow>
               (case RtmpServer_Listen rtmpListen (se_rtmpServer s) of
                  (rtmp, Some err) \<Rightarrow> (s\<lparr>se_rtmpServer := rtmp\<rparr>, Some (Errorf (''RTMP server listen: '' @ err_text err)))
                | (rtmp, None) \<Rightarrow>
                    (let s = s\<lparr>se_rtmpServer := rtmp\<rparr> in
                     case httpListen of
                       Some err \<Rightarrow> (s, Some err)
                     | None \<Rightarrow> (s\<lparr>se_httpServing := True\<rparr>, None)))))"

text \<open>
  \<open>http.Server.Shutdown\<close> closes the listener and waits for the requests under way, but not
  for hijacked connections; \<open>idle\<close> tells whether they ended within the five seconds.
\<close>

definition server_Shutdown :: "bool \<Rightarrow> Server \<Rightarrow> Server \<times> go_error option" where
  "server_Shutdown idle s =
     (s\<lparr>se_httpServing := False\<rparr>, if idle then None else Some (Errorf ''context deadline exceeded''))"

text \<open>The packagers that were stopped are returned as well.\<close>

definition server_ShutdownWithTimeout :: "bool \<Rightarrow> Server \<Rightarrow> (Server \<times> go_error option) \<times> Packager list" where
  "server_ShutdownWithTimeout idle s =
     (let s = s\<lparr>se_relayMgr := RelayManager_Stop (se_relayMgr s)\<rparr>;
          s = s\<lparr>se_rtmpServer := RtmpServer_Close (se_rtmpServer s)\<rparr>;
          (pkger, stopped) = (case se_pkger s of
             None \<Rightarrow> (None, [])
           | Some m \<Rightarrow> (case PkManager_Stop m of (m, stopped) \<Rightarrow> (Some m, stopped)));
          s = s\<lparr>se_pkger := pkger\<rparr>
      in (server_Shutdown idle s, stopped))"

record ShutdownHandler =
  sh_server :: Server
  sh_cancelled :: bool

definition NewShutdownHandler :: "Server \<Rightarrow> ShutdownHandler" where
  "NewShutdownHandler server = \<lparr>sh_server = server, sh_cancelled = False\<rparr>"

text \<open>\<open>Wait\<close>, once the signal has come.\<close>

definition ShutdownHandler_Wait :: "bool \<Rightarrow> ShutdownHandler \<Rightarrow> ShutdownHandler \<times> go_error option" where
  "ShutdownHandler_Wait idle h =
     (let h = h\<lparr>sh_cancelled := True\<rparr>
      in (case server_Shutdown idle (sh_server h) of (s, err) \<Rightarrow> (h\<lparr>sh_server := s\<rparr>, err)))"

text \<open>\<open>main\<close> up to the start of the server.\<close>

definition main_server ::
    "(string \<Rightarrow> bytes option) \<Rightarrow> (bytes \<Rightarrow> Config option) \<Rightarrow> string option \<Rightarrow> u64 \<Rightarrow> string \<Rightarrow> (Config \<times> Server) result" where
  "main_server readFile decodeYAML mkdirTemp now configPath =
     (case Load readFile decodeYAML configPath of
        Inl err \<Rightarrow> Inl (Errorf ''Failed to load config'')
      | Inr cfg \<Rightarrow>
          (case Config_Validate cfg of
             Some err \<Rightarrow> Inl (Errorf ''Invalid config'')
           | None \<Rightarrow> Inr (cfg, server_New mkdirTemp now cfg)))"

text \<open>
  The exit status of the process, \<open>None\<close> while it runs. \<open>signal\<close>: none yet, or one came and
  the requests under way ended in time or not.
\<close>

definition main_exit ::
    "(Config \<times> Server) result \<Rightarrow> go_error option \<Rightarrow> go_error option \<Rightarrow> bool option \<Rightarrow> nat option" where
  "main_exit started rtmpListen httpListen signal =
     (case started of
        Inl err \<Rightarrow> Some 1
      | Inr (cfg, srv) \<Rightarrow>
          (case server_Start rtmpListen httpListen cfg srv of
             (srv, Some err) \<Rightarrow> Some 1
           | (srv, None) \<Rightarrow>
               (case signal of
                  None \<Rightarrow> None
                | Some idle \<Rightarrow>
                    (case ShutdownHandler_Wait idle (NewShutdownHandler srv) of
                       (h, Some err) \<Rightarrow> Some 1
                     | (h, None) \<Rightarrow> Some 0))))"

section \<open>Facts about routing\<close>

lemma foldl_longest:
  "foldl (\<lambda>best r. if length (fst r) > length (fst best) then r else best) r rs \<in> set (r # rs) \<and>
   (\<forall>r' \<in> set (r # rs). length (fst r') \<le> length (fst (foldl (\<lambda>best r. if length (fst r) > length (fst best) then r else best) r rs)))"
proof (induction rs arbitrary: r)
  case (Cons x xs)
  define y where "y = (if length (fst x) > length (fst r) then x else r)"
  have "y = x \<or> y = r" "length (fst x) \<le> length (fst y)" "length (fst r) \<le> length (fst y)" by (auto simp: y_def)
  then show ?case using Cons [of y] unfolding foldl_Cons y_def [symmetric] by (auto intro: order_trans)
qed simp

lemma mux_match_Some:
  assumes "mux_match routes path = Some r"
  shows "r \<in> set routes" "pattern_matches (fst r) path"
    and "\<And>r'. r' \<in> set routes \<Longrightarrow> pattern_matches (fst r') path \<Longrightarrow> length (fst r') \<le> length (fst r)"
proof -
  obtain x xs where f: "filter (\<lambda>r. pattern_matches (fst r) path) routes = x # xs"
    and r: "r = foldl (\<lambda>best r. if length (fst r) > length (fst best) then r else best) x xs"
    using assms by (auto simp: mux_match_def split: list.splits)
  have set: "set (x # xs) = {r \<in> set routes. pattern_matches (fst r) path}" by (simp add: f [symmetric])
  note l = foldl_longest [of x xs, folded r, unfolded set]
  show "r \<in> set routes" "pattern_matches (fst r) path"
    "\<And>r'. r' \<in> set routes \<Longrightarrow> pattern_matches (fst r') path \<Longrightarrow> length (fst r') \<le> length (fst r)"
    using l by auto
qed

lemma mux_match_None: "mux_match routes path = None \<longleftrightarrow> (\<forall>r \<in> set routes. \<not> pattern_matches (fst r) path)"
  by (auto simp: mux_match_def filter_empty_conv split: list.splits)
    (metis (no_types, lifting) filter_empty_conv list.distinct(1))

text \<open>Two patterns of the same length that match the same path are the same.\<close>

lemma pattern_unique: "pattern_matches p path \<Longrightarrow> pattern_matches q path \<Longrightarrow> length p = length q \<Longrightarrow> p = q"
  by (auto simp: pattern_matches_def HasPrefix_def split: if_splits)

lemma mux_match_unique:
  assumes "distinct (map fst routes)" "r \<in> set routes" "pattern_matches (fst r) path"
    and "\<And>r'. r' \<in> set routes \<Longrightarrow> pattern_matches (fst r') path \<Longrightarrow> length (fst r') \<le> length (fst r)"
  shows "mux_match routes path = Some r"
proof -
  obtain m where m: "mux_match routes path = Some m" using assms(2,3) mux_match_None [of routes path] by (cases "mux_match routes path") auto
  note mm = mux_match_Some [OF m]
  have "fst m = fst r"
    by (rule pattern_unique [OF mm(2) assms(3)]) (use mm(3) [OF assms(2,3)] assms(4) [OF mm(1,2)] in simp)
  then have "m = r" using assms(1,2) mm(1) by (metis eq_key_imp_eq_value prod.collapse)
  with m show ?thesis by simp
qed

text \<open>
  The order in which the services register their routes does not matter: any order of the
  same distinct patterns sends every path to the same handler, so the catch-all route of the
  players masks none of the others.
\<close>

theorem routing_order_irrelevant:
  assumes "mset routes' = mset routes" "distinct (map fst routes)"
  shows "mux_handler routes' path = mux_handler routes path"
proof -
  have set: "set routes' = set routes" using assms(1) by (metis set_mset_mset)
  have dist: "distinct (map fst routes')" using assms by (metis mset_eq_imp_distinct_iff mset_map)
  have "mux_match routes' path = mux_match routes path"
  proof (cases "mux_match routes path")
    case None
    then show ?thesis using mux_match_None [of routes path] mux_match_None [of routes' path] set by simp
  next
    case (Some r)
    note m = mux_match_Some [OF Some]
    show ?thesis unfolding Some by (rule mux_match_unique [OF dist]) (use m set in auto)
  qed
  then show ?thesis unfolding mux_handler_def Let_def by (simp add: set)
qed

lemma server_patterns_distinct: "distinct (map fst (server_routes s))"
  by (cases "se_pkger s") (simp_all add: server_routes_defs)

section \<open>Paths of streams\<close>

lemma Clean_abs: "list_all plain_elem es \<Longrightarrow> es \<noteq> [] \<Longrightarrow> filepath_Clean (abs_path es) = abs_path es"
  using Split_abs [of es] clean_plain [of es True "[]"] by (simp add: filepath_Clean_def abs_path_def)

lemma abs_path_last:
  assumes "list_all plain_elem es" "es \<noteq> []"
  shows "last (abs_path es) \<noteq> CHR ''/''"
proof -
  obtain ds e where es: "es = ds @ [e]" using assms(2) by (metis rev_exhaust)
  then have e: "e \<noteq> ''''" "CHR ''/'' \<notin> set e" using assms(1) by (auto simp: plain_elem_def)
  then have "last e \<noteq> CHR ''/''" by (metis last_in_set)
  moreover have "last (abs_path es) = last e" using e es by (cases "ds = []") (auto simp: abs_path_def Join_append)
  ultimately show ?thesis by simp
qed

lemma cleanPath_abs: "list_all plain_elem es \<Longrightarrow> es \<noteq> [] \<Longrightarrow> cleanPath (abs_path es) = abs_path es"
  using Clean_abs [of es] abs_path_last [of es] by (simp add: cleanPath_def abs_path_def Let_def)

text \<open>Which patterns match a path, read off its elements.\<close>

lemma abs_path_eq: "list_all plain_elem es \<Longrightarrow> list_all plain_elem ds \<Longrightarrow> es \<noteq> [] \<Longrightarrow> ds \<noteq> [] \<Longrightarrow> abs_path es = abs_path ds \<longleftrightarrow> es = ds"
  using Split_abs [of es] Split_abs [of ds] by (metis list.inject)

lemma abs_path_below:
  assumes "list_all plain_elem es" "list_all plain_elem ds" "ds \<noteq> []"
  shows "HasPrefix (abs_path es) (abs_path ds @ ''/'') \<longleftrightarrow> (\<exists>rest. es = ds @ rest \<and> rest \<noteq> [])"
proof
  assume "HasPrefix (abs_path es) (abs_path ds @ ''/'')"
  then obtain t where t: "abs_path es = abs_path ds @ CHR ''/'' # t" by (auto simp: HasPrefix_iff prefix_def)
  have es: "es \<noteq> []"
  proof
    assume "es = []"
    then have "length (abs_path es) = 1" by (simp add: abs_path_def)
    then show False using t by (simp add: abs_path_def)
  qed
  have "Split (a @ CHR ''/'' # b) (CHR ''/'') = Split a (CHR ''/'') @ Split b (CHR ''/'')" for a b
    by (induction a) (auto split: list.splits simp: Split_nonempty)
  then have "'''' # es = ('''' # ds) @ Split t (CHR ''/'')"
    using t Split_abs [OF assms(1) es] Split_abs [OF assms(2,3)] by metis
  then show "\<exists>rest. es = ds @ rest \<and> rest \<noteq> []" by (auto simp: Split_nonempty)
next
  assume "\<exists>rest. es = ds @ rest \<and> rest \<noteq> []"
  then show "HasPrefix (abs_path es) (abs_path ds @ ''/'')" using abs_path_inside [OF assms(3)] by blast
qed

text \<open>The patterns of the server as elements: exact ones and the roots of subtrees.\<close>

definition exact_routes :: "(string list \<times> endpoint) list" where
  "exact_routes =
     [([''healthz''], EpHealth), ([''api'', ''server''], EpApiServer), ([''api'', ''streams''], EpApiStreams),
      ([''api'', ''relay''], EpApiRelay), ([''api'', ''relay'', ''restart''], EpApiRelayRestart), ([''metrics''], EpMetrics),
      ([''debug'', ''pprof'', ''cmdline''], EpPprof), ([''debug'', ''pprof'', ''profile''], EpPprof),
      ([''debug'', ''pprof'', ''symbol''], EpPprof), ([''debug'', ''pprof'', ''trace''], EpPprof)]"

definition subtree_routes :: "Server \<Rightarrow> (string list \<times> endpoint) list" where
  "subtree_routes s = [([''debug'', ''pprof''], EpPprof), ([''ws''], EpWS)] @
     (case se_pkger s of None \<Rightarrow> [] | Some _ \<Rightarrow> [([''hls''], EpHLS), ([''dash''], EpDASH)])"

lemma server_routes_elems:
  "set (server_routes s) =
     set (map (\<lambda>(es, h). (abs_path es, h)) exact_routes @
       map (\<lambda>(es, h). (abs_path es @ ''/'', h)) (subtree_routes s) @ [(''/'', EpFLV)])"
proof -
  have "mset (server_routes s) = mset (map (\<lambda>(es, h). (abs_path es, h)) exact_routes @
       map (\<lambda>(es, h). (abs_path es @ ''/'', h)) (subtree_routes s) @ [(''/'', EpFLV)])"
    by (cases "se_pkger s") (simp_all add: server_routes_defs exact_routes_def subtree_routes_def abs_path_def)
  then show ?thesis by (metis set_mset_mset)
qed

lemma route_elems_plain:
  "(es, h) \<in> set exact_routes \<Longrightarrow> list_all plain_elem es \<and> es \<noteq> []"
  "(es, h) \<in> set (subtree_routes s) \<Longrightarrow> list_all plain_elem es \<and> es \<noteq> []"
  by (auto simp: exact_routes_def subtree_routes_def plain_elem_def split: option.splits)

text \<open>A path below no subtree and equal to no exact pattern goes to the players.\<close>

lemma mux_abs:
  assumes es: "list_all plain_elem es" "es \<noteq> []"
    and no_sub: "\<And>ds h. (ds, h) \<in> set (subtree_routes s) \<Longrightarrow> ds \<noteq> es"
    and r: "r \<in> set (server_routes s)" "pattern_matches (fst r) (abs_path es)"
    and longest: "\<And>r'. r' \<in> set (server_routes s) \<Longrightarrow> pattern_matches (fst r') (abs_path es) \<Longrightarrow> length (fst r') \<le> length (fst r)"
  shows "mux_handler (server_routes s) (abs_path es) = MuxServe (snd r)"
proof -
  have "abs_path es @ ''/'' \<notin> set (map fst (server_routes s))"
  proof
    assume "abs_path es @ ''/'' \<in> set (map fst (server_routes s))"
    then consider ds h where "(ds, h) \<in> set exact_routes" "abs_path ds = abs_path es @ ''/''"
      | ds h where "(ds, h) \<in> set (subtree_routes s)" "abs_path ds @ ''/'' = abs_path es @ ''/''"
      | "''/'' = abs_path es @ ''/''"
      unfolding server_routes_elems set_map by (auto simp: server_routes_elems)
    then show False
    proof cases
      case 1
      then show False using abs_path_last [of ds] route_elems_plain(1) [OF 1(1)] by (metis last_snoc)
    next
      case 2
      then show False using no_sub [OF 2(1)] abs_path_eq [of ds es] route_elems_plain(2) [OF 2(1)] es by simp
    qed (simp add: abs_path_def)
  qed
  moreover have "mux_match (server_routes s) (abs_path es) = Some r"
    by (rule mux_match_unique [OF server_patterns_distinct r longest])
  ultimately show ?thesis using cleanPath_abs [OF es] by (cases r) (simp add: mux_handler_def)
qed

lemma matching_routes:
  assumes es: "list_all plain_elem es" and r: "r \<in> set (server_routes s)" "pattern_matches (fst r) (abs_path es)"
  shows "(es, snd r) \<in> set exact_routes \<and> fst r = abs_path es \<or>
    (\<exists>ds rest. (ds, snd r) \<in> set (subtree_routes s) \<and> es = ds @ rest \<and> rest \<noteq> [] \<and> fst r = abs_path ds @ ''/'') \<or>
    r = (''/'', EpFLV)"
proof -
  consider ds h where "(ds, h) \<in> set exact_routes" "r = (abs_path ds, h)"
    | ds h where "(ds, h) \<in> set (subtree_routes s)" "r = (abs_path ds @ ''/'', h)"
    | "r = (''/'', EpFLV)"
    using r(1) unfolding server_routes_elems by auto
  then show ?thesis
  proof cases
    case 1
    then have p: "list_all plain_elem ds" "ds \<noteq> []" using route_elems_plain(1) by auto
    then have eq: "abs_path es = abs_path ds" using r(2) 1 abs_path_last [of ds] by (simp add: pattern_matches_def)
    have "es \<noteq> []"
    proof
      assume "es = []"
      then have "length (abs_path ds) = 1" using eq by (simp add: abs_path_def)
      then show False using abs_path_last [OF p] by (auto simp: abs_path_def)
    qed
    then show ?thesis using 1 abs_path_eq [OF es p(1)] p eq by simp
  next
    case 2
    then have p: "list_all plain_elem ds" "ds \<noteq> []" using route_elems_plain(2) by auto
    then have "HasPrefix (abs_path es) (abs_path ds @ ''/'')" using r(2) 2 by (simp add: pattern_matches_def)
    then show ?thesis using 2 abs_path_below [OF es p] by auto
  qed simp
qed

lemma root_route:
  assumes es: "list_all plain_elem es" "es \<noteq> []"
    and "\<And>h. (es, h) \<notin> set exact_routes" "\<And>ds rest h. (ds, h) \<in> set (subtree_routes s) \<Longrightarrow> es \<noteq> ds @ rest"
  shows "mux_handler (server_routes s) (abs_path es) = MuxServe EpFLV"
proof -
  have "mux_handler (server_routes s) (abs_path es) = MuxServe (snd (''/'', EpFLV))"
  proof (rule mux_abs [OF es])
    show "ds \<noteq> es" if "(ds, h) \<in> set (subtree_routes s)" for ds h using assms(4) [OF that, of "[]"] by auto
    show "(''/'', EpFLV) \<in> set (server_routes s)" by (simp add: server_routes_elems)
    show "pattern_matches (fst (''/'', EpFLV)) (abs_path es)" by (simp add: pattern_matches_def HasPrefix_def abs_path_def)
    show "length (fst r) \<le> length (fst (''/'', EpFLV))" if "r \<in> set (server_routes s)" "pattern_matches (fst r) (abs_path es)" for r
      using matching_routes [OF es(1) that] assms(3,4) by auto
  qed
  then show ?thesis by simp
qed

lemma subtree_route:
  assumes es: "list_all plain_elem (d # rest)" "rest \<noteq> []" and d: "([d], h) \<in> set (subtree_routes s)"
    and "\<And>h. (d # rest, h) \<notin> set exact_routes" "\<And>ds h. (ds, h) \<in> set (subtree_routes s) \<Longrightarrow> hd ds = d \<Longrightarrow> ds = [d]"
  shows "mux_handler (server_routes s) (abs_path (d # rest)) = MuxServe h"
proof -
  have "mux_handler (server_routes s) (abs_path (d # rest)) = MuxServe (snd (abs_path [d] @ ''/'', h))"
  proof (rule mux_abs)
    show "list_all plain_elem (d # rest)" "d # rest \<noteq> []" using es by auto
    show "ds \<noteq> d # rest" if "(ds, h) \<in> set (subtree_routes s)" for ds h using assms(5) [OF that] es(2) by auto
    show "(abs_path [d] @ ''/'', h) \<in> set (server_routes s)" using d by (force simp: server_routes_elems)
    have "HasPrefix (abs_path ([d] @ rest)) (abs_path [d] @ ''/'')" by (rule abs_path_inside) (use es(2) in auto)
    then show "pattern_matches (fst (abs_path [d] @ ''/'', h)) (abs_path (d # rest))" by (simp add: pattern_matches_def)
    show "length (fst r) \<le> length (fst (abs_path [d] @ ''/'', h))"
      if "r \<in> set (server_routes s)" "pattern_matches (fst r) (abs_path (d # rest))" for r
    proof -
      have "ds = [d]" if "(ds, h') \<in> set (subtree_routes s)" "d # rest = ds @ rest'" for ds h' rest'
        using assms(5) [OF that(1)] that(2) route_elems_plain(2) [OF that(1)] by (cases ds) auto
      then show ?thesis using matching_routes [OF es(1) that] assms(4) by auto
    qed
  qed
  then show ?thesis by simp
qed

lemma plain_suffix: "plain_elem e \<Longrightarrow> CHR ''/'' \<notin> set x \<Longrightarrow> 2 < length (e @ x) \<Longrightarrow> plain_elem (e @ x)"
  by (auto simp: plain_elem_def dest: arg_cong [where f = length])

lemma flv_elem: "plain_elem name \<Longrightarrow> plain_elem (name @ ''.flv'')"
  by (rule plain_suffix) (auto simp: plain_elem_def)

lemma flv_not: "last x \<noteq> CHR ''v'' \<Longrightarrow> name @ ''.flv'' \<noteq> x"
  by auto

lemma index_no_dots: "\<not> Contains ''index.m3u8'' ''..''"
  by (simp add: HasPrefix_def)

lemma stream_file_path:
  assumes slash: "CHR ''/'' \<notin> set app" "CHR ''/'' \<notin> set name" and dots: "\<not> Contains app ''..''" "\<not> Contains name ''..''"
    and es: "es \<noteq> []" "list_all isSafeSegment es" "list_all (\<lambda>e. \<not> Contains e ''..'') es" "path_Ext (last es) \<in> set exts"
  shows "splitPath (app @ ''/'' @ name @ ''/'' @ Join es ''/'') exts = Some (app, name, Join es ''/'')"
proof -
  define rel where "rel = app @ CHR ''/'' # name @ CHR ''/'' # Join es ''/''"
  have safe: "CHR ''/'' \<notin> set e" if "e \<in> set es" for e
    using es(2) that by (auto simp: list_all_iff isSafeSegment_def ContainsAny_def list_ex_iff split: if_splits)
  have sp: "Split rel (CHR ''/'') = app # name # es"
    using slash Split_Join [of es "CHR ''/''"] es(1) safe by (simp add: rel_def Split_append)
  have "\<not> Contains (Join es ''/'') ''..''"
    using es(1,3) by (induction es "''/''" rule: Join.induct) (auto simp: two_dots_across simp del: Contains.simps)
  then have "\<not> Contains rel ''..''" using dots by (simp add: rel_def two_dots_across del: Contains.simps)
  moreover have "rel \<noteq> ''''" by (simp add: rel_def)
  ultimately have "splitPath rel exts = Some (app, name, Join es ''/'')"
    using es(1,2,4) by (cases "length es") (auto simp: splitPath_def sp last_conv_nth list_ex_iff Let_def simp del: Contains.simps)
  then show ?thesis by (simp add: rel_def)
qed


definition example_server :: Server where
  "example_server = server_New (Some ''/tmp'') 0 (setDefaults empty_config)"


theorem routing_order_irrelevant_witness:
  "mux_handler (rev (server_routes example_server)) ''/api/streams'' = mux_handler (server_routes example_server) ''/api/streams''"
  by (rule routing_order_irrelevant) (simp_all add: server_patterns_distinct)

section \<open>Relays of the server\<close>

text \<open>The request that a client sends for a target with an optional query.\<close>

definition url_request :: "string \<Rightarrow> flv_request" where
  "url_request target = (case Cut target (CHR ''?'') of (path, query, _) \<Rightarrow> \<lparr>rq_Method = ''GET'', rq_Path = path, rq_RawQuery = query\<rparr>)"

definition plain_key :: "string \<Rightarrow> bool" where
  "plain_key k \<longleftrightarrow> TrimSpace k = k \<and> set k \<inter> {CHR ''&'', CHR '';'', CHR ''%'', CHR ''+''} = {}"

definition endpoints :: "RelayManager \<Rightarrow> int \<times> int \<times> string \<times> string" where
  "endpoints m = (rm_rtmpPort m, rm_httpPort m, rm_publishKey m, rm_playKey m)"

lemma endpoints_StartTasks: "endpoints (fst (StartTasks_loop cfgs m)) = endpoints m"
  by (induction cfgs m rule: StartTasks_loop.induct) (auto simp: Let_def endpoints_def split: option.splits)

lemma endpoints_step: "relay_step m m' \<Longrightarrow> endpoints m' = endpoints m"
  by (cases rule: relay_step.cases, assumption)
    (auto simp: RelayManager_StartTasks_def endpoints_StartTasks RelayManager_Restart_def RelayManager_Stop_def Let_def
      endpoints_def [of "_\<lparr>rm_slots := _\<rparr>"] endpoints_def [of m] split: option.splits)

interpretation ends: inductive_invariant "\<lambda>m. m = m0" relay_step "\<lambda>m. endpoints m = endpoints m0"
  by unfold_locales (auto simp: endpoints_step)

lemma reach_from_init: "reachable_from (\<lambda>m. m = m0) relay_step m \<Longrightarrow> relay_init m0 \<Longrightarrow> reachable_from relay_init relay_step m"
proof (induction rule: reachable_from.induct)
  case (reach_start s)
  then show ?case by (metis reachable_from.reach_start)
next
  case (reach_step s t)
  then show ?case by (metis reachable_from.reach_step)
qed

lemma ParseStreamName_bare: "CHR ''?'' \<notin> set name \<Longrightarrow> ParseStreamName name = (name, '''')"
  by (simp add: ParseStreamName_def IndexByte_def Cut_absent)

lemma firstKey_mem: "firstKey keys \<noteq> '''' \<Longrightarrow> firstKey keys \<in> set keys"
proof (cases "find (\<lambda>k. k \<noteq> '''') keys")
  case (Some k)
  then have "k \<in> set keys" by (auto simp: find_Some_iff)
  then show ?thesis using Some by (simp add: firstKey_def)
qed (simp add: firstKey_def)

lemma firstKey_allowed:
  assumes "\<And>k. k \<in> set keys \<Longrightarrow> TrimSpace k = k"
  shows "KeySet_Allow (NewKeySet keys) (firstKey keys)" "firstKey keys = '''' \<longleftrightarrow> NewKeySet keys = None"
proof -
  have none: "firstKey keys = '''' \<longleftrightarrow> (\<forall>k \<in> set keys. k = '''')"
    by (auto simp: firstKey_def find_None_iff find_Some_iff split: option.splits)
  note some = firstKey_mem [of keys]
  show "KeySet_Allow (NewKeySet keys) (firstKey keys)"
    unfolding Allow_NewKeySet using none some assms by (metis image_eqI)
  have "NewKeySet keys = None \<longleftrightarrow> (\<forall>k \<in> set keys. TrimSpace k = '''')"
    by (auto simp: NewKeySet_def Let_def filter_empty_conv)
  then show "firstKey keys = '''' \<longleftrightarrow> NewKeySet keys = None" using none assms by auto
qed

lemma firstKey_plain: "list_all plain_key keys \<Longrightarrow> set (firstKey keys) \<inter> {CHR ''&'', CHR '';'', CHR ''%'', CHR ''+''} = {}"
  using firstKey_mem [of keys] by (cases "firstKey keys = ''''") (auto simp: list_all_iff plain_key_def)

lemma play_address_admitted:
  assumes keys: "list_all plain_key keys" and q: "CHR ''?'' \<notin> set path"
    and target: "target = path @ (if firstKey keys = '''' then '''' else CHR ''?'' # ''key='' @ firstKey keys)"
  shows "rq_Path (url_request target) = path \<and>
    http_flv_route (NewKeySet keys) env hj b (url_request target) = http_serveDispatched env hj (url_request target) b"
proof -
  have trim: "\<And>k. k \<in> set keys \<Longrightarrow> TrimSpace k = k" using keys by (auto simp: list_all_iff plain_key_def)
  note play = firstKey_allowed [of keys, OF trim]
  have req: "rq_Path (url_request target) = path" "firstKey keys \<noteq> '''' \<Longrightarrow> rq_RawQuery (url_request target) = ''key='' @ firstKey keys"
    using Cut_append [OF q, of "''key='' @ firstKey keys"] Cut_absent [OF q] by (simp_all add: url_request_def target)
  show ?thesis
  proof (cases "firstKey keys = ''''")
    case True
    then show ?thesis using play(2) req(1) by (simp add: http_flv_route_def)
  next
    case False
    have "Values_Get (fst (ParseQuery (rq_RawQuery (url_request target)))) ''key'' = firstKey keys"
      unfolding req(2) [OF False] ParseQuery_key [OF firstKey_plain [OF keys]] by (simp add: Values_Get_def)
    then show ?thesis using play(1) req(1) unfolding http_flv_route_def Gate_def by (auto split: option.splits)
  qed
qed


definition example_relay_config :: Config where
  "example_relay_config =
     (setDefaults empty_config)\<lparr>cf_Auth := \<lparr>ac_PublishKeys = [''k''], ac_PlayKeys = []\<rparr>, cf_Relays := [example_relay]\<rparr>"


section \<open>Ladders\<close>

text \<open>The rungs of a valid ladder, as the packager gets them.\<close>

lemma ladder_name_no_space: "isLadderName name \<Longrightarrow> CHR '' '' \<notin> set name"
proof -
  have "\<not> ladder_char (CHR '' '')" by (simp add: ladder_char_def)
  then show "CHR '' '' \<notin> set name" if "isLadderName name" using that by (auto simp: isLadderName_def list_all_iff)
qed

lemma utoa_no_space: "CHR '' '' \<notin> set (utoa n)"
  using utoa_digits [of "CHR '' ''" n] by auto

lemma var_stream_map_entries:
  assumes "list_all (\<lambda>r. isLadderName (pr_Name r)) (video @ audio)" "video @ audio \<noteq> []"
  shows "Split (buildVarStreamMap video audio) (CHR '' '') =
    map (\<lambda>(i, r). ''v:'' @ utoa i @ '',a:'' @ utoa i @ '',name:'' @ pr_Name r) (enumerate 0 video) @
    map (\<lambda>(j, r). ''a:'' @ utoa (length video + j) @ '',name:'' @ pr_Name r) (enumerate 0 audio)"
proof -
  have name: "CHR '' '' \<notin> set (pr_Name r)" if "(i, r) \<in> set (enumerate 0 video) \<or> (i, r) \<in> set (enumerate 0 audio)" for i r
    using assms(1) that ladder_name_no_space [of "pr_Name r"] by (auto simp: in_set_enumerate_eq list_all_iff)
  have "CHR '' '' \<notin> set (''v:'' @ utoa i @ '',a:'' @ utoa i @ '',name:'' @ pr_Name r)" if "(i, r) \<in> set (enumerate 0 video)" for i r
    using name [of i r] that utoa_no_space by simp
  moreover have "CHR '' '' \<notin> set (''a:'' @ utoa (length video + i) @ '',name:'' @ pr_Name r)" if "(i, r) \<in> set (enumerate 0 audio)" for i r
    using name [of i r] that utoa_no_space by simp
  moreover have "enumerate 0 video \<noteq> [] \<or> enumerate 0 audio \<noteq> []" using assms(2) by (simp add: enumerate_eq_zip)
  ultimately show ?thesis unfolding buildVarStreamMap_def Let_def by (intro Split_Join) auto
qed

lemma rung_has_entry:
  assumes "list_all (\<lambda>r. isLadderName (pr_Name r)) (video @ audio)" "video @ audio \<noteq> []" "q \<in> set (video @ audio)"
  shows "\<exists>spec. spec @ '',name:'' @ pr_Name q \<in> set (Split (buildVarStreamMap video audio) (CHR '' ''))"
proof -
  note entries = var_stream_map_entries [OF assms(1,2)]
  have enum: "\<exists>i. (i, q) \<in> set (enumerate 0 qs)" if "q \<in> set qs" for qs :: "PkRung list"
    using that by (auto simp: in_set_conv_nth [of q] in_set_enumerate_eq)
  consider i where "(i, q) \<in> set (enumerate 0 video)" | i where "(i, q) \<in> set (enumerate 0 audio)"
    using assms(3) enum [of video] enum [of audio] by auto
  then show ?thesis
  proof cases
    case 1
    then have "(''v:'' @ utoa i @ '',a:'' @ utoa i) @ '',name:'' @ pr_Name q \<in> set (Split (buildVarStreamMap video audio) (CHR '' ''))"
      unfolding entries by force
    then show ?thesis by blast
  next
    case 2
    then have "(''a:'' @ utoa (length video + i)) @ '',name:'' @ pr_Name q \<in> set (Split (buildVarStreamMap video audio) (CHR '' ''))"
      unfolding entries by force
    then show ?thesis by blast
  qed
qed

lemma rung_playlist_path:
  assumes "isLadderName rung"
    and names: "CHR ''/'' \<notin> set app" "CHR ''/'' \<notin> set name" "\<not> Contains app ''..''" "\<not> Contains name ''..''"
  shows "splitPath (app @ ''/'' @ name @ ''/'' @ rung @ ''/index.m3u8'') [''.m3u8'', ''.ts'', ''.m4s'', ''.mp4''] =
    Some (app, name, rung @ ''/index.m3u8'')"
proof -
  note p = ladder_name_plain [OF assms(1)]
  have "isSafeSegment rung" using p by (auto simp: isSafeSegment_def plain_elem_def ContainsAny_def list_ex_iff)
  then show ?thesis
    using stream_file_path [OF names, of "[rung, ''index.m3u8'']" "[''.m3u8'', ''.ts'', ''.m4s'', ''.mp4'']"] p(2) index_no_dots
    by (simp add: isSafeSegment_def [of "''index.m3u8''"] ContainsAny_def path_Ext_def del: Contains.simps)
qed

text \<open>
  C30. A valid ladder is packaged rung by rung: the stream map that a server with such a
  configuration hands to ffmpeg has one entry for every configured rung, under its name, and
  the playlist address of that rung is one that the file handler accepts for the stream.
\<close>

theorem ladder_rungs_served:
  assumes valid: "Config_Validate cfg = None" and ladder: "hls_Ladder (cf_HLS cfg) \<noteq> []"
    and pk: "se_pkger (server_New tmp now cfg) = Some m" "splitLadder (op_Ladder (mg_opts m)) = (video, audio)"
    and names: "CHR ''/'' \<notin> set app" "CHR ''/'' \<notin> set name" "\<not> Contains app ''..''" "\<not> Contains name ''..''"
  shows "length (Split (buildVarStreamMap video audio) (CHR '' '')) = length (hls_Ladder (cf_HLS cfg)) \<and>
    (\<forall>r \<in> set (hls_Ladder (cf_HLS cfg)).
       (\<exists>spec. spec @ '',name:'' @ lr_Name r \<in> set (Split (buildVarStreamMap video audio) (CHR '' ''))) \<and>
       splitPath (app @ ''/'' @ name @ ''/'' @ lr_Name r @ ''/index.m3u8'') [''.m3u8'', ''.ts'', ''.m4s'', ''.mp4''] =
         Some (app, name, lr_Name r @ ''/index.m3u8''))"
proof -
  let ?l = "hls_Ladder (cf_HLS cfg)"
  have ok: "ladder_ok ?l" using valid by (simp add: Validate_parts)
  have op: "op_Ladder (mg_opts m) = ladderToPkger ?l"
    using pk(1) by (auto simp: server_New_def Let_def PkNewService_def PkNewManager_def split: option.splits)
  have split: "video = filter (\<lambda>r. \<not> pr_AudioOnly r) (ladderToPkger ?l)" "audio = filter pr_AudioOnly (ladderToPkger ?l)"
    using pk(2) by (auto simp: op splitLadder_filter)
  have set: "set (video @ audio) = set (ladderToPkger ?l)" by (auto simp: split)
  have lad: "set (ladderToPkger ?l) = (\<lambda>r. \<lparr>pr_Name = lr_Name r, pr_Width = lr_Width r, pr_Height = lr_Height r,
      pr_VideoBitrate = lr_VideoBitrate r, pr_AudioBitrate = lr_AudioBitrate r, pr_AudioOnly = lr_AudioOnly r\<rparr>) ` set ?l"
    by (simp add: ladderToPkger_def)
  have name_ok: "isLadderName (lr_Name r)" if "r \<in> set ?l" for r using ok that by (simp add: ladder_ok_def list_all_iff rung_ok_def)
  then have plain: "list_all (\<lambda>r. isLadderName (pr_Name r)) (video @ audio)" unfolding list_all_iff set lad by auto
  have "set (video @ audio) \<noteq> {}" unfolding set lad using ladder by simp
  then have ne: "video @ audio \<noteq> []" by auto
  note entries = var_stream_map_entries [OF plain ne]
  have "length (video @ audio) = length ?l" using splitLadder_length [OF pk(2)] by (simp add: op ladderToPkger_def)
  then have len: "length (Split (buildVarStreamMap video audio) (CHR '' '')) = length ?l" by (simp add: entries)
  have "\<exists>spec. spec @ '',name:'' @ lr_Name r \<in> set (Split (buildVarStreamMap video audio) (CHR '' ''))" if r: "r \<in> set ?l" for r
  proof -
    have "\<exists>q \<in> set (video @ audio). pr_Name q = lr_Name r" unfolding set lad using r by (force simp: image_iff)
    then show ?thesis using rung_has_entry [OF plain ne] by metis
  qed
  moreover note rung_playlist_path [OF name_ok names]
  ultimately show ?thesis using len by blast
qed

definition example_ladder_config :: Config where
  "example_ladder_config =
     (setDefaults empty_config)\<lparr>cf_HLS := \<lparr>hls_LowLatency = False,
        hls_Ladder = [\<lparr>lr_Name = ''720p'', lr_Width = 1280, lr_Height = 720, lr_VideoBitrate = 2500, lr_AudioBitrate = 128, lr_AudioOnly = False\<rparr>]\<rparr>\<rparr>"

theorem ladder_rungs_served_witness:
  "splitPath ''live/cam/720p/index.m3u8'' [''.m3u8'', ''.ts'', ''.m4s'', ''.mp4''] = Some (''live'', ''cam'', ''720p/index.m3u8'')"
proof -
  have valid: "Config_Validate example_ladder_config = None"
    by (simp add: Validate_parts example_ladder_config_def setDefaults_def empty_config_def Let_def ports_ok_def ladder_ok_def
        rung_ok_def isLadderName_def ladder_char_def)
  have ladder: "hls_Ladder (cf_HLS example_ladder_config) \<noteq> []" by (simp add: example_ladder_config_def)
  obtain m where m: "se_pkger (server_New (Some ''/tmp'') 0 example_ladder_config) = Some m"
    by (simp add: server_New_def PkNewService_def PkNewManager_def Let_def)
  obtain video audio where sp: "splitLadder (op_Ladder (mg_opts m)) = (video, audio)" by fastforce
  have dots: "\<not> Contains ''live'' ''..''" "\<not> Contains ''cam'' ''..''" by (simp_all add: HasPrefix_def)
  show ?thesis
    using ladder_rungs_served [OF valid ladder m sp _ _ dots] by (simp add: example_ladder_config_def)
qed

section \<open>Start and shutdown\<close>

lemma server_start_up:
  "snd (server_Start rtmpListen httpListen cfg (server_New tmp now cfg)) = None \<longleftrightarrow>
     relays_ok (cf_Relays cfg) \<and> rtmpListen = None \<and> httpListen = None"
proof -
  let ?m = "se_relayMgr (server_New tmp now cfg)"
  have "\<exists>rp hp pk lk. ?m = RelayManager_SetEndpoints rp hp pk lk RelayNewManager" by (auto simp: server_New_def Let_def)
  then obtain rp hp pk lk where "?m = RelayManager_SetEndpoints rp hp pk lk RelayNewManager" by blast
  moreover obtain m err where st: "RelayManager_StartTasks cfg ?m = (m, err)" by fastforce
  ultimately have "err = None \<longleftrightarrow> relays_ok (cf_Relays cfg)"
    using StartTasks_result [of cfg rp hp pk lk] by (simp add: case_prod_beta)
  then show ?thesis
    by (cases err; cases rtmpListen; cases httpListen)
      (simp_all add: server_Start_def st Let_def stub_StartTasks_def RtmpServer_Listen_def)
qed

text \<open>
  The server comes up exactly when every configured relay is valid and under a key of its
  own and both ports can be opened; when it does not come up because a relay is refused, no
  listener is open, but the relays before the refused one already run.
\<close>

lemma server_start_iff:
  "case server_Start rtmpListen httpListen cfg (server_New tmp now cfg) of (s, err) \<Rightarrow>
     (err = None \<longleftrightarrow> relays_ok (cf_Relays cfg) \<and> rtmpListen = None \<and> httpListen = None) \<and>
     (err = None \<longleftrightarrow> se_httpServing s) \<and>
     (rs_listener (se_rtmpServer s) = ListenerOpen \<longleftrightarrow> relays_ok (cf_Relays cfg) \<and> rtmpListen = None) \<and>
     (\<forall>k. gomap_get (rm_slots (se_relayMgr s)) k =
        map_option (spawn (se_relayMgr s)) (find (\<lambda>c. relay_key c = k) (startable {} (cf_Relays cfg))))"
proof -
  let ?m = "se_relayMgr (server_New tmp now cfg)"
  have new: "rs_listener (se_rtmpServer (server_New tmp now cfg)) = NoListener" "\<not> se_httpServing (server_New tmp now cfg)"
    by (simp_all add: server_New_def RtmpNewServer_def Let_def)
  have mgr: "\<exists>rp hp pk lk. ?m = RelayManager_SetEndpoints rp hp pk lk RelayNewManager" by (auto simp: server_New_def Let_def)
  obtain m err where st: "RelayManager_StartTasks cfg ?m = (m, err)" by fastforce
  then have "err = None \<longleftrightarrow> relays_ok (cf_Relays cfg)"
    and "\<And>k. gomap_get (rm_slots m) k = map_option (spawn m) (find (\<lambda>c. relay_key c = k) (startable {} (cf_Relays cfg)))"
    using StartTasks_result [of cfg] mgr by (metis (mono_tags, lifting) case_prod_conv)+
  then show ?thesis
    by (cases err; cases rtmpListen; cases httpListen)
      (simp_all add: server_Start_def st new Let_def stub_StartTasks_def RtmpServer_Listen_def)
qed

text \<open>
  C28. \<open>ShutdownWithTimeout\<close> takes every service down, also when requests do not end in time:
  both listeners are closed, every relay is stopped and its goroutine has returned, and every
  packager is stopped and forgotten. (Connections that are publishing are not touched.)
\<close>

theorem shutdown_stops_everything:
  "case server_ShutdownWithTimeout idle s of ((s', err), stopped) \<Rightarrow>
     \<not> se_httpServing s' \<and> rs_listener (se_rtmpServer s') \<noteq> ListenerOpen \<and> rm_cancelled (se_relayMgr s') \<and>
     map fst (rm_slots (se_relayMgr s')) = map fst (rm_slots (se_relayMgr s)) \<and>
     list_all (\<lambda>(k, sl). sl_done sl \<and> bt_stopped (base_of (sl_task sl)) \<and> \<not> bt_running (base_of (sl_task sl)))
       (rm_slots (se_relayMgr s')) \<and>
     (case se_pkger s of
        None \<Rightarrow> se_pkger s' = None \<and> stopped = []
      | Some m \<Rightarrow> (\<exists>m'. se_pkger s' = Some m' \<and> mg_pkgers m' = None) \<and>
          stopped = map (Packager_Stop \<circ> snd) (case mg_pkgers m of None \<Rightarrow> [] | Some ps \<Rightarrow> ps)) \<and>
     list_all (\<lambda>p. \<not> pk_cancel p) stopped"
proof -
  have slots: "rm_slots (RelayManager_Stop m) = map (\<lambda>(k, sl). (k, slot_wait (slot_stop sl))) (rm_slots m)" for m
    by (simp add: RelayManager_Stop_def Let_def case_prod_beta)
  have sl: "sl_done (slot_wait (slot_stop x)) \<and> bt_stopped (base_of (sl_task (slot_wait (slot_stop x)))) \<and>
      \<not> bt_running (base_of (sl_task (slot_wait (slot_stop x))))" for x
    by (simp add: slot_wait_def slot_stop_def BaseTask_Stop_def BaseTask_SetRunning_def)
  show ?thesis
    by (cases "se_pkger s")
      (auto simp: server_ShutdownWithTimeout_def server_Shutdown_def Let_def slots sl PkManager_Stop_def list_all_iff
        Packager_Stop_def RelayManager_Stop_def RtmpServer_Close_def)
qed

text \<open>
  A termination signal takes another way: \<open>Wait\<close> only shuts down the HTTP server. Relays,
  packagers and the RTMP listener are left as they are.
\<close>

lemma signal_leaves_relays:
  "case ShutdownHandler_Wait idle (NewShutdownHandler s) of (h, err) \<Rightarrow>
     sh_cancelled h \<and> \<not> se_httpServing (sh_server h) \<and> se_relayMgr (sh_server h) = se_relayMgr s \<and>
     se_pkger (sh_server h) = se_pkger s \<and> se_rtmpServer (sh_server h) = se_rtmpServer s"
  by (simp add: ShutdownHandler_Wait_def NewShutdownHandler_def server_Shutdown_def Let_def)


end
