(* ===== verification/Relay_Supervisor.thy ===== *)
theory Relay_Supervisor
  imports Relay
begin

text \<open>
  The goroutines of one relay (\<open>internal/svc/relay/task.go\<close> and the goroutine of \<open>spawn\<close> in
  \<open>manager.go\<close>) in their single steps: the supervisor that runs \<open>Start\<close>, the goroutine of
  \<open>watchStop\<close>, the ffmpeg process of the attempt, and the manager that closes the stop channel or
  cancels the context. \<open>Relay\<close> has the supervisor as a function of what it observes and takes it
  that a stopped task returns; here the observations are made, and that it returns is shown.
\<close>

section \<open>Steps\<close>

text \<open>Where the supervisor is, with the result of the last run of ffmpeg while it needs it.\<close>

datatype super_pc =
    AtStart
  | AtLookPath
  | AtTop
  | InRun
  | AfterRun "go_error option"
  | AtWatcher "go_error option"
  | AtParent "go_error option"
  | AtStopped "go_error option"
  | InWait "go_error option"
  | Returning "go_error option"
  | Finished "go_error option"

text \<open>The goroutine of \<open>watchStop\<close>: not there, in its select, about to cancel, its channel closed.\<close>

datatype watch_pc = NoWatcher | Watching | Cancelling | WatcherDone

datatype ffmpeg_proc = NoProcess | ProcessRuns | ProcessExited "go_error option"

text \<open>
  \<open>su_cancelled\<close>: the context of the attempt was cancelled on its own; \<open>su_parentDone\<close>: the one of
  the manager, which is its parent. \<open>su_done\<close>: the channel of the slot is closed. \<open>su_turns\<close> and
  \<open>su_waits\<close> record what was observed and how long was waited.
\<close>

record Supervisor =
  su_task :: Task
  su_parentDone :: bool
  su_pc :: super_pc
  su_cancelled :: bool
  su_watch :: watch_pc
  su_proc :: ffmpeg_proc
  su_backoff :: int
  su_done :: bool
  su_turns :: "relay_turn list"
  su_waits :: "int list"

definition attempt_done :: "Supervisor \<Rightarrow> bool" where
  "attempt_done st \<longleftrightarrow> su_cancelled st \<or> su_parentDone st"

definition ctxStopped :: "Supervisor \<Rightarrow> bool" where
  "ctxStopped st \<longleftrightarrow> BaseTask_StopChan (base_of (su_task st))"

abbreviation top_turn :: relay_turn where
  "top_turn \<equiv> \<lparr>tn_doneAtTop = True, tn_run = None, tn_doneAfter = False, tn_doneInWait = False\<rparr>"

abbreviation run_turn :: "go_error option \<Rightarrow> bool \<Rightarrow> bool \<Rightarrow> relay_turn" where
  "run_turn err after inWait \<equiv> \<lparr>tn_doneAtTop = False, tn_run = err, tn_doneAfter = after, tn_doneInWait = inWait\<rparr>"

fun task_label :: "Task \<Rightarrow> string" where
  "task_label (PullTask t) = ''pull '' @ BaseTask_App t @ ''/'' @ BaseTask_Name t"
| "task_label (PushTask t) = ''push '' @ BaseTask_App t @ ''/'' @ BaseTask_Name t"

text \<open>The goroutine of \<open>watchStop\<close>. A cancelled context and a closed channel are both ready cases.\<close>

inductive watchStop_step :: "Supervisor \<Rightarrow> Supervisor \<Rightarrow> bool" where
  watch_ctx: "su_watch st = Watching \<Longrightarrow> attempt_done st \<Longrightarrow> watchStop_step st (st\<lparr>su_watch := WatcherDone\<rparr>)"
| watch_stop: "su_watch st = Watching \<Longrightarrow> ctxStopped st \<Longrightarrow> watchStop_step st (st\<lparr>su_watch := Cancelling\<rparr>)"
| watch_cancel: "su_watch st = Cancelling \<Longrightarrow> watchStop_step st (st\<lparr>su_cancelled := True, su_watch := WatcherDone\<rparr>)"

text \<open>
  \<open>cmd.Run\<close> of \<open>os/exec\<close>: a process is not started under a context that is done, and is killed when
  its context is; \<open>Run\<close> returns when it has exited.
\<close>

inductive run_step :: "Supervisor \<Rightarrow> Supervisor \<Rightarrow> bool" where
  run_refused: "su_pc st = InRun \<Longrightarrow> su_proc st = NoProcess \<Longrightarrow> attempt_done st \<Longrightarrow>
    run_step st (st\<lparr>su_pc := AfterRun (Some err)\<rparr>)"
| run_starts: "su_pc st = InRun \<Longrightarrow> su_proc st = NoProcess \<Longrightarrow> \<not> attempt_done st \<Longrightarrow> run_step st (st\<lparr>su_proc := ProcessRuns\<rparr>)"
| run_kills: "su_proc st = ProcessRuns \<Longrightarrow> attempt_done st \<Longrightarrow> run_step st (st\<lparr>su_proc := ProcessExited (Some err)\<rparr>)"
| run_returns: "su_pc st = InRun \<Longrightarrow> su_proc st = ProcessExited err \<Longrightarrow>
    run_step st (st\<lparr>su_pc := AfterRun err, su_proc := NoProcess\<rparr>)"

text \<open>
  The supervisor: \<open>Start\<close>, \<open>runFFmpegLoop\<close> and the end of the goroutine. \<open>found\<close> is whether
  \<open>exec.LookPath\<close> finds ffmpeg.
\<close>

inductive super_step :: "bool \<Rightarrow> Supervisor \<Rightarrow> Supervisor \<Rightarrow> bool" for found where
  super_start: "su_pc st = AtStart \<Longrightarrow>
    super_step found st (st\<lparr>su_task := on_base (BaseTask_SetRunning True) (su_task st), su_pc := AtLookPath\<rparr>)"
| super_no_ffmpeg: "su_pc st = AtLookPath \<Longrightarrow> \<not> found \<Longrightarrow>
    super_step found st (st\<lparr>su_pc := Returning (Some (Errorf (''relay '' @ task_label (su_task st) @ '': ffmpeg not on PATH'')))\<rparr>)"
| super_ffmpeg: "su_pc st = AtLookPath \<Longrightarrow> found \<Longrightarrow> super_step found st (st\<lparr>su_pc := AtTop, su_backoff := minBackoff\<rparr>)"
| super_top_done: "su_pc st = AtTop \<Longrightarrow> su_parentDone st \<or> ctxStopped st \<Longrightarrow>
    super_step found st (st\<lparr>su_pc := Returning None, su_turns := su_turns st @ [top_turn]\<rparr>)"
| super_attempt: "su_pc st = AtTop \<Longrightarrow> \<not> su_parentDone st \<Longrightarrow> \<not> ctxStopped st \<Longrightarrow>
    super_step found st (st\<lparr>su_pc := InRun, su_cancelled := False, su_watch := Watching\<rparr>)"
| super_cancel: "su_pc st = AfterRun err \<Longrightarrow> super_step found st (st\<lparr>su_pc := AtWatcher err, su_cancelled := True\<rparr>)"
| super_watched: "su_pc st = AtWatcher err \<Longrightarrow> su_watch st = WatcherDone \<Longrightarrow> super_step found st (st\<lparr>su_pc := AtParent err\<rparr>)"
| super_parent_done: "su_pc st = AtParent err \<Longrightarrow> su_parentDone st \<Longrightarrow>
    super_step found st (st\<lparr>su_pc := Returning None, su_turns := su_turns st @ [run_turn err True False]\<rparr>)"
| super_parent_on: "su_pc st = AtParent err \<Longrightarrow> \<not> su_parentDone st \<Longrightarrow> super_step found st (st\<lparr>su_pc := AtStopped err\<rparr>)"
| super_stopped: "su_pc st = AtStopped err \<Longrightarrow> ctxStopped st \<Longrightarrow>
    super_step found st (st\<lparr>su_pc := Returning None, su_turns := su_turns st @ [run_turn err True False]\<rparr>)"
| super_gives_up: "su_pc st = AtStopped err \<Longrightarrow> \<not> ctxStopped st \<Longrightarrow> \<not> bt_reconnect (base_of (su_task st)) \<Longrightarrow>
    super_step found st (st\<lparr>su_pc := Returning err, su_turns := su_turns st @ [run_turn err False False]\<rparr>)"
| super_retries: "su_pc st = AtStopped err \<Longrightarrow> \<not> ctxStopped st \<Longrightarrow> bt_reconnect (base_of (su_task st)) \<Longrightarrow>
    super_step found st (st\<lparr>su_pc := InWait err, su_waits := su_waits st @ [su_backoff st]\<rparr>)"
| super_wait_done: "su_pc st = InWait err \<Longrightarrow> su_parentDone st \<or> ctxStopped st \<Longrightarrow>
    super_step found st (st\<lparr>su_pc := Returning None, su_turns := su_turns st @ [run_turn err False True]\<rparr>)"
| super_returns: "su_pc st = Returning r \<Longrightarrow>
    super_step found st (st\<lparr>su_task := on_base (BaseTask_SetRunning False) (su_task st), su_pc := Finished r\<rparr>)"
| super_closes: "su_pc st = Finished r \<Longrightarrow> \<not> su_done st \<Longrightarrow> super_step found st (st\<lparr>su_done := True\<rparr>)"

text \<open>What may happen but need not: ffmpeg fails to start or exits, the timer of the wait fires.\<close>

inductive chance_step :: "Supervisor \<Rightarrow> Supervisor \<Rightarrow> bool" where
  chance_start_fails: "su_pc st = InRun \<Longrightarrow> su_proc st = NoProcess \<Longrightarrow> chance_step st (st\<lparr>su_pc := AfterRun (Some err)\<rparr>)"
| chance_exits: "su_proc st = ProcessRuns \<Longrightarrow> chance_step st (st\<lparr>su_proc := ProcessExited err\<rparr>)"
| chance_timer: "su_pc st = InWait err \<Longrightarrow>
    chance_step st (st\<lparr>su_pc := AtTop, su_backoff := next_backoff (su_backoff st), su_turns := su_turns st @ [run_turn err False False]\<rparr>)"

inductive manager_step :: "Supervisor \<Rightarrow> Supervisor \<Rightarrow> bool" where
  manager_stops: "manager_step st (st\<lparr>su_task := on_base BaseTask_Stop (su_task st)\<rparr>)"
| manager_cancels: "manager_step st (st\<lparr>su_parentDone := True\<rparr>)"

text \<open>The steps that the goroutines and the process make of themselves, and all of them.\<close>

definition due_step :: "bool \<Rightarrow> Supervisor \<Rightarrow> Supervisor \<Rightarrow> bool" where
  "due_step found st st' \<longleftrightarrow> super_step found st st' \<or> watchStop_step st st' \<or> run_step st st'"

definition own_step :: "bool \<Rightarrow> Supervisor \<Rightarrow> Supervisor \<Rightarrow> bool" where
  "own_step found st st' \<longleftrightarrow> due_step found st st' \<or> chance_step st st'"

definition relay_task_step :: "bool \<Rightarrow> Supervisor \<Rightarrow> Supervisor \<Rightarrow> bool" where
  "relay_task_step found st st' \<longleftrightarrow> own_step found st st' \<or> manager_step st st'"

definition spawned :: "Supervisor \<Rightarrow> bool" where
  "spawned st \<longleftrightarrow>
     st = \<lparr>su_task = su_task st, su_parentDone = su_parentDone st, su_pc = AtStart, su_cancelled = False, su_watch = NoWatcher,
           su_proc = NoProcess, su_backoff = 0, su_done = False, su_turns = [], su_waits = []\<rparr> \<and>
     \<not> bt_running (base_of (su_task st)) \<and> \<not> bt_stopped (base_of (su_task st))"

lemmas step_defs = relay_task_step_def own_step_def due_step_def

lemmas step_cases = super_step.cases watchStop_step.cases run_step.cases chance_step.cases manager_step.cases

section \<open>Nothing is left behind\<close>

fun in_attempt :: "super_pc \<Rightarrow> bool" where
  "in_attempt InRun = True"
| "in_attempt (AfterRun err) = True"
| "in_attempt (AtWatcher err) = True"
| "in_attempt pc = False"

fun in_loop :: "super_pc \<Rightarrow> bool" where
  "in_loop AtStart = False"
| "in_loop AtLookPath = False"
| "in_loop (Returning r) = False"
| "in_loop (Finished r) = False"
| "in_loop pc = True"

fun result_of :: "super_pc \<Rightarrow> go_error option option" where
  "result_of (Returning r) = Some r"
| "result_of (Finished r) = Some r"
| "result_of pc = None"

lemma base_of_on_base [simp]: "base_of (on_base f task) = f (base_of task)"
  by (cases task) simp_all

definition sup_safe :: "Supervisor \<Rightarrow> bool" where
  "sup_safe st \<longleftrightarrow>
     (su_proc st \<noteq> NoProcess \<longrightarrow> su_pc st = InRun) \<and>
     (su_watch st \<in> {Watching, Cancelling} \<longrightarrow> in_attempt (su_pc st)) \<and>
     (in_attempt (su_pc st) \<longrightarrow> su_watch st \<noteq> NoWatcher \<and> (su_watch st = WatcherDone \<longrightarrow> attempt_done st)) \<and>
     ((\<exists>err. su_pc st = AtWatcher err) \<longrightarrow> su_cancelled st) \<and>
     (bt_running (base_of (su_task st)) \<longleftrightarrow> su_pc st \<noteq> AtStart \<and> \<not> (\<exists>r. su_pc st = Finished r)) \<and>
     (su_done st \<longrightarrow> (\<exists>r. su_pc st = Finished r))"

interpretation supsafe: inductive_invariant spawned "relay_task_step found" sup_safe for found
proof
  show "sup_safe st" if "spawned st" for st
    using that by (cases st) (simp add: spawned_def sup_safe_def)
  show "sup_safe st'" if "sup_safe st" "relay_task_step found st st'" for st st'
    using that unfolding step_defs
    by (elim disjE; elim step_cases; auto simp: sup_safe_def attempt_done_def BaseTask_SetRunning_def BaseTask_Stop_def)
qed

section \<open>What is observed\<close>

text \<open>Turns after which the loop goes on.\<close>

definition goes_on :: "bool \<Rightarrow> relay_turn list \<Rightarrow> bool" where
  "goes_on reconnect ts \<longleftrightarrow> list_all (\<lambda>t. \<not> stop_seen t) ts \<and> (ts \<noteq> [] \<longrightarrow> reconnect)"

definition backoffs :: "nat \<Rightarrow> int list" where
  "backoffs n = map (\<lambda>i. (next_backoff ^^ i) minBackoff) [0..<n]"

lemma backoffs_Suc [simp]: "backoffs (Suc n) = backoffs n @ [(next_backoff ^^ n) minBackoff]"
  by (simp add: backoffs_def)

lemma goes_on_snoc: "goes_on reconnect (ts @ [t]) \<longleftrightarrow> goes_on reconnect ts \<and> \<not> stop_seen t \<and> reconnect"
  by (auto simp: goes_on_def)

lemma ffmpeg_loop_goes_on:
  assumes "goes_on reconnect ts"
  shows "ffmpeg_loop reconnect b (ts @ us) =
    (case ffmpeg_loop reconnect ((next_backoff ^^ length ts) b) us of (waits, r) \<Rightarrow>
       (map (\<lambda>i. (next_backoff ^^ i) b) [0..<length ts] @ waits, r))"
  using assms
proof (induction ts arbitrary: b)
  case (Cons t ts)
  have shift: "map (\<lambda>i. (next_backoff ^^ i) b) [0..<Suc n] = b # map (\<lambda>i. (next_backoff ^^ i) (next_backoff b)) [0..<n]" for n
    by (simp add: upt_conv_Cons map_Suc_upt [symmetric] funpow_swap1 del: upt_Suc)
  have "ffmpeg_loop reconnect (next_backoff b) (ts @ us) =
    (case ffmpeg_loop reconnect ((next_backoff ^^ length ts) (next_backoff b)) us of (waits, r) \<Rightarrow>
       (map (\<lambda>i. (next_backoff ^^ i) (next_backoff b)) [0..<length ts] @ waits, r))"
    using Cons.prems by (intro Cons.IH) (auto simp: goes_on_def)
  moreover have "(next_backoff ^^ length (t # ts)) b = (next_backoff ^^ length ts) (next_backoff b)"
    by (simp add: funpow_swap1)
  ultimately show ?case using Cons.prems
    by (auto simp: goes_on_def stop_seen_def shift split: prod.splits simp del: upt_Suc)
qed simp

lemma ffmpeg_loop_last:
  assumes "goes_on reconnect ts"
  shows "ffmpeg_loop reconnect minBackoff (ts @ [t]) =
    (case ffmpeg_loop reconnect ((next_backoff ^^ length ts) minBackoff) [t] of (waits, r) \<Rightarrow> (backoffs (length ts) @ waits, r))"
  using ffmpeg_loop_goes_on [OF assms, of minBackoff "[t]"] by (simp add: backoffs_def)

definition sup_hist :: "bool \<Rightarrow> Supervisor \<Rightarrow> bool" where
  "sup_hist found st \<longleftrightarrow>
     (let reconnect = bt_reconnect (base_of (su_task st)); n = length (su_turns st) in
      (in_loop (su_pc st) \<longrightarrow> found \<and> goes_on reconnect (su_turns st) \<and> su_backoff st = (next_backoff ^^ n) minBackoff \<and>
         (if \<exists>err. su_pc st = InWait err then reconnect \<and> su_waits st = backoffs (Suc n) else su_waits st = backoffs n)) \<and>
      (su_pc st \<in> {AtStart, AtLookPath} \<longrightarrow> su_turns st = [] \<and> su_waits st = []) \<and>
      (\<forall>r. result_of (su_pc st) = Some r \<longrightarrow>
         runFFmpegLoop found (task_label (su_task st)) (su_turns st) (base_of (su_task st)) = (su_waits st, Some r)))"

lemma label_on_base [simp]:
  "task_label (on_base (BaseTask_SetRunning r) task) = task_label task" "task_label (on_base BaseTask_Stop task) = task_label task"
  by (cases task; simp add: BaseTask_SetRunning_def BaseTask_Stop_def)+

lemma flags_keep_loop [simp]:
  "bt_reconnect (BaseTask_SetRunning r t) = bt_reconnect t" "bt_reconnect (BaseTask_Stop t) = bt_reconnect t"
  "runFFmpegLoop found label ts (BaseTask_SetRunning r t) = runFFmpegLoop found label ts t"
  "runFFmpegLoop found label ts (BaseTask_Stop t) = runFFmpegLoop found label ts t"
  by (simp_all add: BaseTask_SetRunning_def BaseTask_Stop_def runFFmpegLoop_def)

lemma goes_on_Nil [simp]: "goes_on reconnect []"
  by (simp add: goes_on_def)

lemma backoffs_0 [simp]: "backoffs 0 = []"
  by (simp add: backoffs_def)

lemma hist_super:
  assumes "sup_hist found st" "super_step found st st'"
  shows "sup_hist found st'"
  using assms(2,1) by cases (auto simp: sup_hist_def Let_def runFFmpegLoop_def ffmpeg_loop_last)

lemma hist_others:
  assumes "sup_hist found st" "watchStop_step st st' \<or> run_step st st' \<or> manager_step st st'"
  shows "sup_hist found st'"
  using assms(2,1) by (elim disjE; elim step_cases; simp add: sup_hist_def Let_def)

lemma hist_chance:
  assumes "sup_hist found st" "chance_step st st'"
  shows "sup_hist found st'"
  using assms(2,1) by cases (auto simp: sup_hist_def Let_def goes_on_snoc stop_seen_def)

interpretation suphist: inductive_invariant spawned "relay_task_step found" "sup_hist found" for found
proof
  show "sup_hist found st" if "spawned st" for st
    using that by (cases st) (simp add: spawned_def sup_hist_def)
  show "sup_hist found st'" if "sup_hist found st" "relay_task_step found st st'" for st st'
    using that hist_super hist_others hist_chance unfolding step_defs by blast
qed

section \<open>A stopped relay returns\<close>

text \<open>
  Steps that wind a system down: while it is busy, some step is due until it is finished, and
  every step, due or not, takes it closer to the end.
\<close>

locale winding_down =
  fixes step :: "'s \<Rightarrow> 's \<Rightarrow> bool" and due :: "'s \<Rightarrow> 's \<Rightarrow> bool"
    and busy :: "'s \<Rightarrow> bool" and finished :: "'s \<Rightarrow> bool" and rank :: "'s \<Rightarrow> nat"
  assumes due_is_step: "due s t \<Longrightarrow> step s t"
    and progress: "busy s \<Longrightarrow> \<not> finished s \<Longrightarrow> \<exists>t. due s t"
    and closer: "busy s \<Longrightarrow> step s t \<Longrightarrow> busy t \<and> rank t < rank s"
begin

lemma run_bounded: "(step ^^ n) s t \<Longrightarrow> busy s \<Longrightarrow> busy t \<and> rank t + n \<le> rank s"
proof (induction n arbitrary: t)
  case (Suc n)
  then obtain u where "(step ^^ n) s u" "step u t" by auto
  with Suc show ?case using closer [of u t] by fastforce
qed simp

lemma finishes: "busy s \<Longrightarrow> \<exists>t. step\<^sup>*\<^sup>* s t \<and> finished t"
proof (induction "rank s" arbitrary: s rule: less_induct)
  case less
  show ?case
  proof (cases "finished s")
    case False
    then obtain t where t: "step s t" using progress [OF less.prems] due_is_step by blast
    then obtain u where "step\<^sup>*\<^sup>* t u" "finished u" using less closer by blast
    then show ?thesis using t by (meson converse_rtranclp_into_rtranclp)
  qed blast
qed

end

definition stopping :: "Supervisor \<Rightarrow> bool" where
  "stopping st \<longleftrightarrow> su_parentDone st \<or> ctxStopped st"

fun pc_rank :: "ffmpeg_proc \<Rightarrow> super_pc \<Rightarrow> nat" where
  "pc_rank NoProcess InRun = 11"
| "pc_rank ProcessRuns InRun = 10"
| "pc_rank (ProcessExited err) InRun = 9"
| "pc_rank p (AfterRun err) = 8"
| "pc_rank p (AtWatcher err) = 7"
| "pc_rank p (AtParent err) = 6"
| "pc_rank p (AtStopped err) = 5"
| "pc_rank p (InWait err) = 4"
| "pc_rank p AtStart = 5"
| "pc_rank p AtLookPath = 4"
| "pc_rank p AtTop = 3"
| "pc_rank p (Returning r) = 2"
| "pc_rank p (Finished r) = 1"

fun watch_rank :: "watch_pc \<Rightarrow> nat" where
  "watch_rank Watching = 2"
| "watch_rank Cancelling = 1"
| "watch_rank w = 0"

definition sup_rank :: "Supervisor \<Rightarrow> nat" where
  "sup_rank st = (if su_done st then 0 else pc_rank (su_proc st) (su_pc st)) + watch_rank (su_watch st)"

lemma sup_rank_bound: "sup_rank st \<le> 13"
proof -
  have "pc_rank p pc \<le> 11" for p pc by (cases "(p, pc)" rule: pc_rank.cases) simp_all
  moreover have "watch_rank w \<le> 2" for w by (cases w) simp_all
  ultimately show ?thesis using add_mono [of "pc_rank (su_proc st) (su_pc st)" 11 "watch_rank (su_watch st)" 2]
    by (auto simp: sup_rank_def intro: le_trans)
qed

lemma stopping_progress:
  assumes "sup_safe st" "stopping st" "\<not> su_done st"
  shows "\<exists>st'. due_step found st st'"
proof -
  have watcher: "\<exists>st'. watchStop_step st st'" if "su_watch st \<in> {Watching, Cancelling}"
    using that assms(2) watch_ctx [of st] watch_stop [of st] watch_cancel [of st] by (auto simp: stopping_def attempt_done_def)
  show ?thesis
  proof (cases "su_pc st")
    case InRun
    show ?thesis
    proof (cases "attempt_done st")
      case True
      then show ?thesis using InRun by (cases "su_proc st") (auto simp: due_step_def intro: run_step.intros)
    next
      case False
      then show ?thesis using InRun assms(1) watcher by (cases "su_watch st") (auto simp: due_step_def sup_safe_def)
    qed
  next
    case (AtWatcher err)
    then show ?thesis using assms(1) watcher by (cases "su_watch st") (auto simp: due_step_def sup_safe_def intro: super_step.intros)
  next
    case AtLookPath
    then show ?thesis by (cases found) (auto simp: due_step_def intro: super_step.intros)
  next
    case (AtParent err)
    then show ?thesis by (cases "su_parentDone st") (auto simp: due_step_def intro: super_step.intros)
  next
    case (AtStopped err)
    then show ?thesis by (cases "ctxStopped st"; cases "bt_reconnect (base_of (su_task st))") (auto simp: due_step_def intro: super_step.intros)
  qed (use assms in \<open>auto simp: due_step_def stopping_def intro: super_step.intros\<close>)
qed

lemma stopping_decreases:
  assumes "sup_safe st" "stopping st" "own_step found st st'"
  shows "sup_rank st' < sup_rank st" "stopping st'"
    and "on_base (BaseTask_SetRunning False) (su_task st') = on_base (BaseTask_SetRunning False) (su_task st)"
proof -
  have flags: "on_base (BaseTask_SetRunning False) (on_base (BaseTask_SetRunning b) task) = on_base (BaseTask_SetRunning False) task" for b task
    by (cases task) (simp_all add: BaseTask_SetRunning_def)
  show "sup_rank st' < sup_rank st"
    using assms(3,1,2) unfolding own_step_def due_step_def
    by (elim disjE; elim step_cases; auto simp: sup_rank_def sup_safe_def stopping_def ctxStopped_def split: ffmpeg_proc.splits)
  show "stopping st'"
    using assms(3,2) unfolding own_step_def due_step_def
    by (elim disjE; elim step_cases; auto simp: stopping_def ctxStopped_def BaseTask_SetRunning_def)
  show "on_base (BaseTask_SetRunning False) (su_task st') = on_base (BaseTask_SetRunning False) (su_task st)"
    using assms(3) unfolding own_step_def due_step_def by (elim disjE; elim step_cases; simp add: flags)
qed

interpretation supdown: winding_down "own_step found" "due_step found" "\<lambda>st. sup_safe st \<and> stopping st" su_done sup_rank for found
proof
  show "own_step found st st'" if "due_step found st st'" for st st' using that by (simp add: own_step_def)
  show "\<exists>st'. due_step found st st'" if "sup_safe st \<and> stopping st" "\<not> su_done st" for st
    using stopping_progress that by blast
  show "(sup_safe st' \<and> stopping st') \<and> sup_rank st' < sup_rank st" if "sup_safe st \<and> stopping st" "own_step found st st'" for st st'
    using that stopping_decreases [of st found st'] supsafe.inv_step [of st found st'] by (auto simp: relay_task_step_def)
qed

lemma run_keeps_task:
  assumes "(own_step found ^^ n) st st'" "sup_safe st" "stopping st"
  shows "on_base (BaseTask_SetRunning False) (su_task st') = on_base (BaseTask_SetRunning False) (su_task st)"
  using assms
proof (induction n arbitrary: st')
  case (Suc n)
  then obtain u where u: "(own_step found ^^ n) st u" "own_step found u st'" by auto
  then have "sup_safe u \<and> stopping u" using supdown.run_bounded [OF u(1)] Suc.prems by blast
  then show ?case using Suc u stopping_decreases(3) by metis
qed simp

definition slot_of :: "RelayConfig \<Rightarrow> Supervisor \<Rightarrow> slot" where
  "slot_of cfg st = \<lparr>sl_cfg = cfg, sl_task = su_task st, sl_done = su_done st\<rparr>"

definition nothing_left :: "Supervisor \<Rightarrow> bool" where
  "nothing_left st \<longleftrightarrow> su_proc st = NoProcess \<and> su_watch st \<noteq> Watching \<and> su_watch st \<noteq> Cancelling \<and> \<not> BaseTask_IsRunning (base_of (su_task st))"

lemma done_leaves_nothing: "sup_safe st \<Longrightarrow> su_done st \<Longrightarrow> nothing_left st"
  by (auto simp: sup_safe_def nothing_left_def)

lemma not_running_slot:
  "\<not> bt_running (base_of task) \<Longrightarrow> on_base (BaseTask_SetRunning False) task = task"
  by (cases task) (simp_all add: BaseTask_SetRunning_def)

section \<open>Properties\<close>

text \<open>
  C21. A relay that is told to stop does stop. Whatever its goroutines and its ffmpeg are doing when
  the stop channel is closed or the context of the manager is cancelled, they can make at most
  13 more steps, until the end one of them is always due (the process need not exit by itself and
  no timer need fire), and in the end the channel of the slot is closed, no process and no watcher is
  left, and the slot is what \<open>Restart\<close> and \<open>Stop\<close> of the manager wait for.
\<close>

theorem supervisor_stops:
  assumes "reachable_from spawned (relay_task_step found) st" "su_parentDone st \<or> ctxStopped st"
  shows "(\<exists>st'. (own_step found)\<^sup>*\<^sup>* st st' \<and> su_done st') \<and>
    (\<forall>n st'. (own_step found ^^ n) st st' \<longrightarrow>
       n \<le> 13 \<and> (if su_done st' then nothing_left st' \<and> slot_of cfg st' = slot_wait (slot_of cfg st) else \<exists>st''. due_step found st' st''))"
proof (intro conjI allI impI)
  have safe: "sup_safe st" by (rule supsafe.inv_reachable [OF assms(1)])
  have busy: "sup_safe st \<and> stopping st" using safe assms(2) by (simp add: stopping_def)
  show "\<exists>st'. (own_step found)\<^sup>*\<^sup>* st st' \<and> su_done st'" by (rule supdown.finishes [OF busy])
  fix n st' assume run: "(own_step found ^^ n) st st'"
  note b = supdown.run_bounded [OF run busy]
  show "n \<le> 13" using b sup_rank_bound [of st] by linarith
  show "if su_done st' then nothing_left st' \<and> slot_of cfg st' = slot_wait (slot_of cfg st) else \<exists>st''. due_step found st' st''"
  proof (cases "su_done st'")
    case True
    then have "nothing_left st'" using b done_leaves_nothing by blast
    then have "su_task st' = on_base (BaseTask_SetRunning False) (su_task st)"
      using run_keeps_task [OF run] busy not_running_slot [of "su_task st'"] by (simp add: nothing_left_def)
    then show ?thesis using True \<open>nothing_left st'\<close> by (simp add: slot_of_def slot_wait_def)
  next
    case False
    then show ?thesis using supdown.progress b by auto
  qed
qed

definition example_spawned :: Supervisor where
  "example_spawned =
     \<lparr>su_task = NewPullTask ''live'' ''cam'' ''rtmp://h/a/b'' True, su_parentDone = False, su_pc = AtStart, su_cancelled = False,
      su_watch = NoWatcher, su_proc = NoProcess, su_backoff = 0, su_done = False, su_turns = [], su_waits = []\<rparr>"

lemma example_spawned_start: "reachable_from spawned (relay_task_step found) example_spawned"
  by (rule reach_start) (simp add: spawned_def example_spawned_def NewPullTask_def NewBaseTask_def)

lemma reach_super:
  "reachable_from spawned (relay_task_step found) st \<Longrightarrow> super_step found st st' \<Longrightarrow> reachable_from spawned (relay_task_step found) st'"
  by (erule reach_step) (simp add: step_defs)

theorem supervisor_stops_witness:
  "\<exists>st st'. relay_task_step True example_spawned st \<and> ctxStopped st \<and> (own_step True)\<^sup>*\<^sup>* st st' \<and> su_done st'"
proof -
  let ?st = "example_spawned\<lparr>su_task := on_base BaseTask_Stop (su_task example_spawned)\<rparr>"
  have step: "relay_task_step True example_spawned ?st" by (simp add: relay_task_step_def manager_stops)
  have "ctxStopped ?st" by (simp add: ctxStopped_def BaseTask_Stop_def)
  moreover from this have "\<exists>st'. (own_step True)\<^sup>*\<^sup>* ?st st' \<and> su_done st'"
    using supervisor_stops [OF reach_step [OF example_spawned_start step]] by blast
  ultimately show ?thesis using step by blast
qed

text \<open>
  C22. The goroutines do what the loop of the relay model says: in whatever order their steps come,
  when the task has returned it returned what \<open>runFFmpegLoop\<close> returns for the turns that were
  observed, and waited between them as it does; while it runs an ffmpeg process or a watcher it
  has not returned.
\<close>

theorem supervisor_refines_loop:
  assumes "reachable_from spawned (relay_task_step found) st"
  shows "(\<forall>r. su_pc st = Finished r \<longrightarrow>
      runFFmpegLoop found (task_label (su_task st)) (su_turns st) (base_of (su_task st)) = (su_waits st, Some r) \<and> nothing_left st) \<and>
    (su_done st \<longrightarrow> (\<exists>r. su_pc st = Finished r))"
proof (intro conjI allI impI)
  have safe: "sup_safe st" and hist: "sup_hist found st"
    by (rule supsafe.inv_reachable [OF assms], rule suphist.inv_reachable [OF assms])
  show "\<exists>r. su_pc st = Finished r" if "su_done st" using safe that by (simp add: sup_safe_def)
  fix r assume r: "su_pc st = Finished r"
  show "runFFmpegLoop found (task_label (su_task st)) (su_turns st) (base_of (su_task st)) = (su_waits st, Some r)"
    using hist r by (simp add: sup_hist_def Let_def)
  show "nothing_left st" using safe r by (auto simp: sup_safe_def nothing_left_def)
qed

theorem supervisor_refines_loop_witness:
  "\<exists>st r. reachable_from spawned (relay_task_step False) st \<and> su_pc st = Finished r \<and>
     runFFmpegLoop False ''pull live/cam'' (su_turns st) (base_of (su_task st)) = (su_waits st, Some r)"
proof -
  let ?s1 = "example_spawned\<lparr>su_task := on_base (BaseTask_SetRunning True) (su_task example_spawned), su_pc := AtLookPath\<rparr>"
  let ?s2 = "?s1\<lparr>su_pc := Returning (Some (Errorf (''relay '' @ task_label (su_task ?s1) @ '': ffmpeg not on PATH'')))\<rparr>"
  let ?s3 = "?s2\<lparr>su_task := on_base (BaseTask_SetRunning False) (su_task ?s2),
    su_pc := Finished (Some (Errorf (''relay '' @ task_label (su_task ?s1) @ '': ffmpeg not on PATH'')))\<rparr>"
  have "super_step False example_spawned ?s1" by (rule super_start) (simp add: example_spawned_def)
  note r1 = reach_super [OF example_spawned_start this]
  have "super_step False ?s1 ?s2" by (rule super_no_ffmpeg) simp_all
  note r2 = reach_super [OF r1 this]
  have "super_step False ?s2 ?s3" by (rule super_returns) simp
  note r = reach_super [OF r2 this]
  have "task_label (su_task ?s3) = ''pull live/cam''"
    by (simp add: example_spawned_def NewPullTask_def NewBaseTask_def BaseTask_SetRunning_def)
  with supervisor_refines_loop [OF r] r show ?thesis by (intro exI [of _ ?s3]) auto
qed

end
