(* ===== verification/Go_Float.thy ===== *)
theory Go_Float
  imports Go_Prelude Complex_Main "HOL-Library.Log_Nat"
begin

text \<open>
  Go's \<open>float64\<close> for the load generator. A finite value is the rational number it stands for;
  an operation is the exact one followed by rounding to 53 significant bits, to the nearest and
  to even in a tie, as IEEE 754 has it. The exponent is not bounded: what the program computes
  are byte counts, times and their quotients, whose magnitudes are nowhere near the limits of
  the format. Infinities and NaN do not occur, the source guards every division.
\<close>

section \<open>Rounding\<close>

text \<open>The binary exponent of a positive number.\<close>

definition expo :: "rat \<Rightarrow> int" where
  "expo x =
     (case quotient_of x of (n, d) \<Rightarrow>
        let k = int (floorlog 2 (nat n)) - int (floorlog 2 (nat d)) - 1
        in if x < 2 powi (k + 1) then k else k + 1)"

definition round_even :: "rat \<Rightarrow> int" where
  "round_even x =
     (let q = \<lfloor>x\<rfloor>; f = x - of_int q
      in if f > 1 / 2 \<or> f = 1 / 2 \<and> odd q then q + 1 else q)"

definition rnd64 :: "rat \<Rightarrow> rat" where
  "rnd64 x =
     (if x = 0 then 0
      else (let u = 2 powi (expo \<bar>x\<bar> - 52) in of_int (round_even (x / u)) * u))"

lemma floorlog_powr:
  assumes "0 < n"
  shows "2 powi (int (floorlog 2 (nat n)) - 1) \<le> (of_int n :: rat)" "(of_int n :: rat) < 2 powi int (floorlog 2 (nat n))"
proof -
  define k where "k = floorlog 2 (nat n)"
  have b: "2 ^ (k - 1) \<le> nat n" "nat n < 2 ^ k" "0 < k"
    using floorlog_bounds [of "nat n" 2] assms by (auto simp: k_def floorlog_def)
  have "(2::int) ^ (k - 1) \<le> n" "n < 2 ^ k" using b assms by (simp_all add: le_nat_iff nat_less_iff)
  then have "(2::rat) ^ (k - 1) \<le> of_int n" "of_int n < (2::rat) ^ k"
    by (metis of_int_le_iff of_int_numeral of_int_power, metis of_int_less_iff of_int_numeral of_int_power)
  moreover have "(2::rat) powi (int k - 1) = 2 ^ (k - 1)" using b(3) by (simp add: power_int_def nat_diff_distrib)
  moreover have "(2::rat) powi int k = 2 ^ k" by (simp add: power_int_def)
  ultimately show "2 powi (int (floorlog 2 (nat n)) - 1) \<le> (of_int n :: rat)" "(of_int n :: rat) < 2 powi int (floorlog 2 (nat n))"
    unfolding k_def by simp_all
qed

lemma expo_bounds:
  assumes "0 < x"
  shows "2 powi expo x \<le> x" "x < 2 powi (expo x + 1)"
proof -
  obtain n d where q: "quotient_of x = (n, d)" by fastforce
  then have d: "0 < d" "x = of_int n / of_int d" using quotient_of_denom_pos quotient_of_div by blast+
  then have n: "0 < n" using assms by (simp add: zero_less_divide_iff)
  define a where "a = int (floorlog 2 (nat n))"
  define b where "b = int (floorlog 2 (nat d))"
  note an = floorlog_powr [OF n, folded a_def] and bd = floorlog_powr [OF d(1), folded b_def]
  have "2 powi (a - b - 1) = 2 powi (a - 1) / (2 powi b :: rat)" by (simp add: power_int_diff)
  also have "\<dots> \<le> x" unfolding d(2) using an(1) bd(2) d(1) n by (intro frac_le) auto
  finally have lo: "2 powi (a - b - 1) \<le> x" .
  have "x < 2 powi a / (2 powi (b - 1) :: rat)" unfolding d(2) using an(2) bd(1) d(1) n by (intro frac_less) auto
  also have "\<dots> = 2 powi (a - b - 1 + 1 + 1)" by (simp add: power_int_diff power_int_add)
  finally have hi: "x < 2 powi (a - b - 1 + 1 + 1)" .
  have e: "expo x = (if x < 2 powi (a - b - 1 + 1) then a - b - 1 else a - b - 1 + 1)"
    by (simp add: expo_def q Let_def a_def b_def)
  show "2 powi expo x \<le> x" "x < 2 powi (expo x + 1)" using lo hi unfolding e by auto
qed

lemma powi_less_iff [simp]: "(2::rat) powi a < 2 powi b \<longleftrightarrow> a < b"
  by (cases a b rule: linorder_cases) (auto dest: power_int_strict_increasing [where a = "2 :: rat"])

lemma powi_le_iff [simp]: "(2::rat) powi a \<le> 2 powi b \<longleftrightarrow> a \<le> b"
  by (simp flip: not_less)

lemma expo_mono:
  assumes "0 < x" "x \<le> y"
  shows "expo x \<le> expo y"
proof -
  have "2 powi expo x < (2 powi (expo y + 1) :: rat)" using expo_bounds [of x] expo_bounds [of y] assms by linarith
  then show ?thesis by simp
qed

lemma round_even_int [simp]: "round_even (of_int n) = n"
  by (simp add: round_even_def)

lemma round_even_mono:
  assumes "x \<le> y"
  shows "round_even x \<le> round_even y"
proof (cases "\<lfloor>x\<rfloor> = \<lfloor>y\<rfloor>")
  case True
  then show ?thesis using assms by (auto simp: round_even_def Let_def)
next
  case False
  then have "\<lfloor>x\<rfloor> + 1 \<le> \<lfloor>y\<rfloor>" using floor_mono [OF assms] by simp
  then show ?thesis by (auto simp: round_even_def Let_def)
qed

lemma round_even_ge: "of_int n \<le> x \<Longrightarrow> n \<le> round_even x"
  using round_even_mono [of "of_int n" x] by simp

lemma round_even_le: "x \<le> of_int n \<Longrightarrow> round_even x \<le> n"
  using round_even_mono [of x "of_int n"] by simp

lemma round_even_minus: "round_even (- x) = - round_even x"
proof (cases "x = of_int \<lfloor>x\<rfloor>")
  case True
  then obtain n where "x = of_int n" by blast
  then show ?thesis using round_even_int [of "- n"] by simp
next
  case False
  have "x \<noteq> of_int \<lfloor>x\<rfloor>" by (rule False)
  then have "\<lfloor>- x\<rfloor> = - \<lfloor>x\<rfloor> - 1"
    using of_int_floor_le [of x] floor_correct [of x] by (intro floor_unique) (auto simp: less_le)
  then show ?thesis by (auto simp: round_even_def Let_def)
qed

section \<open>Properties of rounding\<close>

lemma rnd64_0 [simp]: "rnd64 0 = 0"
  by (simp add: rnd64_def)

lemma rnd64_minus: "rnd64 (- x) = - rnd64 x"
  by (simp add: rnd64_def Let_def round_even_minus)

lemma rnd64_bounds:
  assumes "0 < x"
  shows "2 powi expo x \<le> rnd64 x" "rnd64 x \<le> 2 powi (expo x + 1)"
proof -
  define u :: rat where "u = 2 powi (expo x - 52)"
  have u: "0 < u" by (simp add: u_def)
  have split: "2 powi expo x = of_int (2 ^ 52) * u" "2 powi (expo x + 1) = of_int (2 ^ 53) * u"
    by (simp_all add: u_def power_int_diff power_int_add)
  have "of_int (2 ^ 52) \<le> x / u" "x / u \<le> of_int (2 ^ 53)"
    using expo_bounds [OF assms] u unfolding split by (simp_all add: field_simps)
  then have "2 ^ 52 \<le> round_even (x / u)" "round_even (x / u) \<le> 2 ^ 53" by (auto intro: round_even_ge round_even_le)
  then have "(of_int (2 ^ 52) :: rat) \<le> of_int (round_even (x / u))" "of_int (round_even (x / u)) \<le> (of_int (2 ^ 53) :: rat)"
    by (simp_all only: of_int_le_iff)
  moreover have "rnd64 x = of_int (round_even (x / u)) * u" using assms by (simp add: rnd64_def Let_def u_def)
  ultimately show "2 powi expo x \<le> rnd64 x" "rnd64 x \<le> 2 powi (expo x + 1)"
    unfolding split using u by (simp_all add: mult_right_mono)
qed

lemma rnd64_pos: "0 < x \<Longrightarrow> 0 < rnd64 x"
  using rnd64_bounds(1) [of x] by (meson less_le_trans zero_less_power_int zero_less_numeral)

lemma rnd64_nonneg [simp, intro]: "0 \<le> x \<Longrightarrow> 0 \<le> rnd64 x"
  using rnd64_pos [of x] by (cases "x = 0") auto

lemma rnd64_eq_0 [simp]: "rnd64 x = 0 \<longleftrightarrow> x = 0"
  using rnd64_pos [of x] rnd64_pos [of "- x"] rnd64_minus [of x] by (cases x "0 :: rat" rule: linorder_cases) auto

lemma rnd64_mono:
  assumes "0 \<le> x" "x \<le> y"
  shows "rnd64 x \<le> rnd64 y"
proof (cases "x = 0")
  case False
  then have x: "0 < x" "0 < y" using assms by auto
  show ?thesis
  proof (cases "expo x = expo y")
    case True
    have "x / 2 powi (expo y - 52) \<le> y / 2 powi (expo y - 52)" using assms by (intro divide_right_mono) auto
    then show ?thesis using x True by (simp add: rnd64_def Let_def round_even_mono mult_right_mono)
  next
    case False
    then have "expo x + 1 \<le> expo y" using expo_mono [OF x(1) assms(2)] by simp
    then have "2 powi (expo x + 1) \<le> (2 powi expo y :: rat)" by simp
    then show ?thesis using rnd64_bounds(2) [OF x(1)] rnd64_bounds(1) [OF x(2)] by linarith
  qed
qed (use assms in auto)

text \<open>Integers of at most 53 bits, at any scale, are exact.\<close>

lemma rnd64_exact:
  assumes "\<bar>m\<bar> < 2 ^ 53"
  shows "rnd64 (of_int m * 2 powi k) = of_int m * 2 powi k"
proof (cases "m = 0")
  case False
  let ?x = "of_int m * 2 powi k :: rat"
  have abs: "\<bar>?x\<bar> = of_int \<bar>m\<bar> * 2 powi k" by (simp add: abs_mult)
  have "(of_int \<bar>m\<bar> :: rat) < of_int (2 ^ 53)" using assms by (simp only: of_int_less_iff)
  then have "\<bar>?x\<bar> < 2 powi (53 + k)" unfolding abs by (simp add: power_int_add)
  moreover have "2 powi expo \<bar>?x\<bar> \<le> \<bar>?x\<bar>" using False by (intro expo_bounds) simp
  ultimately have "2 powi expo \<bar>?x\<bar> < (2 powi (53 + k) :: rat)" by linarith
  then obtain j where j: "k - (expo \<bar>?x\<bar> - 52) = int j" using nonneg_int_cases [of "k - (expo \<bar>?x\<bar> - 52)"] by auto
  define u :: rat where "u = 2 powi (expo \<bar>?x\<bar> - 52)"
  have u0: "u \<noteq> 0" by (simp add: u_def)
  have "k = int j + (expo \<bar>?x\<bar> - 52)" using j by simp
  then have "2 powi k = 2 powi int j * u" unfolding u_def by (metis power_int_add zero_neq_numeral)
  then have "2 powi k = 2 ^ j * u" by simp
  then have "?x / u = of_int (m * 2 ^ j)" "?x = of_int (m * 2 ^ j) * u" using u0 by simp_all
  moreover have "rnd64 ?x = of_int (round_even (?x / u)) * u"
    using False unfolding rnd64_def Let_def u_def by simp
  ultimately show ?thesis by (metis round_even_int)
qed simp

lemma rnd64_int: "\<bar>m\<bar> < 2 ^ 53 \<Longrightarrow> rnd64 (of_int m) = of_int m"
  using rnd64_exact [of m 0] by simp

lemma rnd64_nat: "n < 2 ^ 53 \<Longrightarrow> rnd64 (of_nat n) = of_nat n"
  using rnd64_int [of "int n"] by simp

section \<open>Square root\<close>

fun isqrt :: "nat \<Rightarrow> nat" where
  "isqrt n = (if n = 0 then 0 else let r = 2 * isqrt (n div 4) in if (r + 1) * (r + 1) \<le> n then r + 1 else r)"

declare isqrt.simps [simp del]

lemma isqrt_bounds: "isqrt n * isqrt n \<le> n \<and> n < (isqrt n + 1) * (isqrt n + 1)"
proof (induction n rule: isqrt.induct)
  case (1 n)
  show ?case
  proof (cases "n = 0")
    case False
    define s where "s = isqrt (n div 4)"
    have "s * s \<le> n div 4" "n div 4 < (s + 1) * (s + 1)" using 1 [OF False] by (auto simp: s_def)
    then have "4 * (s * s) \<le> n" "n < 4 * ((s + 1) * (s + 1))" by linarith+
    then show ?thesis using False by (subst (1 2 3 4) isqrt.simps) (auto simp: Let_def s_def [symmetric] algebra_simps)
  qed (simp add: isqrt.simps)
qed

text \<open>
  \<open>math.Sqrt\<close> is correctly rounded. The root is cut to an integer of at least 55 bits; when
  something was cut off, half a unit stands for it, which decides the rounding as the exact
  root would: no value halfway between two floats lies as close to an integer of this size.
\<close>

definition sqrt64 :: "rat \<Rightarrow> rat" where
  "sqrt64 x =
     (if x \<le> 0 then 0
      else
        (let k = 54 - expo x div 2;
             y = x * 4 powi k;
             s = isqrt (nat \<lfloor>y\<rfloor>);
             r = (if of_nat (s * s) = y then of_nat s else of_nat s + 1 / 2)
         in rnd64 (r / 2 powi k)))"

lemma sqrt64_0 [simp]: "sqrt64 0 = 0"
  by (simp add: sqrt64_def)

lemma sqrt64_nonneg [simp, intro]: "0 \<le> sqrt64 x"
  by (auto simp: sqrt64_def Let_def intro!: rnd64_nonneg divide_nonneg_nonneg)

lemma sqrt64_eq_0: "0 \<le> x \<Longrightarrow> sqrt64 x = 0 \<longleftrightarrow> x = 0"
  by (auto simp: sqrt64_def Let_def add_nonneg_eq_0_iff mult_eq_0_iff intro: ccontr)

end
