(* ===== verification/LoadTest.thy ===== *)
theory LoadTest
  imports Go_Float HTTP_FLV API_Metrics "HOL-Library.Signed_Division" "HOL-Library.Multiset"
begin

text \<open>
  The load generator (\<open>cmd/loadtest/main.go\<close>): consumers that read one live stream side by
  side, each with its byte count, longest stall and jitter, and the report made of them. The
  network and the clock are parameters: a consumer is given the answer to its request, the
  header it read and the reads of its loop, each with its bytes, error and time and with
  whether the run had been stopped before it. \<open>float64\<close> values are those of \<open>Go_Float\<close>,
  without fused multiply-add; \<open>None\<close> as a float is a quotient by zero. Rows of the CSV files
  are lists of cells with the precision they are printed with.
\<close>

section \<open>Consumers\<close>

record clientStat =
  lt_id :: nat
  lt_flvOK :: bool
  lt_connectMS :: rat
  lt_windowBytes :: "64 word"
  lt_maxStallMS :: rat
  lt_cvPercent :: rat
  lt_firstErr :: "go_error option"
  lt_streaming :: bool
  lt_stoppedEarly :: bool

definition new_clientStat :: "nat \<Rightarrow> clientStat" where
  "new_clientStat i =
     \<lparr>lt_id = i, lt_flvOK = False, lt_connectMS = 0, lt_windowBytes = 0, lt_maxStallMS = 0, lt_cvPercent = 0,
      lt_firstErr = None, lt_streaming = False, lt_stoppedEarly = False\<rparr>"

text \<open>\<open>Duration.Seconds\<close>: whole seconds and the rest, each converted on its own.\<close>

definition Seconds :: "int \<Rightarrow> rat" where
  "Seconds d = rnd64 (rnd64 (of_int (d sdiv 1000000000)) + rnd64 (rnd64 (of_int (d smod 1000000000)) / 1000000000))"

definition Milliseconds :: "int \<Rightarrow> rat" where
  "Milliseconds d = rnd64 (Seconds d * 1000)"

definition coefficientOfVariation :: "64 word list \<Rightarrow> rat" where
  "coefficientOfVariation xs =
     (if xs = [] then 0
      else
        (let n = rnd64 (of_nat (length xs));
             sum = foldl (\<lambda>sum x. rnd64 (sum + rnd64 (of_int (sint x)))) 0 xs;
             mean = rnd64 (sum / n)
         in if mean = 0 then 0
            else
              (let sqDev = foldl (\<lambda>sqDev x. let d = rnd64 (rnd64 (of_int (sint x)) - mean) in rnd64 (sqDev + rnd64 (d * d))) 0 xs;
                   std = sqrt64 (rnd64 (sqDev / n))
               in rnd64 (std / mean))))"

text \<open>A turn of the read loop, and the variables of the loop.\<close>

record read_turn =
  rd_stopped :: bool
  rd_data :: bytes
  rd_err :: "go_error option"
  rd_now :: int

record sampler =
  sp_bytesPerTick :: "64 word list"
  sp_lastTick :: int
  sp_bytesThisTick :: "64 word"
  sp_stallMS :: rat
  sp_lastByte :: int
  sp_stat :: clientStat

definition sample_read :: "int \<Rightarrow> read_turn \<Rightarrow> sampler \<Rightarrow> sampler" where
  "sample_read tick t s =
     (let n = length (rd_data t); now = rd_now t;
          s = (if n > 0 then
                 (let gap = Milliseconds (now - sp_lastByte s)
                  in s\<lparr>sp_bytesThisTick := sp_bytesThisTick s + of_nat n,
                       sp_stallMS := (if gap > sp_stallMS s then gap else sp_stallMS s),
                       sp_lastByte := now,
                       sp_stat := (sp_stat s)\<lparr>lt_windowBytes := lt_windowBytes (sp_stat s) + of_nat n\<rparr>\<rparr>)
               else s)
      in if now - sp_lastTick s \<ge> tick
         then s\<lparr>sp_bytesPerTick := sp_bytesPerTick s @ [sp_bytesThisTick s], sp_bytesThisTick := 0, sp_lastTick := now\<rparr>
         else s)"

fun sample_loop :: "int \<Rightarrow> read_turn list \<Rightarrow> sampler \<Rightarrow> sampler \<times> bool" where
  "sample_loop tick [] s = (s, False)"
| "sample_loop tick (t # ts) s =
     (if rd_stopped t then (s, True)
      else
        (let s = sample_read tick t s
         in case rd_err t of
              Some err \<Rightarrow>
                (s\<lparr>sp_stat := (sp_stat s)\<lparr>lt_firstErr := (if err \<noteq> EOF then Some err else lt_firstErr (sp_stat s)),
                                       lt_stoppedEarly := True\<rparr>\<rparr>, True)
            | None \<Rightarrow> sample_loop tick ts s))"

text \<open>
  What the network and the clock give a consumer: the status of the answer, the header, the
  times of the measurements and the turns of the loop.
\<close>

record pull_env =
  pl_connectStart :: int
  pl_status :: "nat result"
  pl_hdr :: "bytes result"
  pl_firstByte :: int
  pl_lastTick :: int
  pl_lastByte :: int
  pl_turns :: "read_turn list"

definition flv_signature_ok :: "bytes \<Rightarrow> bool" where
  "flv_signature_ok hdr \<longleftrightarrow> hdr ! 0 = 0x46 \<and> hdr ! 1 = 0x4C \<and> hdr ! 2 = 0x56 \<and> hdr ! 3 = 0x01"

definition pull_sampler :: "pull_env \<Rightarrow> clientStat \<Rightarrow> sampler" where
  "pull_sampler env stat =
     \<lparr>sp_bytesPerTick = [], sp_lastTick = pl_lastTick env, sp_bytesThisTick = 0, sp_stallMS = 0,
      sp_lastByte = pl_lastByte env, sp_stat = stat\<lparr>lt_streaming := True\<rparr>\<rparr>"

text \<open>The first component: whether the consumer has signalled its first byte; no statistics while it reads.\<close>

definition pull :: "nat \<Rightarrow> int \<Rightarrow> pull_env \<Rightarrow> bool \<times> clientStat option" where
  "pull i tick env =
     (let stat = new_clientStat i
      in case pl_status env of
           Inl err \<Rightarrow> (False, Some (stat\<lparr>lt_firstErr := Some err\<rparr>))
         | Inr status \<Rightarrow>
             if status \<noteq> 200 then (False, Some (stat\<lparr>lt_firstErr := Some (Errorf (''status '' @ utoa status))\<rparr>))
             else
               (case pl_hdr env of
                  Inl err \<Rightarrow> (False, Some (stat\<lparr>lt_firstErr := Some err\<rparr>))
                | Inr hdr \<Rightarrow>
                    if \<not> flv_signature_ok hdr then (False, Some (stat\<lparr>lt_firstErr := Some (Errorf ''bad FLV header'')\<rparr>))
                    else
                      (let stat = stat\<lparr>lt_flvOK := True, lt_connectMS := Milliseconds (pl_firstByte env - pl_connectStart env)\<rparr>
                       in case sample_loop tick (pl_turns env) (pull_sampler env stat) of
                            (s, False) \<Rightarrow> (True, None)
                          | (s, True) \<Rightarrow>
                              (True, Some ((sp_stat s)\<lparr>lt_maxStallMS := sp_stallMS s,
                                 lt_cvPercent := rnd64 (coefficientOfVariation (sp_bytesPerTick s) * 100)\<rparr>)))))"

section \<open>Drops\<close>

text \<open>The answer of \<open>/api/streams\<close> and the decoder of its body are parameters.\<close>

definition sampleDrops :: "('r \<Rightarrow> u64 list option) \<Rightarrow> 'r result \<Rightarrow> u64" where
  "sampleDrops decode resp =
     (case resp of
        Inl err \<Rightarrow> 0
      | Inr r \<Rightarrow> (case decode r of None \<Rightarrow> 0 | Some dropped \<Rightarrow> foldl (\<lambda>s d. s + d) 0 dropped))"

section \<open>Report\<close>

definition float_div :: "rat \<Rightarrow> rat \<Rightarrow> rat option" where
  "float_div x y = (if y = 0 then None else Some (rnd64 (x / y)))"

text \<open>The index of a percentile; \<open>None\<close> is the panic of an index out of range.\<close>

definition pct_rank :: "nat \<Rightarrow> rat \<Rightarrow> nat" where
  "pct_rank n p = nat \<lfloor>rnd64 (rnd64 (of_nat (n - 1)) * p)\<rfloor>"

definition pct :: "rat list \<Rightarrow> rat \<Rightarrow> rat option" where
  "pct s p =
     (if s = [] then Some 0
      else
        (let i = pct_rank (length s) p
         in if i < length s then Some (s ! i) else None))"

definition mean :: "rat list \<Rightarrow> rat" where
  "mean s =
     (if s = [] then 0
      else rnd64 (foldl (\<lambda>sum v. rnd64 (sum + v)) 0 s / rnd64 (of_nat (length s))))"

record load_report =
  rp_spawned :: nat
  rp_connected :: nat
  rp_ok :: nat
  rp_errs :: nat
  rp_window :: rat
  rp_gigabytes :: rat
  rp_megabytesPerSecond :: "rat option"
  rp_perClient :: "(rat option \<times> rat) option"
  rp_stallP50 :: "rat option"
  rp_stallP95 :: "rat option"
  rp_stallMax :: "rat option"
  rp_cvMean :: rat
  rp_cvP95 :: "rat option"
  rp_drops :: u64

fun report_loop :: "clientStat list \<Rightarrow> nat \<Rightarrow> nat \<Rightarrow> 64 word \<Rightarrow> rat list \<Rightarrow> rat list \<Rightarrow> nat \<times> nat \<times> 64 word \<times> rat list \<times> rat list" where
  "report_loop [] ok errs totalBytes stalls cvs = (ok, errs, totalBytes, stalls, cvs)"
| "report_loop (r # results) ok errs totalBytes stalls cvs =
     (if \<not> lt_flvOK r then report_loop results ok errs totalBytes stalls cvs
      else
        (let errs = (if lt_firstErr r \<noteq> None \<and> lt_firstErr r \<noteq> Some EOF then errs + 1 else errs)
         in report_loop results (ok + 1) errs (totalBytes + lt_windowBytes r) (stalls @ [lt_maxStallMS r]) (cvs @ [lt_cvPercent r])))"

definition report :: "clientStat list \<Rightarrow> int \<Rightarrow> nat \<Rightarrow> u64 \<Rightarrow> load_report" where
  "report results window reached drops =
     (case report_loop results 0 0 0 [] [] of (ok, errs, totalBytes, stalls, cvs) \<Rightarrow>
        let stalls = sort stalls; cvs = sort cvs; total = rnd64 (of_int (sint totalBytes)); n = rnd64 (of_nat ok)
        in \<lparr>rp_spawned = length results, rp_connected = reached, rp_ok = ok, rp_errs = errs,
            rp_window = Seconds window,
            rp_gigabytes = rnd64 (total / 1000000000),
            rp_megabytesPerSecond = float_div (rnd64 (total / 1000000)) (Seconds window),
            rp_perClient =
              (if ok > 0
               then Some (float_div (rnd64 (rnd64 (total / n) / 1000)) (Seconds window), rnd64 (rnd64 (total / n) / 1000000))
               else None),
            rp_stallP50 = pct stalls (1 / 2), rp_stallP95 = pct stalls (rnd64 (95 / 100)), rp_stallMax = pct stalls 1,
            rp_cvMean = mean cvs, rp_cvP95 = pct cvs (rnd64 (95 / 100)), rp_drops = drops\<rparr>)"

datatype cell =
    TextCell string
  | IntCell int
  | BoolCell bool
  | FixedCell nat "rat option"
  | QuotedError "go_error option"

definition csv_header :: "cell list" where
  "csv_header = map TextCell [''client'', ''flv_ok'', ''connect_ms'', ''window_bytes'', ''max_stall_ms'', ''cv_percent'', ''err'']"

text \<open>The contents of the file that is created, or nothing when it cannot be created.\<close>

definition writeCSV :: "bool \<Rightarrow> clientStat list \<Rightarrow> cell list list option" where
  "writeCSV created results =
     (if \<not> created then None
      else Some (csv_header # map (\<lambda>r.
        [IntCell (int (lt_id r)), BoolCell (lt_flvOK r), FixedCell 1 (Some (lt_connectMS r)), IntCell (sint (lt_windowBytes r)),
         FixedCell 0 (Some (lt_maxStallMS r)), FixedCell 2 (Some (lt_cvPercent r)), QuotedError (lt_firstErr r)]) results))"

fun summary_loop :: "clientStat list \<Rightarrow> nat \<Rightarrow> 64 word \<Rightarrow> rat list \<Rightarrow> rat list \<Rightarrow> nat \<times> 64 word \<times> rat list \<times> rat list" where
  "summary_loop [] ok totalBytes stalls cvs = (ok, totalBytes, stalls, cvs)"
| "summary_loop (r # results) ok totalBytes stalls cvs =
     (if \<not> lt_flvOK r then summary_loop results ok totalBytes stalls cvs
      else summary_loop results (ok + 1) (totalBytes + lt_windowBytes r) (stalls @ [lt_maxStallMS r]) (cvs @ [lt_cvPercent r]))"

definition summary_header :: "cell list" where
  "summary_header = map TextCell
     [''label'', ''n'', ''connected'', ''flv_ok'', ''connect_storm_s'', ''window_s'', ''window_bytes'', ''agg_mbs'', ''per_client_kbs'',
      ''stall_p50_ms'', ''stall_p95_ms'', ''stall_max_ms'', ''cv_mean_pct'', ''cv_p95_pct'', ''bus_drops'']"

text \<open>\<open>existing\<close> is what \<open>os.Stat\<close> finds at the path, \<open>opened\<close> whether the file can be opened.\<close>

definition writeSummary :: "cell list list option \<Rightarrow> bool \<Rightarrow> string \<Rightarrow> clientStat list \<Rightarrow> int \<Rightarrow> nat \<Rightarrow> u64 \<Rightarrow> int \<Rightarrow> cell list list option" where
  "writeSummary existing opened label results window reached drops connectElapsed =
     (case summary_loop results 0 0 [] [] of (ok, totalBytes, stalls, cvs) \<Rightarrow>
        let stalls = sort stalls; cvs = sort cvs; total = rnd64 (of_int (sint totalBytes));
            aggMB = float_div (rnd64 (total / 1000000)) (Seconds window);
            perKB = (if ok > 0 then float_div (rnd64 (rnd64 (total / rnd64 (of_nat ok)) / 1000)) (Seconds window) else Some 0);
            row = [TextCell label, IntCell (int (length results)), IntCell (int reached), IntCell (int ok),
                   FixedCell 2 (Some (Seconds connectElapsed)), FixedCell 2 (Some (Seconds window)), IntCell (sint totalBytes),
                   FixedCell 1 aggMB, FixedCell 1 perKB,
                   FixedCell 0 (pct stalls (1 / 2)), FixedCell 0 (pct stalls (rnd64 (95 / 100))), FixedCell 0 (pct stalls 1),
                   FixedCell 1 (Some (mean cvs)), FixedCell 1 (pct cvs (rnd64 (95 / 100))), IntCell (uint drops)]
        in if \<not> opened then existing
           else (case existing of None \<Rightarrow> Some [summary_header, row] | Some rows \<Rightarrow> Some (rows @ [row])))"

section \<open>The run\<close>

text \<open>The wait for the first bytes: at each turn the time, and whether a consumer signalled.\<close>

fun connect_loop :: "nat \<Rightarrow> int \<Rightarrow> (int \<times> bool) list \<Rightarrow> nat \<Rightarrow> nat \<times> bool" where
  "connect_loop clients deadline [] reached = (reached, \<not> reached < clients)"
| "connect_loop clients deadline ((now, ready) # ts) reached =
     (if reached < clients \<and> now < deadline
      then connect_loop clients deadline ts (if ready then reached + 1 else reached)
      else (reached, True))"

text \<open>
  What \<open>main\<close> is given: the tick, the environment of each consumer, the times it reads, the
  drops that were sampled, and the files of its flags (\<open>None\<close>: no path was given).
\<close>

record load_env =
  le_tick :: int
  le_pulls :: "pull_env list"
  le_gateOpened :: int
  le_connectDeadline :: int
  le_connectTurns :: "(int \<times> bool) list"
  le_connectEnd :: int
  le_dropsBefore :: u64
  le_windowStart :: int
  le_windowEnd :: int
  le_dropsAfter :: u64
  le_out :: "bool option"
  le_summary :: "(cell list list option \<times> bool) option"
  le_label :: string

text \<open>\<open>None\<close> while \<open>main\<close> waits: for first bytes, or at the end for a consumer that is still reading.\<close>

definition loadtest_main :: "load_env \<Rightarrow> (load_report \<times> cell list list option \<times> cell list list option) option" where
  "loadtest_main env =
     (case connect_loop (length (le_pulls env)) (le_connectDeadline env) (le_connectTurns env) 0 of
        (reached, False) \<Rightarrow> None
      | (reached, True) \<Rightarrow>
          (let results = map (\<lambda>(i, e). snd (pull i (le_tick env) e)) (List.enumerate 0 (le_pulls env));
               window = le_windowEnd env - le_windowStart env;
               drops = le_dropsAfter env - le_dropsBefore env
           in if list_ex (\<lambda>r. r = None) results then None
              else
                (let results = map the results
                 in Some (report results window reached drops,
                      (case le_out env of None \<Rightarrow> None | Some created \<Rightarrow> writeCSV created results),
                      (case le_summary env of
                         None \<Rightarrow> None
                       | Some (existing, opened) \<Rightarrow>
                           writeSummary existing opened (le_label env) results window reached drops
                             (le_connectEnd env - le_gateOpened env))))))"

section \<open>What a consumer counts\<close>

text \<open>The turns in which the loop reads: up to the first error, none after it was stopped.\<close>

fun taken :: "read_turn list \<Rightarrow> read_turn list" where
  "taken [] = []"
| "taken (t # ts) = (if rd_stopped t then [] else if rd_err t \<noteq> None then [t] else t # taken ts)"

text \<open>The gaps, in milliseconds, before each read that delivered bytes.\<close>

fun gaps :: "int \<Rightarrow> read_turn list \<Rightarrow> rat list" where
  "gaps lastByte [] = []"
| "gaps lastByte (t # ts) =
     (if rd_data t = [] then gaps lastByte ts else Milliseconds (rd_now t - lastByte) # gaps (rd_now t) ts)"

lemma sample_read_effect:
  "sp_stallMS (sample_read tick t s) = (if rd_data t = [] then sp_stallMS s else max (sp_stallMS s) (Milliseconds (rd_now t - sp_lastByte s)))"
  "sp_lastByte (sample_read tick t s) = (if rd_data t = [] then sp_lastByte s else rd_now t)"
  "sp_stat (sample_read tick t s) = (sp_stat s)\<lparr>lt_windowBytes := lt_windowBytes (sp_stat s) + of_nat (length (rd_data t))\<rparr>"
  "sum_list (sp_bytesPerTick (sample_read tick t s)) + sp_bytesThisTick (sample_read tick t s) =
     sum_list (sp_bytesPerTick s) + sp_bytesThisTick s + of_nat (length (rd_data t))"
  by (auto simp: sample_read_def Let_def max_def)

lemma sample_loop_counts:
  assumes "sample_loop tick ts s = (s', fin)"
  shows "lt_windowBytes (sp_stat s') = lt_windowBytes (sp_stat s) + of_nat (length (concat (map rd_data (taken ts))))"
    and "sum_list (sp_bytesPerTick s') + sp_bytesThisTick s' =
      sum_list (sp_bytesPerTick s) + sp_bytesThisTick s + of_nat (length (concat (map rd_data (taken ts))))"
    and "sp_stallMS s' = foldl max (sp_stallMS s) (gaps (sp_lastByte s) (taken ts))"
    and "lt_flvOK (sp_stat s') = lt_flvOK (sp_stat s)"
  using assms
proof (induction ts arbitrary: s)
  case (Cons t ts)
  { case 1 then show ?case using Cons.IH(1) by (auto simp: sample_read_effect Let_def split: if_splits option.splits) }
  { case 2 then show ?case using Cons.IH(2) by (auto simp: sample_read_effect Let_def split: if_splits option.splits) }
  { case 3 then show ?case using Cons.IH(3) by (auto simp: sample_read_effect Let_def split: if_splits option.splits) }
  { case 4 then show ?case using Cons.IH(4) by (auto simp: sample_read_effect Let_def split: if_splits option.splits) }
qed simp_all

text \<open>Every tick takes its time: the samples are no more than the run has ticks.\<close>

lemma sample_loop_ticks:
  assumes "sample_loop tick ts s = (s', fin)" "0 < tick" "sorted (sp_lastTick s # map rd_now ts)"
  shows "sp_lastTick s \<le> sp_lastTick s' \<and>
    int (length (sp_bytesPerTick s')) * tick \<le> int (length (sp_bytesPerTick s)) * tick + (sp_lastTick s' - sp_lastTick s)"
  using assms(1,3)
proof (induction ts arbitrary: s)
  case (Cons t ts)
  let ?s = "sample_read tick t s"
  have read: "sp_lastTick s \<le> sp_lastTick ?s" "sp_lastTick ?s \<le> rd_now t"
    "int (length (sp_bytesPerTick ?s)) * tick \<le> int (length (sp_bytesPerTick s)) * tick + (sp_lastTick ?s - sp_lastTick s)"
    using Cons.prems(2) assms(2) by (auto simp: sample_read_def Let_def algebra_simps)
  have "sorted (sp_lastTick ?s # map rd_now ts)" using Cons.prems(2) read(2) by (auto intro: order_trans)
  then show ?case using Cons.IH [of ?s] Cons.prems read by (fastforce simp: Let_def split: if_splits option.splits)
qed simp

lemma pull_cases:
  assumes "pull i tick env = (ready, Some stat)" "pl_status env = Inr 200" "pl_hdr env = Inr hdr" "flv_signature_ok hdr"
  shows "\<exists>s'. ready \<and> sample_loop tick (pl_turns env)
      (pull_sampler env ((new_clientStat i)\<lparr>lt_flvOK := True, lt_connectMS := Milliseconds (pl_firstByte env - pl_connectStart env)\<rparr>)) = (s', True) \<and>
    stat = (sp_stat s')\<lparr>lt_maxStallMS := sp_stallMS s', lt_cvPercent := rnd64 (coefficientOfVariation (sp_bytesPerTick s') * 100)\<rparr>"
  using assms by (auto simp: pull_def Let_def split: prod.splits bool.splits)

section \<open>Jitter\<close>

declare of_int_sint [simp del]

lemma sum_nonneg: "list_all (\<lambda>x. 0 \<le> f x) xs \<Longrightarrow> 0 \<le> (sum_list (map f xs) :: int)"
  by (induction xs) auto

lemma sum_exact:
  assumes "0 \<le> a" "list_all (\<lambda>x. 0 \<le> sint x) xs" "a + sum_list (map sint xs) < 2 ^ 53"
  shows "foldl (\<lambda>sum x. rnd64 (sum + rnd64 (of_int (sint x)))) (of_int a) xs = of_int (a + sum_list (map sint xs))"
  using assms
proof (induction xs arbitrary: a)
  case (Cons x xs)
  have "0 \<le> sum_list (map sint xs)" using Cons.prems(2) by (intro sum_nonneg) simp
  then have x: "\<bar>sint x\<bar> < 2 ^ 53" "\<bar>a + sint x\<bar> < 2 ^ 53" using Cons.prems by auto
  have "rnd64 (of_int a + rnd64 (of_int (sint x))) = of_int (a + sint x)"
    using rnd64_int [OF x(2)] by (simp add: rnd64_int [OF x(1)])
  moreover have "foldl (\<lambda>sum x. rnd64 (sum + rnd64 (of_int (sint x)))) (of_int (a + sint x)) xs = of_int (a + sint x + sum_list (map sint xs))"
    using Cons.prems by (intro Cons.IH) auto
  ultimately show ?case by (simp add: add.assoc)
qed simp

lemma squares_zero_iff:
  assumes "0 \<le> a"
  shows "foldl (\<lambda>acc x. rnd64 (acc + rnd64 (f x * f x))) a xs = 0 \<longleftrightarrow> a = 0 \<and> list_all (\<lambda>x. f x = 0) xs"
    and "0 \<le> foldl (\<lambda>acc x. rnd64 (acc + rnd64 (f x * f x))) a xs"
  using assms
proof (induction xs arbitrary: a)
  case (Cons x xs)
  have nn: "0 \<le> rnd64 (f x * f x)" by (intro rnd64_nonneg) simp
  { case 1 then show ?case using Cons.IH(1) [of "rnd64 (a + rnd64 (f x * f x))"] nn by (auto simp: add_nonneg_eq_0_iff) }
  { case 2 then show ?case using Cons.IH(2) [of "rnd64 (a + rnd64 (f x * f x))"] nn by auto }
qed auto

lemma equal_samples_sum: "set xs \<subseteq> {c} \<Longrightarrow> sum_list (map sint xs) = int (length xs) * sint c"
  by (induction xs) (auto simp: algebra_simps)

lemma sum_list_member_le: "list_all (\<lambda>x. 0 \<le> f x) xs \<Longrightarrow> x \<in> set xs \<Longrightarrow> f x \<le> (sum_list (map f xs) :: int)"
  by (induction xs) (auto dest: sum_nonneg)

lemma cv_steps:
  assumes "xs \<noteq> []" "list_all (\<lambda>x. 0 \<le> sint x) xs" "sum_list (map sint xs) < 2 ^ 53"
    and mean: "m = rnd64 (of_int (sum_list (map sint xs)) / rnd64 (of_nat (length xs)))"
  shows "coefficientOfVariation xs =
      (if m = 0 then 0
       else rnd64 (sqrt64 (rnd64 (foldl (\<lambda>acc x. rnd64 (acc + rnd64 (rnd64 (of_int (sint x) - m) * rnd64 (of_int (sint x) - m)))) 0 xs /
         rnd64 (of_nat (length xs)))) / m))"
proof -
  have x: "rnd64 (of_int (sint x)) = of_int (sint x)" if "x \<in> set xs" for x
    using sum_list_member_le [OF assms(2) that] assms(2,3) that by (intro rnd64_int) (auto simp: list_all_iff)
  have "foldl (\<lambda>acc x. let d = rnd64 (rnd64 (of_int (sint x)) - m) in rnd64 (acc + rnd64 (d * d))) 0 xs =
      foldl (\<lambda>acc x. rnd64 (acc + rnd64 (rnd64 (of_int (sint x) - m) * rnd64 (of_int (sint x) - m)))) 0 xs"
    by (rule foldl_cong) (simp_all add: Let_def x)
  then show ?thesis using assms(1) sum_exact [of 0 xs] assms(2,3)
    unfolding coefficientOfVariation_def Let_def by (simp add: mean)
qed



section \<open>Percentiles and totals\<close>

lemma pct_rank_last: "0 < n \<Longrightarrow> n \<le> 2 ^ 53 \<Longrightarrow> pct_rank n 1 = n - 1"
  using rnd64_nat [of "n - 1"] by (simp add: pct_rank_def)

lemma pct_rank_mono: "0 \<le> p \<Longrightarrow> p \<le> q \<Longrightarrow> pct_rank n p \<le> pct_rank n q"
  unfolding pct_rank_def by (intro nat_mono floor_mono rnd64_mono mult_left_mono mult_nonneg_nonneg rnd64_nonneg) auto

lemma pct_rank_less:
  assumes "0 < n" "n \<le> 2 ^ 53" "0 \<le> p" "p \<le> 1"
  shows "pct_rank n p < n"
  using pct_rank_mono [OF assms(3,4), of n] pct_rank_last [OF assms(1,2)] assms(1) by simp

lemma pct_value:
  assumes "s \<noteq> []" "length s \<le> 2 ^ 53" "0 \<le> p" "p \<le> 1"
  shows "pct s p = Some (s ! pct_rank (length s) p)"
  using pct_rank_less [OF _ assms(2-4)] assms(1) by (simp add: pct_def Let_def)

lemma pct_mono:
  assumes "sorted s" "length s \<le> 2 ^ 53" "0 \<le> p" "p \<le> q" "q \<le> 1"
  shows "\<exists>x y. pct s p = Some x \<and> pct s q = Some y \<and> x \<le> y \<and> (s \<noteq> [] \<longrightarrow> x \<in> set s \<and> y \<in> set s)"
proof (cases "s = []")
  case False
  have "pct_rank (length s) q < length s" using False assms(2-5) by (intro pct_rank_less) auto
  with pct_rank_mono [OF assms(3,4), of "length s"] show ?thesis
    using pct_value [OF False assms(2)] assms by (auto intro: sorted_nth_mono)
qed (simp add: pct_def)

lemma pct_worst:
  assumes "sorted s" "length s \<le> 2 ^ 53" "x \<in> set s"
  shows "\<exists>y. pct s 1 = Some y \<and> x \<le> y"
proof -
  have ne: "s \<noteq> []" using assms(3) by auto
  obtain i where "i < length s" "x = s ! i" using assms(3) by (metis in_set_conv_nth)
  then have "x \<le> s ! (length s - 1)" using assms(1) by (auto intro!: sorted_nth_mono)
  then show ?thesis using pct_value [OF ne assms(2), of 1] pct_rank_last [OF _ assms(2)] ne by simp
qed

lemma report_loop_totals:
  "report_loop results ok errs tb stalls cvs =
     (let oks = filter lt_flvOK results
      in (ok + length oks, errs + length (filter (\<lambda>r. lt_firstErr r \<noteq> None \<and> lt_firstErr r \<noteq> Some EOF) oks),
          tb + sum_list (map lt_windowBytes oks), stalls @ map lt_maxStallMS oks, cvs @ map lt_cvPercent oks))"
  by (induction results ok errs tb stalls cvs rule: report_loop.induct) (auto simp: Let_def add.assoc)

lemma summary_loop_totals:
  "summary_loop results ok tb stalls cvs =
     (let oks = filter lt_flvOK results
      in (ok + length oks, tb + sum_list (map lt_windowBytes oks), stalls @ map lt_maxStallMS oks, cvs @ map lt_cvPercent oks))"
  by (induction results ok tb stalls cvs rule: summary_loop.induct) (auto simp: Let_def add.assoc)

lemma report_counts:
  "rp_connected (report results window reached drops) = reached" "rp_spawned (report results window reached drops) = length results"
  by (simp_all add: report_def report_loop_totals Let_def)

lemma connect_loop_bound:
  assumes "connect_loop clients deadline ts n = (c, fin)" "n \<le> clients"
  shows "n \<le> c \<and> c \<le> clients"
  using assms by (induction clients deadline ts n rule: connect_loop.induct) (auto split: if_splits)

lemma frac95: "0 \<le> rnd64 (95 / 100)" "1 / 2 \<le> rnd64 (95 / 100)" "rnd64 (95 / 100) \<le> 1"
proof -
  have "rnd64 (1 / 2) = 1 / 2" using rnd64_exact [of 1 "- 1"] by (simp add: power_int_minus)
  moreover have "rnd64 1 = 1" using rnd64_int [of 1] by simp
  ultimately show "0 \<le> rnd64 (95 / 100)" "1 / 2 \<le> rnd64 (95 / 100)" "rnd64 (95 / 100) \<le> 1"
    using rnd64_mono [of "1 / 2" "95 / 100"] rnd64_mono [of "95 / 100" 1] by auto
qed

text \<open>
  C36. The report of a run never indexes out of range, and its percentiles are what their names
  say: they are in order, and with a consumer that read the stream they are stalls of
  consumers that did, the worst being at least as long as every one of them. Consumers that
  never saw an FLV header count neither there nor in the totals.
\<close>

theorem report_percentiles:
  assumes "length results \<le> 2 ^ 53"
  shows "let r = report results window reached drops; stalls = lt_maxStallMS ` {c \<in> set results. lt_flvOK c}
    in (\<exists>p50 p95 worst cv95. rp_stallP50 r = Some p50 \<and> rp_stallP95 r = Some p95 \<and> rp_stallMax r = Some worst \<and> rp_cvP95 r = Some cv95 \<and>
          p50 \<le> p95 \<and> p95 \<le> worst \<and> (stalls \<noteq> {} \<longrightarrow> {p50, p95, worst} \<subseteq> stalls \<and> worst = Max stalls)) \<and>
       rp_ok r = card {i. i < length results \<and> lt_flvOK (results ! i)} \<and> rp_errs r \<le> rp_ok r"
proof -
  define oks where "oks = filter lt_flvOK results"
  define st where "st = sort (map lt_maxStallMS oks)"
  define cs where "cs = sort (map lt_cvPercent oks)"
  have len: "length st \<le> 2 ^ 53" "length cs \<le> 2 ^ 53" using order_trans [OF length_filter_le assms] by (simp_all add: st_def cs_def oks_def)
  have set: "set st = lt_maxStallMS ` {c \<in> set results. lt_flvOK c}" by (simp add: st_def oks_def)
  have r: "rp_stallP50 (report results window reached drops) = pct st (1 / 2)"
    "rp_stallP95 (report results window reached drops) = pct st (rnd64 (95 / 100))"
    "rp_stallMax (report results window reached drops) = pct st 1"
    "rp_cvP95 (report results window reached drops) = pct cs (rnd64 (95 / 100))"
    "rp_ok (report results window reached drops) = length oks"
    by (simp_all add: report_def report_loop_totals Let_def st_def cs_def oks_def)
  have errs: "rp_errs (report results window reached drops) \<le> length oks"
    unfolding report_def report_loop_totals Let_def oks_def [symmetric] by (simp add: length_filter_le)
  obtain a b where ab: "pct st (1 / 2) = Some a" "pct st (rnd64 (95 / 100)) = Some b" "a \<le> b" "st \<noteq> [] \<longrightarrow> a \<in> set st \<and> b \<in> set st"
    using pct_mono [of st "1 / 2" "rnd64 (95 / 100)"] len frac95 by (auto simp: st_def)
  obtain c where c: "pct st 1 = Some c" "b \<le> c" "st \<noteq> [] \<longrightarrow> c \<in> set st"
    using pct_mono [of st "rnd64 (95 / 100)" 1] len frac95 ab(2) by (auto simp: st_def)
  obtain d where d: "pct cs (rnd64 (95 / 100)) = Some d"
    using pct_mono [of cs "rnd64 (95 / 100)" 1] len frac95 by (auto simp: cs_def)
  have "x \<le> c" if "x \<in> set st" for x using pct_worst [OF _ len(1) that] c(1) by (auto simp: st_def)
  then have "c = Max (set st)" if "st \<noteq> []" using c(3) that by (metis List.finite_set Max_eqI)
  moreover have "length oks = card {i. i < length results \<and> lt_flvOK (results ! i)}"
    by (simp add: oks_def length_filter_conv_card)
  ultimately show ?thesis
    using ab c d r errs unfolding Let_def set [symmetric] by auto
qed

definition example_stat :: "nat \<Rightarrow> rat \<Rightarrow> clientStat" where
  "example_stat i stall = (new_clientStat i)\<lparr>lt_flvOK := True, lt_maxStallMS := stall\<rparr>"

theorem report_percentiles_witness:
  "rp_stallMax (report [example_stat 0 40, example_stat 1 90, new_clientStat 2] 10 2 0) = Some 90"
proof -
  let ?rs = "[example_stat 0 40, example_stat 1 90, new_clientStat 2]"
  have stalls: "lt_maxStallMS ` {c \<in> set ?rs. lt_flvOK c} = {40, 90}"
  proof -
    have [simp]: "lt_flvOK (example_stat i x)" "lt_maxStallMS (example_stat i x) = x" "\<not> lt_flvOK (new_clientStat i)" for i x
      by (simp_all add: example_stat_def new_clientStat_def)
    have "{c \<in> set ?rs. lt_flvOK c} = {example_stat 0 40, example_stat 1 90}" by auto
    then show ?thesis by simp
  qed
  have "length ?rs \<le> 2 ^ 53" by simp
  from report_percentiles [OF this, of 10 2 0, unfolded Let_def stalls] show ?thesis by auto
qed

text \<open>
  The row appended to the summary file carries the numbers of the printed report: the same
  consumers, rates, percentiles and drops, of the same total of bytes.
\<close>

lemma summary_is_report:
  "let r = report results window reached drops; oks = filter lt_flvOK results
   in writeSummary existing True label results window reached drops elapsed =
      Some ((case existing of None \<Rightarrow> [summary_header] | Some rows \<Rightarrow> rows) @
        [[TextCell label, IntCell (int (rp_spawned r)), IntCell (int (rp_connected r)), IntCell (int (rp_ok r)),
          FixedCell 2 (Some (Seconds elapsed)), FixedCell 2 (Some (rp_window r)), IntCell (sint (sum_list (map lt_windowBytes oks))),
          FixedCell 1 (rp_megabytesPerSecond r), FixedCell 1 (case rp_perClient r of None \<Rightarrow> Some 0 | Some (rate, _) \<Rightarrow> rate),
          FixedCell 0 (rp_stallP50 r), FixedCell 0 (rp_stallP95 r), FixedCell 0 (rp_stallMax r),
          FixedCell 1 (Some (rp_cvMean r)), FixedCell 1 (rp_cvP95 r), IntCell (uint (rp_drops r))]])"
  by (simp add: Let_def writeSummary_def report_def report_loop_totals summary_loop_totals split: option.splits)

text \<open>The run ends when no consumer is left reading, and reports what each of them returned.\<close>

lemma nth_the: "\<not> list_ex (\<lambda>r. r = None) rs \<Longrightarrow> i < length rs \<Longrightarrow> rs ! i = Some (the (rs ! i))"
  by (auto simp: list_ex_length)

lemma loadtest_main_reports:
  assumes "loadtest_main env = Some (r, csv, summary)"
  shows "\<exists>results. length results = length (le_pulls env) \<and>
      (\<forall>i < length results. snd (pull i (le_tick env) (le_pulls env ! i)) = Some (results ! i)) \<and>
      rp_spawned r = length (le_pulls env) \<and> rp_connected r \<le> rp_spawned r \<and>
      r = report results (le_windowEnd env - le_windowStart env) (rp_connected r) (le_dropsAfter env - le_dropsBefore env)"
proof -
  obtain c where c: "connect_loop (length (le_pulls env)) (le_connectDeadline env) (le_connectTurns env) 0 = (c, True)"
    using assms by (auto simp: loadtest_main_def split: prod.splits bool.splits)
  define rs where "rs = map (\<lambda>(i, e). snd (pull i (le_tick env) e)) (List.enumerate 0 (le_pulls env))"
  have some: "\<not> list_ex (\<lambda>r. r = None) rs" and r: "r = report (map the rs) (le_windowEnd env - le_windowStart env) c (le_dropsAfter env - le_dropsBefore env)"
    using assms c by (auto simp: loadtest_main_def Let_def rs_def split: if_splits)
  have rs: "length rs = length (le_pulls env)" "i < length rs \<Longrightarrow> rs ! i = snd (pull i (le_tick env) (le_pulls env ! i))" for i
    by (simp_all add: rs_def nth_enumerate_eq)
  have results: "snd (pull i (le_tick env) (le_pulls env ! i)) = Some (map the rs ! i)" if "i < length rs" for i
    using nth_the [OF some that] rs(2) [OF that] that by simp
  have conn: "rp_connected r = c" "rp_spawned r = length rs" unfolding r by (simp_all add: report_counts)
  show ?thesis
  proof (intro exI [of _ "map the rs"] conjI allI impI)
    show "rp_connected r \<le> rp_spawned r" using connect_loop_bound [OF c] by (simp add: conn rs(1))
    show "r = report (map the rs) (le_windowEnd env - le_windowStart env) (rp_connected r) (le_dropsAfter env - le_dropsBefore env)"
      unfolding conn by (rule r)
  qed (use results conn rs(1) in simp_all)
qed

section \<open>A consumer of the server\<close>


lemma sample_loop_ends: "snd (sample_loop tick ts s) \<longleftrightarrow> list_ex (\<lambda>t. rd_stopped t \<or> rd_err t \<noteq> None) ts"
  by (induction tick ts s rule: sample_loop.induct) (auto simp: Let_def split: option.splits)

lemma pull_returns:
  assumes "list_ex (\<lambda>t. rd_stopped t \<or> rd_err t \<noteq> None) (pl_turns env)"
  obtains ready stat where "pull i tick env = (ready, Some stat)"
proof -
  have "snd (sample_loop tick (pl_turns env) s)" for s using assms by (simp add: sample_loop_ends)
  then have "\<exists>ready stat. pull i tick env = (ready, Some stat)"
    unfolding pull_def Let_def by (auto split: sum.splits prod.splits bool.splits) (metis snd_conv)
  then show thesis using that by blast
qed


text \<open>
  A consumer whose connection stalls is never woken: the run then waits for it for ever,
  although the source says that a single read is bounded.
\<close>

lemma stalled_consumer_blocks_run:
  assumes "i < length (le_pulls env)" "snd (pull i (le_tick env) (le_pulls env ! i)) = None"
  shows "loadtest_main env = None"
  using loadtest_main_reports [of env] assms by (cases "loadtest_main env") auto

text \<open>
  The drops of the window are a difference of unsigned numbers, and the total of the server
  falls when a viewer that lost messages leaves: the reported number then wraps around.
\<close>

lemma window_drops_wrap:
  assumes "loadtest_main env = Some (r, csv, summary)" "le_dropsAfter env < le_dropsBefore env"
  shows "unat (rp_drops r) = 2 ^ 64 - (unat (le_dropsBefore env) - unat (le_dropsAfter env))"
proof -
  obtain results reached where "r = report results (le_windowEnd env - le_windowStart env) reached (le_dropsAfter env - le_dropsBefore env)"
    using loadtest_main_reports [OF assms(1)] by metis
  then have "rp_drops r = le_dropsAfter env - le_dropsBefore env" by (simp add: report_def report_loop_totals Let_def)
  then show ?thesis using assms(2) unsigned_less [of "le_dropsBefore env", where ?'a = nat]
    by (simp add: unat_sub_if' word_less_nat_alt)
qed

text \<open>What the sampled drops are: those of the streams the API lists.\<close>

lemma sampleDrops_of_api:
  assumes "bus_inv b" "handleStreams ''GET'' b = (200, StreamsData infos)"
  shows "sampleDrops (\<lambda>infos. Some (map si_MessagesDropped infos)) (Inr infos) =
    sum_list (map (\<lambda>(k, p). Stream_TotalDropped (stream_at b p)) (bus_streams b))"
proof -
  have "foldl (\<lambda>s d. s + d) n ds = n + sum_list ds" for n :: u64 and ds
    by (induction ds arbitrary: n) (simp_all add: add.assoc)
  moreover have "infos = stream_infos b" using handleStreams_infos [OF assms(1)] assms(2) by simp
  ultimately show ?thesis
    by (simp add: sampleDrops_def stream_infos_def stream_info_fields comp_def case_prod_unfold)
qed

end
