(* ===== verification/Scripts.thy ===== *)
theory Scripts
  imports Go_Prelude Go_Strings Go_Path
begin

text \<open>
  The tools of the repository: the line and comment checks (\<open>scripts/check-lines\<close>,
  \<open>scripts/check-comments\<close>), the driver of the documentation generator
  (\<open>scripts/gen-docs/main.go\<close>) and the process helpers of the integration tests
  (\<open>internal/itest/process_helpers.go\<close>). The file tree is the list of visits that
  \<open>filepath.Walk\<close> makes, each with the path, the error it reports and what reading the file
  gives; the Go parser, the texts of the documents and the operating system are parameters.
\<close>

section \<open>Walking the tree\<close>

record visit =
  vs_path :: string
  vs_err :: "go_error option"
  vs_read :: "string result"

fun Walk :: "('s \<Rightarrow> visit \<Rightarrow> 's \<times> go_error option) \<Rightarrow> visit list \<Rightarrow> 's \<Rightarrow> 's \<times> go_error option" where
  "Walk f [] s = (s, None)"
| "Walk f (v # vs) s = (case f s v of (s, None) \<Rightarrow> Walk f vs s | (s, Some e) \<Rightarrow> (s, Some e))"

section \<open>check-lines\<close>

abbreviation maxLines :: nat where "maxLines \<equiv> 300"

definition newline :: char where "newline = char_of (10 :: nat)"

definition vendored :: "string \<Rightarrow> bool" where
  "vendored path \<longleftrightarrow> Contains path ''/vendor/'' \<or> Contains path ''/testdata/''"

definition line_count :: "string \<Rightarrow> nat" where
  "line_count data = length (filter (\<lambda>c. c = newline) data)"

definition lines_visit :: "string list \<Rightarrow> visit \<Rightarrow> string list \<times> go_error option" where
  "lines_visit failures v =
     (case vs_err v of
        Some err \<Rightarrow> (failures, Some err)
      | None \<Rightarrow>
          if \<not> HasSuffix (vs_path v) ''.go'' then (failures, None)
          else if vendored (vs_path v) then (failures, None)
          else
            (case vs_read v of
               Inl err \<Rightarrow> (failures, Some err)
             | Inr data \<Rightarrow>
                 let lines = line_count data
                 in if lines > maxLines
                    then (failures @ [vs_path v @ '': '' @ utoa lines @ '' lines (max '' @ utoa maxLines @ '')''], None)
                    else (failures, None)))"

text \<open>The exit status and the lines printed; \<open>None\<close>: no directory was named.\<close>

definition check_lines :: "visit list option \<Rightarrow> nat \<times> string list" where
  "check_lines root =
     (case root of
        None \<Rightarrow> (1, [])
      | Some visits \<Rightarrow>
          (case Walk lines_visit visits [] of
             (failures, Some err) \<Rightarrow> (1, [])
           | (failures, None) \<Rightarrow> if length failures > 0 then (1, failures) else (0, [])))"

section \<open>check-comments\<close>

record FuncDecl =
  fd_Name :: string
  fd_Doc :: "string list option"
  fd_Line :: nat

definition missing_comment :: "string \<Rightarrow> FuncDecl \<Rightarrow> string list" where
  "missing_comment path fn =
     (if HasPrefix (fd_Name fn) ''Test'' \<or> HasPrefix (fd_Name fn) ''Benchmark'' then []
      else if fd_Doc fn = None \<or> fd_Doc fn = Some []
      then [path @ '':'' @ utoa (fd_Line fn) @ '': function '' @ fd_Name fn @ '' missing comment'']
      else [])"

definition comments_visit :: "(string \<Rightarrow> FuncDecl list option) \<Rightarrow> string list \<Rightarrow> visit \<Rightarrow> string list \<times> go_error option" where
  "comments_visit parse failures v =
     (case vs_err v of
        Some err \<Rightarrow> (failures, Some err)
      | None \<Rightarrow>
          if \<not> HasSuffix (vs_path v) ''.go'' then (failures, None)
          else if vendored (vs_path v) then (failures, None)
          else if HasSuffix (vs_path v) ''_test.go'' then (failures, None)
          else
            (case vs_read v of
               Inl err \<Rightarrow> (failures, Some err)
             | Inr content \<Rightarrow>
                 let failures =
                   (if \<not> Contains content ''If you are AI:''
                    then failures @ [vs_path v @ '': missing '' @ [CHR 0x27] @ ''If you are AI:'' @ [CHR 0x27] @ '' header''] else failures)
                 in case parse content of
                      None \<Rightarrow> (failures, None)
                    | Some decls \<Rightarrow> (failures @ concat (map (missing_comment (vs_path v)) decls), None)))"

definition check_comments :: "(string \<Rightarrow> FuncDecl list option) \<Rightarrow> visit list option \<Rightarrow> nat \<times> string list" where
  "check_comments parse root =
     (case root of
        None \<Rightarrow> (1, [])
      | Some visits \<Rightarrow>
          (case Walk (comments_visit parse) visits [] of
             (failures, Some err) \<Rightarrow> (1, [])
           | (failures, None) \<Rightarrow> if length failures > 0 then (1, failures) else (0, [])))"

section \<open>gen-docs\<close>

definition generators :: "string list" where
  "generators = [''ARCHITECTURE.md'', ''CONFIG.md'', ''TESTING.md'', ''OPERATIONS.md'']"

text \<open>
  The documents are written in the order the map is iterated in. A write that succeeds puts
  the file into the tree; \<open>writable\<close> tells which paths can be written.
\<close>

fun docs_loop :: "(string \<Rightarrow> bool) \<Rightarrow> (string \<Rightarrow> string) \<Rightarrow> string list \<Rightarrow> (string, string) gomap \<Rightarrow> (string, string) gomap \<times> bool" where
  "docs_loop writable body [] fs = (fs, True)"
| "docs_loop writable body (name # names) fs =
     (let path = filepath_Join [''docs'', name]
      in if writable path then docs_loop writable body names (gomap_set path (body name) fs) else (fs, False))"

definition gen_docs :: "bool \<Rightarrow> (string \<Rightarrow> bool) \<Rightarrow> (string \<Rightarrow> string) \<Rightarrow> nat \<Rightarrow> string list \<Rightarrow> (string, string) gomap \<Rightarrow> nat \<times> (string, string) gomap" where
  "gen_docs mkdirAll writable body now order fs =
     (if \<not> mkdirAll then (1, fs)
      else
        (case docs_loop writable body order fs of
           (fs, False) \<Rightarrow> (1, fs)
         | (fs, True) \<Rightarrow>
             let stamp = utoa now @ [newline]; path = filepath_Join [''docs'', ''.stamp'']
             in if writable path then (0, gomap_set path stamp fs) else (1, fs)))"

section \<open>Helpers of the integration tests\<close>

text \<open>
  The turns of the loop: the time, and the status of the answer if there was one. The text of
  the error leaves out the duration.
\<close>

fun WaitForHealth :: "int \<Rightarrow> (int \<times> nat option) list \<Rightarrow> go_error option option" where
  "WaitForHealth deadline [] = None"
| "WaitForHealth deadline ((now, status) # ts) =
     (if now < deadline
      then (if status = Some 200 then Some None else WaitForHealth deadline ts)
      else Some (Some (Errorf ''health endpoint not available'')))"

definition findBinary :: "string \<Rightarrow> (string \<Rightarrow> bool) \<Rightarrow> string result" where
  "findBinary gopath exists =
     (case find exists [''bin/nonchalant'', ''nonchalant'', filepath_Join [gopath, ''bin'', ''nonchalant'']] of
        Some candidate \<Rightarrow> Inr candidate
      | None \<Rightarrow> Inl (Errorf ''nonchalant binary not found''))"

text \<open>The name and the contents of the temporary file.\<close>

definition createTempConfig :: "string result \<Rightarrow> string result \<Rightarrow> go_error option \<Rightarrow> nat \<Rightarrow> (string \<times> string) result" where
  "createTempConfig base tmpFile writeErr port =
     (case base of
        Inl err \<Rightarrow> Inl (Errorf (''read base config: '' @ err_text err))
      | Inr data \<Rightarrow>
          (case tmpFile of
             Inl err \<Rightarrow> Inl (Errorf (''create temp file: '' @ err_text err))
           | Inr name \<Rightarrow>
               let content = data @ [newline] @ ''server:'' @ [newline] @ ''  health_port: '' @ utoa port @ [newline]
               in case writeErr of
                    Some err \<Rightarrow> Inl (Errorf (''write temp config: '' @ err_text err))
                  | None \<Rightarrow> Inr (name, content)))"

definition StartServer :: "nat result \<Rightarrow> string result \<Rightarrow> (nat \<Rightarrow> (string \<times> string) result) \<Rightarrow> (string list \<Rightarrow> go_error option) \<Rightarrow> (string list \<times> nat) result" where
  "StartServer listen binary tempConfig start =
     (case listen of
        Inl err \<Rightarrow> Inl (Errorf (''find free port: '' @ err_text err))
      | Inr port \<Rightarrow>
          (case binary of
             Inl err \<Rightarrow> Inl (Errorf (''find binary: '' @ err_text err))
           | Inr binPath \<Rightarrow>
               (case tempConfig port of
                  Inl err \<Rightarrow> Inl (Errorf (''create temp config: '' @ err_text err))
                | Inr (name, _) \<Rightarrow>
                    let cmd = [binPath, ''--config'', name]
                    in case start cmd of
                         Some err \<Rightarrow> Inl (Errorf (''start server: '' @ err_text err))
                       | None \<Rightarrow> Inr (cmd, port))))"

section \<open>Checks over a tree\<close>

text \<open>
  What both checks promise of a file: it is broken, which ends the walk, or its faults are
  added to those found so far.
\<close>

locale tree_check =
  fixes check :: "string list \<Rightarrow> visit \<Rightarrow> string list \<times> go_error option"
    and broken :: "visit \<Rightarrow> bool" and faults :: "visit \<Rightarrow> string list"
  assumes check_broken: "broken v \<Longrightarrow> \<exists>e. check failures v = (failures, Some e)"
    and check_faults: "\<not> broken v \<Longrightarrow> check failures v = (failures @ faults v, None)"
begin

lemma walk_whole:
  "\<not> list_ex broken vs \<Longrightarrow> Walk check vs failures = (failures @ concat (map faults vs), None)"
  by (induction vs arbitrary: failures) (auto simp: check_faults)

lemma walk_broken: "list_ex broken vs \<Longrightarrow> \<exists>fs e. Walk check vs failures = (fs, Some e)"
proof (induction vs arbitrary: failures)
  case (Cons v vs)
  then show ?case using check_broken [of v failures] check_faults [of v failures] by (cases "broken v") auto
qed simp

end

definition checked_file :: "visit \<Rightarrow> bool" where
  "checked_file v \<longleftrightarrow> HasSuffix (vs_path v) ''.go'' \<and> \<not> vendored (vs_path v)"

definition lines_broken :: "visit \<Rightarrow> bool" where
  "lines_broken v \<longleftrightarrow> vs_err v \<noteq> None \<or> checked_file v \<and> isl (vs_read v)"

definition too_long :: "visit \<Rightarrow> bool" where
  "too_long v \<longleftrightarrow> checked_file v \<and> line_count (projr (vs_read v)) > maxLines"

definition lines_faults :: "visit \<Rightarrow> string list" where
  "lines_faults v =
     (if too_long v then [vs_path v @ '': '' @ utoa (line_count (projr (vs_read v))) @ '' lines (max '' @ utoa maxLines @ '')''] else [])"

interpretation lines: tree_check lines_visit lines_broken lines_faults
  by unfold_locales
    (auto simp: lines_visit_def lines_broken_def lines_faults_def too_long_def checked_file_def Let_def split: option.splits sum.splits)

definition commented_file :: "visit \<Rightarrow> bool" where
  "commented_file v \<longleftrightarrow> checked_file v \<and> \<not> HasSuffix (vs_path v) ''_test.go''"

definition comments_broken :: "visit \<Rightarrow> bool" where
  "comments_broken v \<longleftrightarrow> vs_err v \<noteq> None \<or> commented_file v \<and> isl (vs_read v)"

definition comments_faults :: "(string \<Rightarrow> FuncDecl list option) \<Rightarrow> visit \<Rightarrow> string list" where
  "comments_faults parse v = (if commented_file v then fst (comments_visit parse [] v) else [])"

lemma comments_visit_appends:
  "comments_visit parse failures v = (failures @ fst (comments_visit parse [] v), snd (comments_visit parse [] v))"
  by (auto simp: comments_visit_def Let_def split: option.splits sum.splits)

interpretation comments: tree_check "comments_visit parse" comments_broken "comments_faults parse" for parse
proof
  show "\<exists>e. comments_visit parse failures v = (failures, Some e)" if "comments_broken v" for v failures
    using that by (auto simp: comments_visit_def comments_broken_def commented_file_def checked_file_def split: option.splits sum.splits)
  show "comments_visit parse failures v = (failures @ comments_faults parse v, None)" if "\<not> comments_broken v" for v failures
    using that by (auto simp: comments_visit_def comments_broken_def comments_faults_def commented_file_def checked_file_def Let_def
        split: option.splits sum.splits)
qed

text \<open>
  A function or file as \<open>check-comments\<close> wants it.
\<close>

definition fn_commented :: "FuncDecl \<Rightarrow> bool" where
  "fn_commented fn \<longleftrightarrow> HasPrefix (fd_Name fn) ''Test'' \<or> HasPrefix (fd_Name fn) ''Benchmark'' \<or> (\<exists>l ls. fd_Doc fn = Some (l # ls))"

definition file_commented :: "(string \<Rightarrow> FuncDecl list option) \<Rightarrow> string \<Rightarrow> bool" where
  "file_commented parse content \<longleftrightarrow> Contains content ''If you are AI:'' \<and> list_all fn_commented (case parse content of None \<Rightarrow> [] | Some ds \<Rightarrow> ds)"

lemma missing_comment_iff: "missing_comment path fn = [] \<longleftrightarrow> fn_commented fn"
  by (cases "fd_Doc fn"; cases "the (fd_Doc fn)") (auto simp: missing_comment_def fn_commented_def)

lemma comments_faults_iff:
  "\<not> comments_broken v \<Longrightarrow> comments_faults parse v = [] \<longleftrightarrow> (commented_file v \<longrightarrow> file_commented parse (projr (vs_read v)))"
  by (auto simp: comments_faults_def comments_visit_def comments_broken_def commented_file_def checked_file_def file_commented_def Let_def
      list_all_iff missing_comment_iff concat_eq_Nil_conv split: option.splits sum.splits)

text \<open>
  C38. The gates of the repository: \<open>check-lines\<close> succeeds exactly when it is given a directory,
  the walk reports no error and every Go file outside vendor and testdata directories can be
  read and has at most 300 newlines; \<open>check-comments\<close> exactly when every such file that is
  not a test can be read, has the header and, if it parses, a comment on every function
  that is neither test nor benchmark.
\<close>

theorem checks_accept_iff:
  "(fst (check_lines root) = 0 \<longleftrightarrow> (\<exists>vs. root = Some vs \<and> list_all (\<lambda>v. \<not> lines_broken v \<and> \<not> too_long v) vs)) \<and>
   (fst (check_comments parse root) = 0 \<longleftrightarrow>
      (\<exists>vs. root = Some vs \<and> \<not> list_ex (\<lambda>v. comments_broken v \<or> commented_file v \<and> \<not> file_commented parse (projr (vs_read v))) vs))"
proof (cases root)
  case (Some vs)
  have l: "fst (check_lines root) = 0 \<longleftrightarrow> list_all (\<lambda>v. \<not> lines_broken v \<and> \<not> too_long v) vs"
  proof (cases "list_ex lines_broken vs")
    case True
    then show ?thesis using lines.walk_broken [of vs "[]"] Some by (auto simp: check_lines_def list_all_iff list_ex_iff)
  next
    case False
    then show ?thesis using lines.walk_whole [of vs "[]"] Some
      by (auto simp: check_lines_def list_all_iff list_ex_iff lines_faults_def concat_eq_Nil_conv)
  qed
  have c: "fst (check_comments parse root) = 0 \<longleftrightarrow>
      \<not> list_ex (\<lambda>v. comments_broken v \<or> commented_file v \<and> \<not> file_commented parse (projr (vs_read v))) vs"
  proof (cases "list_ex comments_broken vs")
    case True
    then show ?thesis using comments.walk_broken [of vs parse "[]"] Some by (auto simp: check_comments_def list_ex_iff)
  next
    case False
    then show ?thesis using comments.walk_whole [of vs parse "[]"] Some comments_faults_iff
      by (auto simp: check_comments_def list_ex_iff concat_eq_Nil_conv)
  qed
  show ?thesis using l c Some by simp
qed (simp_all add: check_lines_def check_comments_def)

text \<open>
  The checks look for \<open>/vendor/\<close> with a slash in front, which the paths of a walk that starts at
  the current directory do not have at its top level. A last line without a newline is not
  counted.
\<close>

lemma top_vendor_is_checked: "checked_file \<lparr>vs_path = ''vendor/dep/dep.go'', vs_err = None, vs_read = r\<rparr>"
  by (simp add: checked_file_def vendored_def HasSuffix_def HasPrefix_def)

lemma unterminated_line_not_counted: "newline \<notin> set l \<Longrightarrow> line_count (data @ l) = line_count data"
  by (induction l) (auto simp: line_count_def)

section \<open>Documentation and helpers\<close>

lemma docs_loop_writes:
  assumes "docs_loop writable body names fs = (fs', done)" "distinct (map (\<lambda>n. filepath_Join [''docs'', n]) names)"
  shows "done \<longleftrightarrow> list_all (\<lambda>n. writable (filepath_Join [''docs'', n])) names"
    and "path \<notin> (\<lambda>n. filepath_Join [''docs'', n]) ` set names \<Longrightarrow> gomap_get fs' path = gomap_get fs path"
    and "done \<Longrightarrow> n \<in> set names \<Longrightarrow> gomap_get fs' (filepath_Join [''docs'', n]) = Some (body n)"
  using assms
proof (induction names arbitrary: fs path)
  case (Cons m names)
  { case 1 then show ?case using Cons.IH(1) by (auto simp: Let_def split: if_splits) }
  { case 2 then show ?case using Cons.IH(2) by (auto simp: Let_def gm.get_set split: if_splits) }
  { case 3 then show ?case
      using Cons.IH(3) Cons.IH(2) [where path = "filepath_Join [''docs'', m]"]
      by (auto simp: Let_def gm.get_set split: if_splits) }
qed simp_all

text \<open>
  A run of the generator that exits with 0 has written every document and then the stamp, in
  whatever order the map was iterated; one that does not leaves the stamp as it was.
\<close>

lemma gen_docs_stamps_last:
  assumes "gen_docs mkdirAll writable body now order fs = (status, fs')" "set order = set generators" "distinct order"
  shows "status = 0 \<Longrightarrow> list_all (\<lambda>n. gomap_get fs' (filepath_Join [''docs'', n]) = Some (body n)) generators \<and>
      gomap_get fs' (filepath_Join [''docs'', ''.stamp'']) = Some (utoa now @ [newline])"
    and "status \<noteq> 0 \<Longrightarrow> gomap_get fs' (filepath_Join [''docs'', ''.stamp'']) = gomap_get fs (filepath_Join [''docs'', ''.stamp''])"
proof -
  let ?path = "\<lambda>n. filepath_Join [''docs'', n]"
  have paths: "?path ''.stamp'' = ''docs/.stamp''" "map ?path generators = map (\<lambda>n. ''docs/'' @ n) generators"
    by (simp_all add: generators_def filepath_Join_def filepath_Clean_def)
  then have at: "?path n = ''docs/'' @ n" if "n \<in> set generators" for n using that by simp
  have d: "distinct (map ?path order)" using assms(2,3) at by (auto simp: distinct_map inj_on_def)
  have stamp: "?path ''.stamp'' \<notin> ?path ` set order" using at by (auto simp: assms(2) paths(1)) (auto simp: generators_def)
  then have ne: "?path n \<noteq> ?path ''.stamp''" if "n \<in> set generators" for n using that assms(2) by (metis image_eqI)
  obtain fs1 fin where loop: "docs_loop writable body order fs = (fs1, fin)" by fastforce
  note w = docs_loop_writes [OF loop d]
  show "status = 0 \<Longrightarrow> list_all (\<lambda>n. gomap_get fs' (?path n) = Some (body n)) generators \<and>
      gomap_get fs' (?path ''.stamp'') = Some (utoa now @ [newline])"
    using assms(1,2) loop w(3) ne by (auto simp: gen_docs_def Let_def gm.get_set list_all_iff split: if_splits bool.splits)
  show "status \<noteq> 0 \<Longrightarrow> gomap_get fs' (?path ''.stamp'') = gomap_get fs (?path ''.stamp'')"
    using assms(1) loop w(2) [OF stamp] by (auto simp: gen_docs_def Let_def split: if_splits bool.splits)
qed

lemma WaitForHealth_result:
  "WaitForHealth deadline ts = Some None \<longleftrightarrow> (\<exists>now. (now, Some 200) \<in> set (takeWhile (\<lambda>(now, _). now < deadline) ts))"
  by (induction deadline ts rule: WaitForHealth.induct) auto

end
