(* ===== verification/Spec2Isabelle.thy ===== *)
theory Spec2Isabelle
  imports Server Relay_Supervisor RTMP_Server Transcode RingBuffer Bus_Concurrency LoadTest Scripts
begin

text \<open>
  nonchalant is a live media server. A publisher sends audio, video and metadata over RTMP; the
  server puts the messages of each stream into an in-memory bus; viewers read the stream over
  HTTP-FLV, WebSocket-FLV or, through an ffmpeg process per stream, HLS and DASH. Relays pull
  remote streams in and push local ones out, an API and a metrics endpoint report the state.

  \<^bold>\<open>Parts and theories\<close> (sources below \<open>src/\<close>)

  \<^item> \<open>internal/core/bus\<close>: \<open>Message\<close> (messages, payload pool, keys), \<open>Arena\<close> (slab memory),
    \<open>SharedLog\<close> (the single-producer log), \<open>RingBuffer\<close>, \<open>Bus_Stream\<close> (streams, init cache,
    subscribers), \<open>Registry\<close> (the map of streams) and \<open>Bus_Concurrency\<close> (publication and
    waiting in their atomic steps). A stream pointer is an address into the heap of streams, a
    message pointer one into the slab of its stream, so that reuse of memory and pointers to
    removed streams are visible. Sequence numbers, positions and lengths keep their widths.
  \<^item> \<open>internal/core/protocol\<close>: \<open>FLV\<close>, \<open>AMF0\<close>, \<open>RTMP_Chunk\<close> (chunk parser and writer) and
    \<open>RTMP_Session\<close> (both handshakes, session state, acknowledgements), all on bytes. A
    connection is the record of the input left and the output written; reads at its end fail as
    \<open>io.ReadFull\<close> does.
  \<^item> \<open>internal/auth\<close> and the key in the stream name: \<open>Auth\<close>, on the parts of \<open>strings\<close>,
    \<open>net/url\<close> in \<open>Go_Strings\<close>.
  \<^item> \<open>internal/svc/rtmp\<close>: \<open>RTMP_Service\<close> (the handlers, from the accepted connection to its end),
    \<open>RTMP_Connection\<close> (whole connections, from the bytes of a client to the bus) and
    \<open>RTMP_Server\<close> (listener, accepting, connections side by side).
  \<^item> \<open>internal/svc/httpflv\<close> and \<open>internal/svc/wsflv\<close>: \<open>HTTP_FLV\<close> and \<open>WS_FLV\<close>, against the
    specification of what a viewer sees in \<open>FLV_Play\<close>. The loops take a schedule: what the rest
    of the server did to the bus before each turn, and whether the context is done.
  \<^item> \<open>internal/svc/pkger\<close>: \<open>Packager_Args\<close> (ffmpeg command lines) and \<open>Packager\<close> (life cycle,
    manager, file handler), on \<open>path/filepath\<close> in \<open>Go_Path\<close>.
  \<^item> \<open>internal/config\<close>: \<open>Config\<close>. \<open>internal/svc/relay\<close>: \<open>Relay\<close> (tasks, manager) and
    \<open>Relay_Supervisor\<close> (the goroutines and the ffmpeg of one relay, step by step). \<open>internal/svc/api\<close>,
    \<open>internal/svc/metrics\<close> and \<open>internal/svc/health\<close>: \<open>API_Metrics\<close>. \<open>internal/server\<close> and
    \<open>cmd/nonchalant\<close>: \<open>Server\<close>. \<open>internal/svc/transcode\<close> and \<open>internal/ffx\<close>: \<open>Transcode\<close>, in
    both builds; no part of the server starts any of it.
  \<^item> \<open>cmd/loadtest\<close>: \<open>LoadTest\<close>, with \<open>float64\<close> in \<open>Go_Float\<close>. \<open>scripts\<close> and the helpers of
    \<open>internal/itest\<close>: \<open>Scripts\<close>.
  \<^item> \<open>Go_Prelude\<close> holds what all share: bytes and words, errors, readers, Go maps, the rounding
    loop, reachability.

  \<^bold>\<open>Interfaces\<close>

  The contracts between the parts are locales, interpreted on the model's own definitions:
  \<open>codec\<close> (decoding undoes encoding: numbers, AMF0 values, FLV headers and tags), \<open>go_map\<close>,
  \<open>inductive_invariant\<close> (an invariant of a step relation: streams, readers, the registry, chunk
  parsers, packagers, relays, the goroutines of a relay, RTMP servers), \<open>winding_down\<close> (goroutines that always
  have a step and never many: a relay told to stop), \<open>message_log\<close> (what a log promises its
  readers: the shared log and, through it, a stream), \<open>bounded_queue\<close> with its two dropping disciplines (the ring
  buffer), \<open>flv_conn\<close> and \<open>player\<close> (both FLV transports), \<open>relay_control\<close> (what the API and
  the metrics use of the relays) and \<open>tree_check\<close> (both checks of the repository).

  \<^bold>\<open>What is shown\<close>

  \<^item> Bus: a log refines the history of publications; readers get its newest retained suffix
    with an exact count of what they missed, late joiners the codec configuration first; slab
    memory is not reused under a message that can still be read; the registry is a map whose
    busy streams stay.
  \<^item> Wire formats: RTMP messages, AMF0 commands and FLV files read back as written; reassembly
    is bounded; decoding ends, and what was decoded is well formed.
  \<^item> Sessions: a connection always ends with its stream released, the bus changes only for an
    allowed key, media extends exactly the session's stream. The bytes of a whole publishing
    connection, handshake and set-up included, put exactly its media on the stream it named,
    and however connections interleave a stream has one publishing session at most.
  \<^item> Viewers: what a viewer receives is the FLV file of what it should see, on both transports,
    and it is detached in the end. The last section below composes sessions and viewers.
  \<^item> Packaging: no file outside the packager directories is served; requests get the packager
    of their stream; a valid ladder is packaged rung by rung.
  \<^item> Relays, API, server: back-off and end of the loop, the goroutines behind it, which end and
    leave neither process nor watcher behind whenever they are told to stop, restart, agreement of API and metrics,
    routing, the server's relays pass its own authentication, start, shutdown and exit status;
    a scrape is what the metrics registry demands.
  \<^item> Tools: the load generator counts what the server sends, its jitter is 0 exactly for a
    steady stream, its percentiles are in range; the repository checks accept what they say.

  Where the code falls short the theories say so as theorems too, next to the definitions they
  are about: a torn publication, a lost wake-up, an attachment to a removed stream, extended
  timestamps, a chunk size of 0, a second publish command or close on a connection, unbounded
  nesting, packagers that collide, are kept though dead or have no key, relays left running by
  a signal.

  \<^bold>\<open>Modelling choices\<close>

  Errors are values of \<open>go_error\<close>; a panic is a result of its own. Loops are structurally
  recursive, proved to end, or \<open>partial_function (option)\<close> where the code may not end; loops
  that wait for others take the list of the turns they go through, so a statement about such a
  loop holds for every prefix of its run. There is no fuel that a statement depends on: the
  FLV reader used as specification takes the number of tags it is to read. Go maps are
  association lists whose order stands for the unspecified order of iteration. Mutexes make
  the locked operations atomic steps; where the code is lock-free the steps are those of its
  atomic instructions. Times are integers of nanoseconds. The clock, the file system, the
  process table, the random source, the YAML decoder, WebSocket connections and the bodies of
  JSON requests are parameters.

  \<^bold>\<open>Not modelled\<close>

  The texts of the generated documents, command line flags,
  logging, signal delivery, \<open>http.ServeFile\<close>, pprof and the text formats of JSON and
  Prometheus, which belong to the standard library and to client libraries; memory ordering
  weaker than the interleaving of atomic steps.
\<close>

section \<open>From the publisher to the viewer\<close>

text \<open>
  The other side of a viewer's loop is now an RTMP session: what happens to the bus between
  two turns is that the session handles messages that its publisher sent.
\<close>

fun ingest :: "RtmpMessage list \<Rightarrow> ServiceSession \<Rightarrow> Bus \<Rightarrow> Bus" where
  "ingest [] s b = b"
| "ingest (m # ms) s b = (case handle_message m (s, b) of ((s', b'), _) \<Rightarrow> ingest ms s' b')"

definition live_env :: "ServiceSession \<Rightarrow> (RtmpMessage list \<times> bool) list \<Rightarrow> RtmpMessage list \<Rightarrow>
    (RtmpMessage list \<times> bool) list \<Rightarrow> Conn play_env" where
  "live_env s ps g es =
     \<lparr>pe_write = conn_Write, pe_close = conn_Close, pe_polls = map (\<lambda>(ms, c). (ingest ms s, c)) ps,
      pe_late = ingest g s, pe_sched = map (\<lambda>(ms, c). (ingest ms s, c)) es\<rparr>"

lemma ingest_publishes:
  assumes "sv_publisher s = Some p" "list_all is_media ms"
  shows "ingest ms s b = with_stream (pb_stream p) (publish_frames (map frame_of ms)) b"
  using assms(2)
proof (induction ms arbitrary: b)
  case Nil
  show ?case by (simp add: publish_frames_def with_stream_def stream_at_def)
next
  case (Cons m ms)
  then show ?case
    by (simp add: handle_message_media [OF _ assms(1)] with_stream_twice publish_frames_def comp_def)
qed

lemma live_env_tcp:
  assumes "sv_publisher s = Some p" "list_all is_media (concat (map fst ps) @ g @ concat (map fst es))"
  shows "live_env s ps g es =
    tcp_env (pb_stream p) (map (map_prod (map frame_of) id) ps) (map frame_of g) (map (map_prod (map frame_of) id) es)"
proof -
  have turns: "map (\<lambda>(ms, c). (ingest ms s, c)) xs = publishing (pb_stream p) (map (map_prod (map frame_of) id) xs)"
    if "list_all is_media (concat (map fst xs))" for xs :: "(RtmpMessage list \<times> bool) list"
    using that by (induction xs) (auto simp: publishing_def fun_eq_iff ingest_publishes [OF assms(1)])
  show ?thesis using assms(2) by (auto simp: live_env_def tcp_env_def turns fun_eq_iff ingest_publishes [OF assms(1)])
qed

lemma stripSetDataFrame_length: "length (stripSetDataFrame x) \<le> length x"
  by (auto simp: stripSetDataFrame_def Let_def)

lemma frame_of_length: "length (mm_Payload (frame_of m)) \<le> length (rm_Body m)"
  by (simp add: frame_of_def stripSetDataFrame_length)



end
